(* ===== verification/Bridge_Prelude.thy ===== *)
theory Bridge_Prelude
  imports Main "HOL-Library.Sublist" "HOL-Library.Multiset"
begin

text \<open>
  Shared vocabulary of the development: the collections of simplification rules the component
  theories add to and the generic facts on lists, options and event-driven machines that more
  than one component proof uses. Nothing in this theory speaks about the program.
\<close>

named_theorems js_eval \<open>characteristic equations of the JavaScript runtime model\<close>
named_theorems page_eval \<open>characteristic equations of the page (DOM and jQuery) model\<close>
named_theorems frame \<open>what an operation leaves unchanged\<close>

section \<open>Lists\<close>

lemma map_cond_update_id [simp]:
  "\<forall>x \<in> set xs. \<not> P x \<Longrightarrow> map (\<lambda>x. if P x then f x else x) xs = xs"
  by (induction xs) auto

lemma filter_map_pres:
  "(\<And>x. P (f x) = P x) \<Longrightarrow> filter P (map f xs) = map f (filter P xs)"
  by (induction xs) auto

lemma filter_append_not_both:
  "mset (filter P xs) + mset (filter (\<lambda>x. \<not> P x) xs) = mset xs"
  by (induction xs) auto

lemma distinct_map_filterI: "distinct (map f xs) \<Longrightarrow> distinct (map f (filter P xs))"
  by (induction xs) auto

lemma nth_cycle_bound: "0 < n \<Longrightarrow> i mod n < (n::nat)"
  by simp

lemma map2_cond_id:
  "length rs = length as \<Longrightarrow> \<forall>a \<in> set as. \<not> Q a \<Longrightarrow>
    map2 (\<lambda>r a. if Q a then f r else r) rs as = rs"
  by (induction rs as rule: list_induct2) auto

text \<open>Updating only the first element with a property, as a look-up by identifier does.\<close>

fun upd_first :: "('a \<Rightarrow> bool) \<Rightarrow> ('a \<Rightarrow> 'a) \<Rightarrow> 'a list \<Rightarrow> 'a list" where
  "upd_first P f [] = []"
| "upd_first P f (x # xs) = (if P x then f x # xs else x # upd_first P f xs)"

lemma length_upd_first [simp]: "length (upd_first P f xs) = length xs"
  by (induction xs) auto

lemma upd_first_absent [simp]: "\<forall>x \<in> set xs. \<not> P x \<Longrightarrow> upd_first P f xs = xs"
  by (induction xs) auto

lemma find_upd_first_same:
  "(\<And>x. P (f x) = P x) \<Longrightarrow> find P (upd_first P f xs) = map_option f (find P xs)"
  by (induction xs) auto

lemma find_upd_first_other:
  assumes "\<And>x. Q (f x) = Q x" and "\<And>x. P x \<Longrightarrow> \<not> Q x"
  shows "find Q (upd_first P f xs) = find Q xs"
  using assms by (induction xs) auto

lemma map_upd_first: "(\<And>x. g (f x) = g x) \<Longrightarrow> map g (upd_first P f xs) = map g xs"
  by (induction xs) auto

lemma filter_upd_first:
  "(\<And>x. P x \<Longrightarrow> \<not> Q x) \<Longrightarrow> (\<And>x. P x \<Longrightarrow> \<not> Q (f x)) \<Longrightarrow>
    filter Q (upd_first P f xs) = filter Q xs"
  by (induction xs) auto

lemma find_SomeD: "find P xs = Some x \<Longrightarrow> x \<in> set xs \<and> P x"
  by (induction xs) (auto split: if_splits)

section \<open>Event-driven machines\<close>

text \<open>
  Every page script is a state and handlers that react to events. The locale states once what
  an invariant of such a machine gives: it holds after every sequence of events.
\<close>

locale event_machine =
  fixes init :: "'s \<Rightarrow> bool"
    and handle :: "'s \<Rightarrow> 'e \<Rightarrow> 's"
    and inv :: "'s \<Rightarrow> bool"
  assumes init_inv: "init s \<Longrightarrow> inv s"
    and handle_inv: "inv s \<Longrightarrow> inv (handle s e)"
begin

lemma run_inv: "inv s \<Longrightarrow> inv (foldl handle s es)"
  by (induction es arbitrary: s) (auto intro: handle_inv)

lemma run_from_init: "init s \<Longrightarrow> inv (foldl handle s es)"
  by (blast intro: init_inv run_inv)

end

end
