(* ===== verification/Forest_Rows.thy ===== *)
theory Forest_Rows
  imports Bridge_Prelude
begin

text \<open>
  Tables that show a tree list its nodes in preorder: each row has an identifier and the
  identifier of its parent, and a parent precedes its children. This theory states what such a
  table means (the ancestors of each row, which rows ought to be visible) independently of any
  script, and the contract \<open>tree_view\<close> that a script keeping the table consistent satisfies.
\<close>

section \<open>Ancestors of the rows of a preorder listing\<close>

type_synonym node_ids = "string \<times> string option"

fun anc_step :: "string list \<Rightarrow> string option \<Rightarrow> string list" where
  "anc_step path None = []"
| "anc_step path (Some q) = dropWhile (\<lambda>x. x \<noteq> q) path"

text \<open>\<open>path\<close> is the previous row followed by its ancestors, innermost first.\<close>

fun anc_paths :: "string list \<Rightarrow> node_ids list \<Rightarrow> string list list" where
  "anc_paths path [] = []"
| "anc_paths path ((i, p) # rs) = anc_step path p # anc_paths (i # anc_step path p) rs"

fun preorder :: "string list \<Rightarrow> node_ids list \<Rightarrow> bool" where
  "preorder path [] = True"
| "preorder path ((i, p) # rs) =
     ((case p of None \<Rightarrow> True | Some q \<Rightarrow> q \<in> set path) \<and> preorder (i # anc_step path p) rs)"

definition forest :: "node_ids list \<Rightarrow> bool" where
  "forest rs = (distinct (map fst rs) \<and> preorder [] rs)"

lemma length_anc_paths [simp]: "length (anc_paths path rs) = length rs"
  by (induction path rs rule: anc_paths.induct) auto

lemma set_anc_step: "set (anc_step path p) \<subseteq> set path"
  by (cases p) (auto dest: set_dropWhileD)

lemma anc_paths_subset:
  "a \<in> set (anc_paths path rs) \<Longrightarrow> set a \<subseteq> set path \<union> fst ` set rs"
proof (induction path rs arbitrary: a rule: anc_paths.induct)
  case (2 path i p rs)
  then show ?case using set_anc_step[of path p] by fastforce
qed simp

lemma anc_paths_avoid:
  "x \<notin> set path \<Longrightarrow> x \<notin> fst ` set rs \<Longrightarrow> \<forall>a \<in> set (anc_paths path rs). x \<notin> set a"
  using anc_paths_subset by blast

lemma anc_paths_append:
  "\<exists>path'. anc_paths path (xs @ ys) = anc_paths path xs @ anc_paths path' ys
     \<and> (xs \<noteq> [] \<longrightarrow> path' = fst (last xs) # last (anc_paths path xs))
     \<and> (xs = [] \<longrightarrow> path' = path)
     \<and> (preorder path (xs @ ys) \<longrightarrow> preorder path xs \<and> preorder path' ys)
     \<and> set path' \<subseteq> set path \<union> fst ` set xs
     \<and> (distinct path \<and> distinct (map fst xs) \<and> set path \<inter> fst ` set xs = {} \<longrightarrow> distinct path')"
proof (induction path xs rule: anc_paths.induct)
  case (2 path i p xs)
  let ?a = "anc_step path p"
  obtain path' where p': "anc_paths (i # ?a) (xs @ ys) = anc_paths (i # ?a) xs @ anc_paths path' ys"
     "xs \<noteq> [] \<longrightarrow> path' = fst (last xs) # last (anc_paths (i # ?a) xs)"
     "xs = [] \<longrightarrow> path' = i # ?a"
     "preorder (i # ?a) (xs @ ys) \<longrightarrow> preorder (i # ?a) xs \<and> preorder path' ys"
     "set path' \<subseteq> set (i # ?a) \<union> fst ` set xs"
     "distinct (i # ?a) \<and> distinct (map fst xs) \<and> set (i # ?a) \<inter> fst ` set xs = {} \<longrightarrow> distinct path'"
    using 2 by blast
  have sub: "set ?a \<subseteq> set path" by (rule set_anc_step)
  have dist: "distinct path \<Longrightarrow> distinct ?a" by (cases p) auto
  have ne: "anc_paths (i # ?a) xs = [] \<longleftrightarrow> xs = []"
    by (metis length_0_conv length_anc_paths)
  show ?case
    using p' sub dist ne by (intro exI[of _ path']) (auto split: option.splits)
qed auto

lemma forest_split:
  assumes "forest (xs @ (i, p) # ys)"
  obtains A a where "anc_paths [] (xs @ (i, p) # ys) = A @ a # anc_paths (i # a) ys"
    and "length A = length xs" and "preorder (i # a) ys" and "distinct (i # a)"
    and "set a \<subseteq> fst ` set xs" and "\<forall>b \<in> set A. set b \<subseteq> fst ` set xs"
    and "i \<notin> fst ` set xs" and "\<forall>y \<in> set ys. fst y \<notin> insert i (fst ` set xs)"
    and "distinct (map fst ys)"
proof -
  obtain q where q: "anc_paths [] (xs @ (i, p) # ys) = anc_paths [] xs @ anc_paths q ((i, p) # ys)"
      "preorder [] (xs @ (i, p) # ys) \<longrightarrow> preorder q ((i, p) # ys)"
      "set q \<subseteq> fst ` set xs" "distinct (map fst xs) \<longrightarrow> distinct q"
    using anc_paths_append[of "[]" xs "(i, p) # ys"] by auto
  have "distinct (map fst xs @ i # map fst ys)" using assms by (simp add: forest_def)
  then have d: "distinct (map fst xs)" "i \<notin> fst ` set xs" "fst ` set ys \<inter> insert i (fst ` set xs) = {}"
      "distinct (map fst ys)"
    by auto
  have ys: "\<forall>y \<in> set ys. fst y \<notin> insert i (fst ` set xs)" using d(3) by blast
  let ?a = "anc_step q p"
  have sub: "set ?a \<subseteq> fst ` set xs" using set_anc_step[of q p] q(3) by auto
  have "distinct ?a" using q(4) d(1) by (cases p) auto
  then have "distinct (i # ?a)" using sub d(2) by auto
  moreover have "\<forall>b \<in> set (anc_paths [] xs). set b \<subseteq> fst ` set xs"
    using anc_paths_subset[of _ "[]" xs] by auto
  moreover have "preorder (i # ?a) ys" using q(2) assms by (simp add: forest_def)
  ultimately show thesis
    using q(1) sub d ys by (intro that[of "anc_paths [] xs" ?a]) simp_all
qed

section \<open>Consistent visibility\<close>

text \<open>A row is hidden exactly if one of its ancestors is not open.\<close>

definition shown_ok :: "('r \<Rightarrow> bool) \<Rightarrow> string set \<Rightarrow> 'r list \<Rightarrow> string list list \<Rightarrow> bool" where
  "shown_ok hid opn rs as = list_all2 (\<lambda>r a. hid r = (\<not> set a \<subseteq> opn)) rs as"

lemma shown_ok_append:
  "length xs = length as \<Longrightarrow>
    shown_ok hid opn (xs @ ys) (as @ bs) = (shown_ok hid opn xs as \<and> shown_ok hid opn ys bs)"
  by (simp add: shown_ok_def list_all2_append)

lemma shown_ok_Nil [simp]: "shown_ok hid opn [] []"
  by (simp add: shown_ok_def)

lemma shown_ok_Cons [simp]:
  "shown_ok hid opn (r # rs) (a # as) = (hid r = (\<not> set a \<subseteq> opn) \<and> shown_ok hid opn rs as)"
  by (simp add: shown_ok_def)

lemma shown_ok_open_cong:
  assumes "shown_ok hid opn rs as" and "\<forall>a \<in> set as. set a \<inter> opn = set a \<inter> opn'"
  shows "shown_ok hid opn' rs as"
  unfolding shown_ok_def
proof (rule list.rel_mono_strong)
  show "list_all2 (\<lambda>r a. hid r = (\<not> set a \<subseteq> opn)) rs as"
    using assms(1) by (simp add: shown_ok_def)
next
  fix r a assume "r \<in> set rs" "a \<in> set as" "hid r = (\<not> set a \<subseteq> opn)"
  then show "hid r = (\<not> set a \<subseteq> opn')" using assms(2) by blast
qed

section \<open>The contract of a tree view\<close>

text \<open>
  A tree view turns rows into rows when the expander of the \<open>k\<close>-th row is clicked. It promises
  to keep the structure and, when the clicked row is visible, the consistency of visibility.
\<close>

locale tree_view =
  fixes ids :: "'r \<Rightarrow> node_ids"
    and hid :: "'r \<Rightarrow> bool"
    and isopen :: "'r \<Rightarrow> bool"
    and wf :: "'r list \<Rightarrow> bool"
    and click :: "nat \<Rightarrow> 'r list \<Rightarrow> 'r list"
  assumes click_ids: "wf rs \<Longrightarrow> map ids (click k rs) = map ids rs"
    and click_wf: "wf rs \<Longrightarrow> wf (click k rs)"
    and click_consistent:
      "wf rs \<Longrightarrow> forest (map ids rs) \<Longrightarrow> k < length rs \<Longrightarrow> \<not> hid (rs ! k) \<Longrightarrow>
       shown_ok hid {fst (ids r) | r. r \<in> set rs \<and> isopen r} rs (anc_paths [] (map ids rs)) \<Longrightarrow>
       shown_ok hid {fst (ids r) | r. r \<in> set (click k rs) \<and> isopen r} (click k rs)
         (anc_paths [] (map ids rs))"
begin

definition consistent :: "'r list \<Rightarrow> bool" where
  "consistent rs = (wf rs \<and> forest (map ids rs) \<and>
     shown_ok hid {fst (ids r) | r. r \<in> set rs \<and> isopen r} rs (anc_paths [] (map ids rs)))"

text \<open>The user can only click what is visible.\<close>

definition user_click :: "'r list \<Rightarrow> nat \<Rightarrow> 'r list" where
  "user_click rs k = (if k < length rs \<and> \<not> hid (rs ! k) then click k rs else rs)"

lemma user_click_consistent: "consistent rs \<Longrightarrow> consistent (user_click rs k)"
  by (auto simp: consistent_def user_click_def click_ids click_wf intro: click_consistent)

lemma user_clicks_consistent: "consistent rs \<Longrightarrow> consistent (foldl user_click rs ks)"
  by (induction ks arbitrary: rs) (auto simp: user_click_consistent)

lemma user_clicks_ids: "consistent rs \<Longrightarrow> map ids (foldl user_click rs ks) = map ids rs"
proof (induction ks arbitrary: rs)
  case (Cons k ks)
  then have "map ids (foldl user_click (user_click rs k) ks) = map ids (user_click rs k)"
    using user_click_consistent by blast
  also have "\<dots> = map ids rs"
    using Cons.prems by (simp add: user_click_def consistent_def click_ids)
  finally show ?case by simp
qed simp

end

end
