(* ===== verification/JS_Runtime.thy ===== *)
theory JS_Runtime
  imports Bridge_Prelude
begin

text \<open>
  The parts of the JavaScript language and its standard library that the scripts use: values,
  truthiness, string conversion, the string methods, \<open>parseInt\<close>, the URI component
  encoding and \<open>JSON.stringify\<close>. A JavaScript string is modelled as a list of code units
  below 256. Numbers are integers or NaN: the scripts compute with identifiers, counts, pages,
  indices and pixel positions only.
\<close>

section \<open>Values\<close>

datatype jsval =
    JUndef | JNull | JBool bool | JNum int | JNaN | JStr string
  | JArr "jsval list" | JObj "(string \<times> jsval) list"

text \<open>Errors a script can stop with. The last one marks results outside the string model.\<close>

datatype js_error = TypeError | URIError | Beyond_Latin1

fun truthy :: "jsval \<Rightarrow> bool" where
  "truthy JUndef = False"
| "truthy JNull = False"
| "truthy (JBool b) = b"
| "truthy (JNum n) = (n \<noteq> 0)"
| "truthy JNaN = False"
| "truthy (JStr s) = (s \<noteq> [])"
| "truthy (JArr _) = True"
| "truthy (JObj _) = True"

text \<open>Own properties in insertion order: reading, writing, deleting.\<close>

fun obj_get :: "(string \<times> jsval) list \<Rightarrow> string \<Rightarrow> jsval" where
  "obj_get [] k = JUndef"
| "obj_get ((k', v) # ps) k = (if k' = k then v else obj_get ps k)"

fun obj_set :: "string \<Rightarrow> jsval \<Rightarrow> (string \<times> jsval) list \<Rightarrow> (string \<times> jsval) list" where
  "obj_set k v [] = [(k, v)]"
| "obj_set k v ((k', v') # ps) = (if k' = k then (k, v) # ps else (k', v') # obj_set k v ps)"

definition obj_del :: "string \<Rightarrow> (string \<times> jsval) list \<Rightarrow> (string \<times> jsval) list" where
  "obj_del k ps = filter (\<lambda>(k', _). k' \<noteq> k) ps"

definition obj_has :: "string \<Rightarrow> (string \<times> jsval) list \<Rightarrow> bool" where
  "obj_has k ps = (k \<in> set (map fst ps))"

fun get_prop :: "jsval \<Rightarrow> string \<Rightarrow> jsval" where
  "get_prop (JObj ps) k = obj_get ps k"
| "get_prop _ k = JUndef"

lemma obj_get_set [simp]: "obj_get (obj_set k v ps) k' = (if k' = k then v else obj_get ps k')"
  by (induction ps) auto

lemma obj_keys_set: "fst ` set (obj_set k v ps) = insert k (fst ` set ps)"
  by (induction k v ps rule: obj_set.induct) auto

lemma obj_set_distinct: "distinct (map fst ps) \<Longrightarrow> distinct (map fst (obj_set k v ps))"
  by (induction ps) (auto simp: obj_keys_set simp flip: image_set)

lemma obj_get_del [simp]: "obj_get (obj_del k ps) k' = (if k' = k then JUndef else obj_get ps k')"
  by (induction ps) (auto simp: obj_del_def)

lemma obj_has_set [simp]: "obj_has k' (obj_set k v ps) = (k' = k \<or> obj_has k' ps)"
  by (simp add: obj_has_def obj_keys_set)

lemma obj_has_del [simp]: "obj_has k' (obj_del k ps) = (k' \<noteq> k \<and> obj_has k' ps)"
  by (force simp: obj_has_def obj_del_def)

lemma obj_get_absent: "\<not> obj_has k ps \<Longrightarrow> obj_get ps k = JUndef"
  by (induction ps) (auto simp: obj_has_def)

section \<open>Characters and string methods\<close>

definition is_ws :: "char \<Rightarrow> bool" where
  "is_ws c = (let n = (of_char c :: nat) in n = 32 \<or> (9 \<le> n \<and> n \<le> 13) \<or> n = 160)"

definition is_line_end :: "char \<Rightarrow> bool" where
  "is_line_end c = (let n = (of_char c :: nat) in n = 10 \<or> n = 13)"

definition digit_of :: "char \<Rightarrow> nat option" where
  "digit_of c = (let n = (of_char c :: nat) in if 48 \<le> n \<and> n \<le> 57 then Some (n - 48) else None)"

definition is_digit :: "char \<Rightarrow> bool" where
  "is_digit c = (digit_of c \<noteq> None)"

text \<open>\<open>s.startsWith(p)\<close>, \<open>s.indexOf(p)\<close>, \<open>s.replace(p, r)\<close> for string patterns.\<close>

fun strip_prefix :: "'a list \<Rightarrow> 'a list \<Rightarrow> 'a list option" where
  "strip_prefix [] ys = Some ys"
| "strip_prefix (x # xs) [] = None"
| "strip_prefix (x # xs) (y # ys) = (if x = y then strip_prefix xs ys else None)"

definition starts_with :: "string \<Rightarrow> string \<Rightarrow> bool" where
  "starts_with s p = (strip_prefix p s \<noteq> None)"

fun break_at :: "'a list \<Rightarrow> 'a list \<Rightarrow> ('a list \<times> 'a list) option" where
  "break_at p [] = (if p = [] then Some ([], []) else None)"
| "break_at p (c # cs) =
     (case strip_prefix p (c # cs) of
        Some r \<Rightarrow> Some ([], r)
      | None \<Rightarrow> map_option (\<lambda>(a, b). (c # a, b)) (break_at p cs))"

definition contains :: "string \<Rightarrow> string \<Rightarrow> bool" where
  "contains s p = (break_at p s \<noteq> None)"

definition replace_str :: "string \<Rightarrow> string \<Rightarrow> string \<Rightarrow> string" where
  "replace_str p r s = (case break_at p s of None \<Rightarrow> s | Some (a, b) \<Rightarrow> a @ r @ b)"

definition trim :: "string \<Rightarrow> string" where
  "trim s = rev (dropWhile is_ws (rev (dropWhile is_ws s)))"

fun join :: "string \<Rightarrow> string list \<Rightarrow> string" where
  "join sep [] = []"
| "join sep [x] = x"
| "join sep (x # y # ys) = x @ sep @ join sep (y # ys)"

lemma strip_prefix_Some: "strip_prefix p s = Some r \<longleftrightarrow> s = p @ r"
  by (induction p s rule: strip_prefix.induct) auto

lemma strip_prefix_append [simp]: "strip_prefix p (p @ r) = Some r"
  by (simp add: strip_prefix_Some)

lemma starts_with_prefix: "starts_with s p \<longleftrightarrow> prefix p s"
  by (auto simp: starts_with_def strip_prefix_Some prefix_def)

lemma break_at_Some: "break_at p s = Some (a, b) \<Longrightarrow> s = a @ p @ b"
  by (induction p s arbitrary: a b rule: break_at.induct)
     (auto split: if_splits option.splits simp: strip_prefix_Some)

lemma break_at_None: "break_at p s = None \<longleftrightarrow> \<not> sublist p s"
proof (induction p s rule: break_at.induct)
  case (2 p c cs)
  have "strip_prefix p (c # cs) = None \<longleftrightarrow> \<not> prefix p (c # cs)"
    by (auto simp: prefix_def strip_prefix_Some simp flip: not_Some_eq)
  with 2 show ?case
    by (auto simp: sublist_Cons_right split: option.splits)
qed simp

lemma contains_sublist: "contains s p \<longleftrightarrow> sublist p s"
  by (simp add: contains_def break_at_None)

lemma break_at_shrinks:
  "break_at p s = Some (a, b) \<Longrightarrow> p \<noteq> [] \<Longrightarrow> length b < length s"
  using break_at_Some by fastforce

function split_on :: "string \<Rightarrow> string \<Rightarrow> string list" where
  "split_on sep s =
     (if sep = [] then map (\<lambda>c. [c]) s
      else case break_at sep s of None \<Rightarrow> [s] | Some (a, b) \<Rightarrow> a # split_on sep b)"
  by pat_completeness auto
termination
  by (relation "measure (length \<circ> snd)") (auto dest: break_at_shrinks)

declare split_on.simps [simp del]

text \<open>\<open>s.split(/\<backslash>s+/)\<close>: maximal runs of white space separate the parts.\<close>

function split_ws :: "string \<Rightarrow> string list" where
  "split_ws s =
     (let w = takeWhile (\<lambda>c. \<not> is_ws c) s; r = dropWhile (\<lambda>c. \<not> is_ws c) s
      in if r = [] then [w] else w # split_ws (dropWhile is_ws r))"
  by pat_completeness auto
termination
proof (relation "measure length", goal_cases)
  case (2 s w r)
  from 2(3) obtain c cs where r: "r = c # cs" by (cases r) simp_all
  have "\<not> (\<not> is_ws (hd r))"
    unfolding 2(2) by (rule hd_dropWhile) (use 2 in simp)
  then have "is_ws c" by (simp add: r)
  then have "length (dropWhile is_ws r) \<le> length cs"
    using r by (simp add: length_dropWhile_le)
  moreover have "length r \<le> length s"
    using 2 by (simp add: length_dropWhile_le)
  ultimately show ?case using r by simp
qed simp

declare split_ws.simps [simp del]

text \<open>Splitting at a single character inverts joining with it.\<close>

lemma break_at_char: "c \<notin> set x \<Longrightarrow> break_at [c] (x @ c # r) = Some (x, r)"
  by (induction x) auto

lemma sublist_single: "sublist [c] x \<longleftrightarrow> c \<in> set x"
  by (auto simp: sublist_def in_set_conv_decomp)

lemma break_at_char_None: "c \<notin> set x \<Longrightarrow> break_at [c] x = None"
  by (simp add: break_at_None sublist_single)

lemma contains_char [simp]: "contains s [c] \<longleftrightarrow> c \<in> set s"
  by (simp add: contains_sublist sublist_single)

lemma split_on_join:
  "xs \<noteq> [] \<Longrightarrow> \<forall>x \<in> set xs. c \<notin> set x \<Longrightarrow> split_on [c] (join [c] xs) = xs"
proof (induction "[c]" xs rule: join.induct)
  case (2 x)
  then show ?case by (subst split_on.simps) (simp add: break_at_char_None)
next
  case (3 x y ys)
  then show ?case by (subst split_on.simps) (simp add: break_at_char)
qed simp

lemma split_on_pair: "c \<notin> set a \<Longrightarrow> c \<notin> set b \<Longrightarrow> split_on [c] (a @ c # b) = [a, b]"
  using split_on_join[of "[a, b]" c] by simp

lemma set_join: "set (join sep xs) \<subseteq> set sep \<union> \<Union> (set ` set xs)"
  by (induction sep xs rule: join.induct) auto

section \<open>Exceptions\<close>

text \<open>Sequencing of code that may throw, and a loop over a list of such steps.\<close>

fun bindE :: "js_error + 'a \<Rightarrow> ('a \<Rightarrow> js_error + 'b) \<Rightarrow> js_error + 'b" where
  "bindE (Inl e) f = Inl e"
| "bindE (Inr x) f = f x"

fun foldE :: "('s \<Rightarrow> 'a \<Rightarrow> js_error + 's) \<Rightarrow> 's \<Rightarrow> 'a list \<Rightarrow> js_error + 's" where
  "foldE f s [] = Inr s"
| "foldE f s (x # xs) = bindE (f s x) (\<lambda>s'. foldE f s' xs)"

lemma bindE_Inr_iff: "bindE r f = Inr y \<longleftrightarrow> (\<exists>x. r = Inr x \<and> f x = Inr y)"
  by (cases r) auto

lemma foldE_inv:
  "(\<And>s x s'. I s \<Longrightarrow> x \<in> set xs \<Longrightarrow> f s x = Inr s' \<Longrightarrow> I s') \<Longrightarrow> I s \<Longrightarrow> foldE f s xs = Inr s' \<Longrightarrow> I s'"
proof (induction xs arbitrary: s)
  case Nil
  from Nil(2,3) show ?case by simp
next
  case (Cons x xs)
  from Cons(4) obtain t where t: "f s x = Inr t" "foldE f t xs = Inr s'" by (auto simp: bindE_Inr_iff)
  have it: "I t" by (rule Cons(2)[OF Cons(3) _ t(1)]) simp
  show ?case
  proof (rule Cons.IH[OF _ it t(2)])
    fix u y u' assume "I u" "y \<in> set xs" "f u y = Inr u'"
    then show "I u'" by (intro Cons(2)[of u y u']) simp_all
  qed
qed

section \<open>Numbers and strings\<close>

fun show_nat :: "nat \<Rightarrow> string" where
  "show_nat n =
     (if n < 10 then [char_of (48 + n)] else show_nat (n div 10) @ [char_of (48 + n mod 10)])"

declare show_nat.simps [simp del]

definition show_int :: "int \<Rightarrow> string" where
  "show_int i = (if i < 0 then ''-'' @ show_nat (nat (- i)) else show_nat (nat i))"

text \<open>\<open>parseInt(s)\<close> in radix 10, \<open>None\<close> for NaN: leading white space and a sign are skipped, then
  the longest run of digits counts. (The hexadecimal prefix does not occur in the scripts' data.)\<close>

fun read_digits :: "nat \<Rightarrow> string \<Rightarrow> nat" where
  "read_digits acc [] = acc"
| "read_digits acc (c # cs) =
     (case digit_of c of None \<Rightarrow> acc | Some d \<Rightarrow> read_digits (10 * acc + d) cs)"

definition parse_nat :: "string \<Rightarrow> int option" where
  "parse_nat s = (case s of [] \<Rightarrow> None | c # _ \<Rightarrow>
     if is_digit c then Some (int (read_digits 0 s)) else None)"

definition parseInt :: "string \<Rightarrow> int option" where
  "parseInt s =
     (let t = dropWhile is_ws s in
      case t of
        [] \<Rightarrow> None
      | c # cs \<Rightarrow>
          if c = CHR ''-'' then map_option uminus (parse_nat cs)
          else if c = CHR ''+'' then parse_nat cs
          else parse_nat t)"

lemma digit_of_char_of [simp]: "d < 10 \<Longrightarrow> digit_of (char_of (48 + d)) = Some d"
  by (simp add: digit_of_def of_char_of)

lemma read_digits_append:
  "\<forall>c \<in> set xs. is_digit c \<Longrightarrow> read_digits acc (xs @ ys) = read_digits (read_digits acc xs) ys"
  by (induction xs arbitrary: acc) (auto simp: is_digit_def)

lemma show_nat_digits: "\<forall>c \<in> set (show_nat n). is_digit c"
proof (induction n rule: show_nat.induct)
  case (1 n)
  then show ?case by (subst show_nat.simps) (auto simp: is_digit_def)
qed

lemma show_nat_nonempty [simp]: "show_nat n \<noteq> []"
  by (subst show_nat.simps) simp

lemma read_show_nat [simp]: "read_digits 0 (show_nat n) = n"
proof (induction n rule: show_nat.induct)
  case (1 n)
  show ?case
  proof (cases "n < 10")
    case False
    with 1 have "read_digits 0 (show_nat (n div 10) @ [char_of (48 + n mod 10)])
        = 10 * (n div 10) + n mod 10"
      by (simp add: read_digits_append show_nat_digits)
    then show ?thesis using False by (subst show_nat.simps) simp
  qed (subst show_nat.simps, simp)
qed

lemma digit_not_ws_sign: "is_digit c \<Longrightarrow> \<not> is_ws c \<and> c \<noteq> CHR ''-'' \<and> c \<noteq> CHR ''+''"
  by (auto simp: is_digit_def digit_of_def is_ws_def Let_def split: if_splits)

lemma parse_nat_show [simp]: "parse_nat (show_nat n) = Some (int n)"
proof -
  obtain c cs where s: "show_nat n = c # cs" by (cases "show_nat n") auto
  then have "is_digit c" using show_nat_digits[of n] by simp
  moreover have "read_digits 0 (c # cs) = n" using s read_show_nat[of n] by simp
  ultimately show ?thesis by (simp add: parse_nat_def s)
qed

lemma parseInt_show_nat [simp]: "parseInt (show_nat n) = Some (int n)"
proof -
  obtain c cs where s: "show_nat n = c # cs" by (cases "show_nat n") auto
  have "is_digit c" using show_nat_digits[of n] s by simp
  then have "parseInt (c # cs) = parse_nat (c # cs)"
    using digit_not_ws_sign[of c] by (simp add: parseInt_def Let_def)
  then show ?thesis using parse_nat_show[of n] by (simp add: s)
qed

lemma not_ws_minus [simp]: "\<not> is_ws CHR ''-''"
  by (simp add: is_ws_def)

theorem parseInt_show_int [simp]: "parseInt (show_int i) = Some i"
  by (auto simp: show_int_def) (simp add: parseInt_def)

text \<open>String conversion, as in \<open>v + ''\<close>.\<close>

fun to_str :: "jsval \<Rightarrow> string" where
  "to_str JUndef = ''undefined''"
| "to_str JNull = ''null''"
| "to_str (JBool b) = (if b then ''true'' else ''false'')"
| "to_str (JNum n) = show_int n"
| "to_str JNaN = ''NaN''"
| "to_str (JStr s) = s"
| "to_str (JArr vs) =
     join '','' (map (\<lambda>v. case v of JUndef \<Rightarrow> [] | JNull \<Rightarrow> [] | _ \<Rightarrow> to_str v) vs)"
| "to_str (JObj _) = ''[object Object]''"

text \<open>\<open>parseInt(v)\<close> for any value, NaN included.\<close>

definition parseInt_val :: "jsval \<Rightarrow> jsval" where
  "parseInt_val v = (case parseInt (to_str v) of None \<Rightarrow> JNaN | Some n \<Rightarrow> JNum n)"

section \<open>URI components\<close>

definition hex_digit :: "nat \<Rightarrow> char" where
  "hex_digit n = (if n < 10 then char_of (48 + n) else char_of (55 + n))"

definition hex_value :: "char \<Rightarrow> nat option" where
  "hex_value c = (let n = (of_char c :: nat) in
     if 48 \<le> n \<and> n \<le> 57 then Some (n - 48)
     else if 65 \<le> n \<and> n \<le> 70 then Some (n - 55)
     else if 97 \<le> n \<and> n \<le> 102 then Some (n - 87)
     else None)"

definition pct :: "nat \<Rightarrow> string" where
  "pct b = [CHR ''%'', hex_digit (b div 16), hex_digit (b mod 16)]"

definition unreserved :: "char \<Rightarrow> bool" where
  "unreserved c = (let n = (of_char c :: nat) in
     (48 \<le> n \<and> n \<le> 57) \<or> (65 \<le> n \<and> n \<le> 90) \<or> (97 \<le> n \<and> n \<le> 122)
     \<or> c \<in> set ''-_.!~*()'' \<or> n = 39)"

text \<open>One code unit: kept, or the percent escapes of its UTF-8 bytes.\<close>

definition encode_unit :: "char \<Rightarrow> string" where
  "encode_unit c = (let n = (of_char c :: nat) in
     if unreserved c then [c]
     else if n < 128 then pct n
     else pct (192 + n div 64) @ pct (128 + n mod 64))"

definition encodeURIComponent :: "string \<Rightarrow> string" where
  "encodeURIComponent s = concat (map encode_unit s)"

definition hex_byte :: "char \<Rightarrow> char \<Rightarrow> nat option" where
  "hex_byte h l = (case (hex_value h, hex_value l) of
     (Some a, Some b) \<Rightarrow> Some (16 * a + b) | _ \<Rightarrow> None)"

fun decodeURIComponent :: "string \<Rightarrow> js_error + string" where
  "decodeURIComponent [] = Inr []"
| "decodeURIComponent (c # cs) =
     (if c \<noteq> CHR ''%'' then map_sum id ((#) c) (decodeURIComponent cs)
      else case cs of
        h # l # r \<Rightarrow>
          (case hex_byte h l of
             None \<Rightarrow> Inl URIError
           | Some b \<Rightarrow>
               if b < 128 then map_sum id ((#) (char_of b)) (decodeURIComponent r)
               else if b < 194 \<or> 244 < b then Inl URIError
               else if 195 < b then Inl Beyond_Latin1
               else (case r of
                 p # h' # l' # r' \<Rightarrow>
                   (case (p = CHR ''%'', hex_byte h' l') of
                      (True, Some b') \<Rightarrow>
                        if 128 \<le> b' \<and> b' < 192
                        then map_sum id ((#) (char_of (64 * (b - 192) + (b' - 128)))) (decodeURIComponent r')
                        else Inl URIError
                    | _ \<Rightarrow> Inl URIError)
               | _ \<Rightarrow> Inl URIError))
      | _ \<Rightarrow> Inl URIError)"

lemma hex_value_digit [simp]: "n < 16 \<Longrightarrow> hex_value (hex_digit n) = Some n"
  by (auto simp: hex_value_def hex_digit_def of_char_of Let_def)

lemma hex_byte_pct [simp]: "b < 256 \<Longrightarrow> hex_byte (hex_digit (b div 16)) (hex_digit (b mod 16)) = Some b"
  by (simp add: hex_byte_def)

lemma pct_not_unreserved: "unreserved c \<Longrightarrow> c \<noteq> CHR ''%''"
  by (auto simp: unreserved_def Let_def)

lemma of_char_nat_bound: "(of_char c :: nat) < 256"
  by (rule nat_of_char_less_256)

lemma decode_encode_unit:
  "decodeURIComponent (encode_unit c @ r) = map_sum id ((#) c) (decodeURIComponent r)"
proof -
  let ?n = "of_char c :: nat"
  have n: "?n < 256" by (rule of_char_nat_bound)
  consider (keep) "unreserved c" | (one) "\<not> unreserved c" "?n < 128" | (two) "\<not> unreserved c" "128 \<le> ?n"
    by linarith
  then show ?thesis
  proof cases
    case keep
    then show ?thesis using pct_not_unreserved by (simp add: encode_unit_def)
  next
    case one
    then show ?thesis by (simp add: encode_unit_def pct_def Let_def)
  next
    case two
    let ?b = "192 + ?n div 64" and ?b' = "128 + ?n mod 64"
    have "194 \<le> ?b" "?b \<le> 195" "?b' < 192" using two n by linarith+
    moreover have "64 * (?b - 192) + (?b' - 128) = ?n" by simp
    ultimately show ?thesis
      using two by (simp add: encode_unit_def pct_def Let_def)
  qed
qed

theorem decode_encode [simp]: "decodeURIComponent (encodeURIComponent s) = Inr s"
  by (induction s) (simp_all add: encodeURIComponent_def decode_encode_unit)

text \<open>What an encoded component can contain: never a delimiter of a query string.\<close>

lemma hex_digit_range: "n < 16 \<Longrightarrow> hex_digit n \<in> set ''0123456789ABCDEF''"
proof -
  assume "n < 16"
  moreover have "\<forall>n \<in> set [0..<16]. hex_digit n \<in> set ''0123456789ABCDEF''" by code_simp
  ultimately show ?thesis by simp
qed

definition query_safe :: "char \<Rightarrow> bool" where
  "query_safe c = (c \<notin> set ''&=?#$;'' \<and> \<not> is_line_end c \<and> \<not> is_ws c)"

lemma hex_digit_safe: "n < 16 \<Longrightarrow> query_safe (hex_digit n)"
  using hex_digit_range[of n] by (auto simp: query_safe_def is_line_end_def is_ws_def)

lemma encode_unit_safe: "\<forall>d \<in> set (encode_unit c). query_safe d"
proof -
  have n: "(of_char c :: nat) < 256" by (rule of_char_nat_bound)
  have kept: "unreserved c \<Longrightarrow> query_safe c"
    by (auto simp: unreserved_def query_safe_def is_line_end_def is_ws_def Let_def)
  have p: "b < 256 \<Longrightarrow> \<forall>d \<in> set (pct b). query_safe d" for b
    using hex_digit_safe[of "b div 16"] hex_digit_safe[of "b mod 16"]
    by (simp add: pct_def) (simp add: query_safe_def is_line_end_def is_ws_def)
  have "192 + (of_char c :: nat) div 64 < 256" "128 + (of_char c :: nat) mod 64 < 256"
    using n by linarith+
  from p[OF this(1)] p[OF this(2)] show ?thesis
    using kept p[OF n] by (auto simp: encode_unit_def Let_def)
qed

lemma encodeURIComponent_safe: "\<forall>d \<in> set (encodeURIComponent s). query_safe d"
  using encode_unit_safe by (auto simp: encodeURIComponent_def)

section \<open>JSON\<close>

definition json_char :: "char \<Rightarrow> string" where
  "json_char c = (let n = (of_char c :: nat) in
     if n = 34 then [CHR 0x5C, CHR 0x22]
     else if n = 92 then [CHR 0x5C, CHR 0x5C]
     else if n = 8 then [CHR 0x5C, CHR ''b'']
     else if n = 9 then [CHR 0x5C, CHR ''t'']
     else if n = 10 then [CHR 0x5C, CHR ''n'']
     else if n = 12 then [CHR 0x5C, CHR ''f'']
     else if n = 13 then [CHR 0x5C, CHR ''r'']
     else if n < 32 then [CHR 0x5C, CHR ''u'', CHR ''0'', CHR ''0'',
       (if n < 16 then CHR ''0'' else CHR ''1''),
       (let d = n mod 16 in if d < 10 then char_of (48 + d) else char_of (87 + d))]
     else [c])"

definition json_str :: "string \<Rightarrow> string" where
  "json_str s = CHR 0x22 # concat (map json_char s) @ [CHR 0x22]"

text \<open>\<open>JSON.stringify\<close>: undefined members are left out of objects and become null in arrays.\<close>

fun stringify :: "jsval \<Rightarrow> string" where
  "stringify JUndef = ''null''"
| "stringify JNull = ''null''"
| "stringify (JBool b) = (if b then ''true'' else ''false'')"
| "stringify (JNum n) = show_int n"
| "stringify JNaN = ''null''"
| "stringify (JStr s) = json_str s"
| "stringify (JArr vs) = ''['' @ join '','' (map stringify vs) @ '']''"
| "stringify (JObj ps) =
     ''{'' @ join '','' (map (\<lambda>(k, v). json_str k @ '':'' @ stringify v) (filter (\<lambda>(_, v). v \<noteq> JUndef) ps)) @ ''}''"

declare is_ws_def [js_eval] is_line_end_def [js_eval] digit_of_def [js_eval] is_digit_def [js_eval]
  starts_with_def [js_eval] contains_def [js_eval] replace_str_def [js_eval] trim_def [js_eval]
  split_on.simps [js_eval] split_ws.simps [js_eval] parse_nat_def [js_eval] parseInt_def [js_eval]
  obj_del_def [js_eval] obj_has_def [js_eval]

end
