(* ===== verification/Tree_Table.thy ===== *)
theory Tree_Table
  imports Forest_Rows JS_Runtime
begin

text \<open>
  The expandable table of \<open>bridge/static/bridge/js/treetable.js\<close> (used by the jobs tree) and the
  row colouring \<open>update_colors\<close> of \<open>bridge.js\<close>: initialisation of indents and icons, and the
  click handler of an expander with its two loops over the following rows.
\<close>

section \<open>Rows\<close>

text \<open>
  \<open>row_icon\<close> is the class attribute of the first icon of the tree cell, \<open>row_margin\<close> the left
  margin of the \<open>.tabletree\<close> span once the row has one.
\<close>

record row =
  row_class :: string
  row_hidden :: bool
  row_icon :: string
  row_icon_style :: string
  row_margin :: "int option"
  row_bg :: string

record table =
  t_alternate :: bool
  t_rows :: "row list"

text \<open>\<open>$(el).removeClass(c)\<close> on a class attribute kept as a string.\<close>

definition class_words :: "string \<Rightarrow> string list" where
  "class_words s = filter (\<lambda>w. w \<noteq> []) (split_ws s)"

definition class_remove :: "string \<Rightarrow> string \<Rightarrow> string" where
  "class_remove c s = join '' '' (filter (\<lambda>w. w \<noteq> c) (class_words s))"

fun get_ids_item :: "string option \<times> string option \<Rightarrow> string \<Rightarrow> string option \<times> string option" where
  "get_ids_item (tt_id, tt_par_id) item =
     (if starts_with item ''treegrid-parent-''
      then (tt_id, Some (replace_str ''treegrid-parent-'' [] item))
      else if starts_with item ''treegrid-''
      then (Some (replace_str ''treegrid-'' [] item), tt_par_id)
      else (tt_id, tt_par_id))"

definition get_ids :: "string \<Rightarrow> string option \<times> string option" where
  "get_ids tr_class =
     (if tr_class = [] then (None, None)
      else foldl get_ids_item (None, None) (split_ws tr_class))"

text \<open>A null or empty identifier is falsy.\<close>

definition truthy_str :: "string option \<Rightarrow> bool" where
  "truthy_str x = (case x of None \<Rightarrow> False | Some s \<Rightarrow> s \<noteq> [])"

abbreviation row_id :: "row \<Rightarrow> string option" where
  "row_id r \<equiv> fst (get_ids (row_class r))"

abbreviation row_parent :: "row \<Rightarrow> string option" where
  "row_parent r \<equiv> snd (get_ids (row_class r))"

text \<open>\<open>tt_par_id && ids.indexOf(tt_par_id) >= 0\<close>\<close>

definition parent_in :: "row \<Rightarrow> string list \<Rightarrow> bool" where
  "parent_in r ids = (truthy_str (row_parent r) \<and> the (row_parent r) \<in> set ids)"

section \<open>Colours\<close>

fun color_rows :: "('r \<Rightarrow> bool) \<Rightarrow> (string \<Rightarrow> 'r \<Rightarrow> 'r) \<Rightarrow> bool \<Rightarrow> 'r list \<Rightarrow> 'r list" where
  "color_rows vis paint is_dark [] = []"
| "color_rows vis paint is_dark (r # rs) =
     (if \<not> vis r then r # color_rows vis paint is_dark rs
      else if is_dark then paint ''#f0fcfe'' r # color_rows vis paint False rs
      else paint ''white'' r # color_rows vis paint True rs)"

abbreviation paint_row :: "string \<Rightarrow> row \<Rightarrow> row" where
  "paint_row c r \<equiv> r\<lparr>row_bg := c\<rparr>"

definition update_colors :: "table \<Rightarrow> table" where
  "update_colors t =
     (if \<not> t_alternate t then t
      else t\<lparr>t_rows := color_rows (\<lambda>r. \<not> row_hidden r) paint_row False (t_rows t)\<rparr>)"

section \<open>The click handler of an expander\<close>

fun collapse_from :: "string list \<Rightarrow> row list \<Rightarrow> row list" where
  "collapse_from prev_ids [] = []"
| "collapse_from prev_ids (next_tr # rest) =
     (if \<not> truthy_str (row_id next_tr) then next_tr # rest
      else if parent_in next_tr prev_ids
      then next_tr\<lparr>row_hidden := True\<rparr> # collapse_from (prev_ids @ [the (row_id next_tr)]) rest
      else next_tr # rest)"

fun expand_from :: "string \<Rightarrow> string list \<Rightarrow> row list \<Rightarrow> row list" where
  "expand_from expanded prev_ids [] = []"
| "expand_from expanded prev_ids (next_tr # rest) =
     (if \<not> truthy_str (row_id next_tr) then next_tr # rest
      else if parent_in next_tr prev_ids
      then next_tr\<lparr>row_hidden := False\<rparr> #
        expand_from expanded
          (if row_icon next_tr = expanded then prev_ids @ [the (row_id next_tr)] else prev_ids) rest
      else next_tr # expand_from expanded prev_ids rest)"

text \<open>The rows after a click on the expander of row \<open>k\<close>, before recolouring.\<close>

definition toggle_rows :: "string \<Rightarrow> string \<Rightarrow> nat \<Rightarrow> row list \<Rightarrow> row list" where
  "toggle_rows expanded collapsed k rs =
     (if k < length rs then
        (let r = rs ! k; tt_id = the (row_id r) in
         if row_icon r = expanded
         then take k rs @ r\<lparr>row_icon := collapsed\<rparr> # collapse_from [tt_id] (drop (Suc k) rs)
         else if row_icon r = collapsed
         then take k rs @ r\<lparr>row_icon := expanded\<rparr> # expand_from expanded [tt_id] (drop (Suc k) rs)
         else rs)
      else rs)"

definition expander_click :: "string \<Rightarrow> string \<Rightarrow> nat \<Rightarrow> table \<Rightarrow> table" where
  "expander_click expanded collapsed k t =
     (if k < length (t_rows t) \<and> row_icon (t_rows t ! k) \<in> {expanded, collapsed}
      then update_colors (t\<lparr>t_rows := toggle_rows expanded collapsed k (t_rows t)\<rparr>)
      else t)"

section \<open>Initialisation\<close>

text \<open>
  The loop over the rows keeps \<open>old_rows\<close>, \<open>expanded_parents\<close> and the previous row with its
  indent; the icon of the previous row is adjusted when the next indent is known.
\<close>

record tree_loop =
  l_done :: "row list"
  l_old_rows :: "string \<Rightarrow> int option"
  l_expanded_parents :: "string list"
  l_prev :: "(nat \<times> int) option"

abbreviation indent :: int where "indent \<equiv> 16"

definition leaf_icon :: "row \<Rightarrow> row" where
  "leaf_icon r = r\<lparr>row_icon_style := ''opacity:0;'', row_icon := class_remove ''link'' (row_icon r)\<rparr>"

definition inner_icon :: "row \<Rightarrow> row" where
  "inner_icon r = r\<lparr>row_icon_style := ''opacity:100%;''\<rparr>"

definition fix_prev :: "(nat \<times> int) option \<Rightarrow> int \<Rightarrow> row list \<Rightarrow> row list" where
  "fix_prev prev curr_indent rs =
     (case prev of
        None \<Rightarrow> rs
      | Some (j, prev_indent) \<Rightarrow>
          if curr_indent \<le> prev_indent then rs[j := leaf_icon (rs ! j)]
          else rs[j := inner_icon (rs ! j)])"

definition init_row :: "string \<Rightarrow> string \<Rightarrow> tree_loop \<Rightarrow> row \<Rightarrow> tree_loop" where
  "init_row expanded collapsed l r =
     (let tt_id = row_id r; tt_par_id = row_parent r in
      if \<not> truthy_str tt_id then l\<lparr>l_done := l_done l @ [r]\<rparr>
      else
        (let shown = ''tr-show'' \<in> set (class_words (row_class r));
             fresh = (row_margin r = None);
             curr_indent =
               (case row_margin r of
                  Some m \<Rightarrow> m
                | None \<Rightarrow>
                    if truthy_str tt_par_id
                    then (case l_old_rows l (the tt_par_id) of None \<Rightarrow> 0 | Some m \<Rightarrow> m + indent)
                    else 0);
             parents = (if fresh \<and> shown then l_expanded_parents l @ [the tt_id] else l_expanded_parents l);
             r' =
               (if \<not> fresh then r
                else r\<lparr>row_class := (if shown then class_remove ''tr-show'' (row_class r) else row_class r),
                       row_icon := (if shown then expanded else collapsed),
                       row_icon_style := ''cursor: pointer'',
                       row_margin := Some curr_indent,
                       row_hidden := row_hidden r \<or> (truthy_str tt_par_id \<and> the tt_par_id \<notin> set parents)\<rparr>)
         in \<lparr>l_done = fix_prev (l_prev l) curr_indent (l_done l) @ [r'],
             l_old_rows = (l_old_rows l)(the tt_id \<mapsto> curr_indent),
             l_expanded_parents = parents,
             l_prev = Some (length (l_done l), curr_indent)\<rparr>))"

definition init_loop :: "string \<Rightarrow> string \<Rightarrow> row list \<Rightarrow> tree_loop" where
  "init_loop expanded collapsed rs =
     foldl (init_row expanded collapsed)
       \<lparr>l_done = [], l_old_rows = (\<lambda>_. None), l_expanded_parents = [], l_prev = None\<rparr> rs"

definition inittree :: "string \<Rightarrow> string \<Rightarrow> row list \<Rightarrow> row list" where
  "inittree expanded collapsed rs =
     (let l = init_loop expanded collapsed rs in
      case l_prev l of
        None \<Rightarrow> l_done l
      | Some (j, _) \<Rightarrow> (l_done l)[j := leaf_icon (l_done l ! j)])"

section \<open>The rows as a forest\<close>

definition row_ids :: "row \<Rightarrow> node_ids" where
  "row_ids r = (the (row_id r), if truthy_str (row_parent r) then row_parent r else None)"

definition rows_named :: "row list \<Rightarrow> bool" where
  "rows_named rs = (\<forall>r \<in> set rs. truthy_str (row_id r))"

lemma row_ids_update [simp]:
  "row_ids (r\<lparr>row_hidden := b\<rparr>) = row_ids r" "row_ids (r\<lparr>row_icon := c\<rparr>) = row_ids r"
  "row_ids (r\<lparr>row_bg := c\<rparr>) = row_ids r"
  by (simp_all add: row_ids_def)

lemma fst_row_ids [simp]: "fst (row_ids r) = the (row_id r)"
  by (simp add: row_ids_def)

lemma parent_in_iff:
  "parent_in r P \<longleftrightarrow> (case snd (row_ids r) of None \<Rightarrow> False | Some q \<Rightarrow> q \<in> set P)"
  by (auto simp: parent_in_def row_ids_def truthy_str_def split: option.splits)

lemma collapse_from_ids: "map row_ids (collapse_from P rs) = map row_ids rs"
  by (induction P rs rule: collapse_from.induct) auto

lemma collapse_from_icons: "map row_icon (collapse_from P rs) = map row_icon rs"
  by (induction P rs rule: collapse_from.induct) auto

lemma collapse_from_classes: "map row_class (collapse_from P rs) = map row_class rs"
  by (induction P rs rule: collapse_from.induct) auto

lemma expand_from_ids: "map row_ids (expand_from e P rs) = map row_ids rs"
  by (induction e P rs rule: expand_from.induct) auto

lemma expand_from_icons: "map row_icon (expand_from e P rs) = map row_icon rs"
  by (induction e P rs rule: expand_from.induct) auto

lemma expand_from_classes: "map row_class (expand_from e P rs) = map row_class rs"
  by (induction e P rs rule: expand_from.induct) auto

lemma rows_named_cong: "map row_class rs = map row_class rs' \<Longrightarrow> rows_named rs = rows_named rs'"
  unfolding rows_named_def by (metis (mono_tags, lifting) in_set_conv_nth length_map nth_map)

text \<open>What a scan knows of \<open>prev_ids\<close> on the current path, and how a row changes it.\<close>

lemma dropWhile_suffix_distinct:
  assumes "distinct path" and "y \<in> set (dropWhile (\<lambda>z. z \<noteq> q) path)"
  shows "dropWhile (\<lambda>z. z \<noteq> y) (dropWhile (\<lambda>z. z \<noteq> q) path) = dropWhile (\<lambda>z. z \<noteq> y) path"
  using assms
proof (induction path)
  case (Cons z path)
  then show ?case by (auto dest: set_dropWhileD)
qed simp

definition tracks :: "(string list \<Rightarrow> bool) \<Rightarrow> string list \<Rightarrow> string list \<Rightarrow> bool" where
  "tracks Q P path = (\<forall>q \<in> set path. q \<in> set P \<longleftrightarrow> Q (dropWhile (\<lambda>z. z \<noteq> q) path))"

lemma tracks_step:
  assumes "tracks Q P path" "distinct path" "i \<notin> set path" "i \<notin> set P"
    and "P' = (if b then P @ [i] else P)"
    and "b = Q (i # anc_step path p)"
  shows "tracks Q P' (i # anc_step path p)"
proof -
  have "q \<in> set P' \<longleftrightarrow> Q (dropWhile (\<lambda>z. z \<noteq> q) (i # anc_step path p))"
    if q: "q \<in> set (i # anc_step path p)" for q
  proof (cases "q = i")
    case False
    then obtain r where p: "p = Some r" and q': "q \<in> set (dropWhile (\<lambda>z. z \<noteq> r) path)"
      using q by (cases p) auto
    have "q \<in> set path" using q' by (blast dest: set_dropWhileD)
    then show ?thesis
      using False assms p q' dropWhile_suffix_distinct[OF assms(2) q']
      by (auto simp: tracks_def)
  qed (use assms in auto)
  then show ?thesis by (simp add: tracks_def)
qed

lemma parent_in_tracks:
  assumes "tracks Q P path" "\<not> Q []"
    and "case snd (row_ids r) of None \<Rightarrow> True | Some q \<Rightarrow> q \<in> set path"
  shows "parent_in r P \<longleftrightarrow> Q (anc_step path (snd (row_ids r)))"
  using assms by (auto simp: parent_in_iff tracks_def split: option.splits)

section \<open>The two loops\<close>

definition scan_ok :: "string list \<Rightarrow> string list \<Rightarrow> string \<Rightarrow> row list \<Rightarrow> bool" where
  "scan_ok P path x rs =
     (rows_named rs \<and> preorder path (map row_ids rs) \<and> distinct path
      \<and> distinct (map (\<lambda>r. the (row_id r)) rs)
      \<and> (\<forall>r \<in> set rs. the (row_id r) \<notin> set path \<and> the (row_id r) \<notin> set P \<and> the (row_id r) \<noteq> x))"

lemma scan_step:
  assumes "scan_ok P path x (r # rs)" and rid: "row_ids r = (i, p)"
  shows "scan_ok (P @ [i]) (i # anc_step path p) x rs" and "scan_ok P (i # anc_step path p) x rs"
    and "case p of None \<Rightarrow> True | Some q \<Rightarrow> q \<in> set path"
    and "i \<notin> set path" "i \<notin> set P" "i \<noteq> x" "truthy_str (row_id r)" "the (row_id r) = i"
proof -
  have i: "the (row_id r) = i" using rid by (simp add: row_ids_def)
  have sub: "set (anc_step path p) \<subseteq> set path" by (rule set_anc_step)
  have "i \<notin> set path" "distinct path" using assms i by (simp_all add: scan_ok_def)
  then have "distinct (i # anc_step path p)" using sub by (cases p) auto
  then show "scan_ok (P @ [i]) (i # anc_step path p) x rs" "scan_ok P (i # anc_step path p) x rs"
    using assms sub i unfolding scan_ok_def rows_named_def by (auto simp: image_iff)
qed (use assms in \<open>auto simp: scan_ok_def rows_named_def row_ids_def\<close>)

text \<open>Collapsing hides exactly the descendants of \<open>x\<close>.\<close>

lemma collapse_from_spec:
  assumes "scan_ok P path x rs" "tracks (\<lambda>a. x \<in> set a) P path"
  shows "collapse_from P rs =
    map2 (\<lambda>r a. if x \<in> set a then r\<lparr>row_hidden := True\<rparr> else r) rs (anc_paths path (map row_ids rs))"
  using assms
proof (induction rs arbitrary: P path)
  case (Cons r rs)
  obtain i p where rid: "row_ids r = (i, p)" by force
  note st = scan_step[OF Cons.prems(1) rid]
  let ?a = "anc_step path p"
  have par: "parent_in r P \<longleftrightarrow> x \<in> set ?a"
    using parent_in_tracks[OF Cons.prems(2), of r] st(3) by (simp add: rid)
  have dist: "distinct path" using Cons.prems(1) by (simp add: scan_ok_def)
  show ?case
  proof (cases "x \<in> set ?a")
    case True
    have "tracks (\<lambda>a. x \<in> set a) (P @ [i]) (i # ?a)"
      by (rule tracks_step[OF Cons.prems(2) dist st(4,5), where b = True]) (use True in auto)
    from Cons.IH[OF st(1) this] show ?thesis using True par st(7,8) by (simp add: rid)
  next
    case False
    have "\<forall>a \<in> set (anc_paths (i # ?a) (map row_ids rs)). x \<notin> set a"
      using False st(6) Cons.prems(1) by (intro anc_paths_avoid) (auto simp: scan_ok_def)
    then have "map2 (\<lambda>r a. if x \<in> set a then r\<lparr>row_hidden := True\<rparr> else r) rs
        (anc_paths (i # ?a) (map row_ids rs)) = rs"
      by (intro map2_cond_id) auto
    then show ?thesis using False par st(7) by (simp add: rid)
  qed
qed simp

text \<open>Expanding shows exactly the descendants of \<open>x\<close> all of whose ancestors are open.\<close>

lemma expand_from_spec:
  assumes "scan_ok P path x rs" "tracks (\<lambda>a. x \<in> set a \<and> set a \<subseteq> opn) P path"
    and "\<forall>r \<in> set rs. the (row_id r) \<in> opn \<longleftrightarrow> row_icon r = e"
  shows "expand_from e P rs =
    map2 (\<lambda>r a. if x \<in> set a \<and> set a \<subseteq> opn then r\<lparr>row_hidden := False\<rparr> else r)
      rs (anc_paths path (map row_ids rs))"
  using assms
proof (induction rs arbitrary: P path)
  case (Cons r rs)
  obtain i p where rid: "row_ids r = (i, p)" by force
  note st = scan_step[OF Cons.prems(1) rid]
  let ?a = "anc_step path p" and ?Q = "\<lambda>a. x \<in> set a \<and> set a \<subseteq> opn"
  have par: "parent_in r P \<longleftrightarrow> ?Q ?a"
    using parent_in_tracks[OF Cons.prems(2), of r] st(3) by (simp add: rid)
  have dist: "distinct path" using Cons.prems(1) by (simp add: scan_ok_def)
  let ?b = "?Q ?a \<and> row_icon r = e"
  let ?P = "if ?b then P @ [i] else P"
  have "?b = ?Q (i # ?a)" using st(6,8) Cons.prems(3) by auto
  then have tr: "tracks ?Q ?P (i # ?a)"
    by (rule tracks_step[OF Cons.prems(2) dist st(4,5) refl])
  have "scan_ok ?P (i # ?a) x rs" using st(1,2) by simp
  from Cons.IH[OF this tr] Cons.prems(3)
  have "expand_from e ?P rs =
      map2 (\<lambda>r a. if ?Q a then r\<lparr>row_hidden := False\<rparr> else r) rs (anc_paths (i # ?a) (map row_ids rs))"
    by simp
  then show ?case using par st(7,8) by (cases "?Q ?a") (auto simp: rid)
qed simp

section \<open>Clicks keep the table consistent\<close>

abbreviation is_open :: "string \<Rightarrow> row \<Rightarrow> bool" where
  "is_open e r \<equiv> row_icon r = e"

definition open_ids :: "string \<Rightarrow> row list \<Rightarrow> string set" where
  "open_ids e rs = (\<lambda>r. fst (row_ids r)) ` set (filter (is_open e) rs)"

lemma open_ids_Collect: "open_ids e rs = {fst (row_ids r) | r. r \<in> set rs \<and> is_open e r}"
  by (auto simp: open_ids_def)

lemma open_ids_append [simp]: "open_ids e (xs @ ys) = open_ids e xs \<union> open_ids e ys"
  by (auto simp: open_ids_def)

lemma open_ids_Cons [simp]:
  "open_ids e (r # rs) = (if is_open e r then insert (the (row_id r)) (open_ids e rs) else open_ids e rs)"
  by (auto simp: open_ids_def)

lemma open_ids_cong:
  assumes "map row_ids rs = map row_ids rs'" "map row_icon rs = map row_icon rs'"
  shows "open_ids e rs = open_ids e rs'"
proof -
  have len: "length rs = length rs'" using assms(1) by (rule map_eq_imp_length_eq)
  from len assms show ?thesis
  proof (induction rs rs' rule: list_induct2)
    case (Cons x xs y ys)
    then have "fst (row_ids x) = fst (row_ids y)" by (simp del: fst_row_ids)
    then have "the (row_id x) = the (row_id y)" unfolding fst_row_ids .
    with Cons show ?case by simp
  qed simp
qed

lemma shown_ok_map2:
  assumes "shown_ok hid opn rs as"
    and "\<And>r a. r \<in> set rs \<Longrightarrow> a \<in> set as \<Longrightarrow> hid r = (\<not> set a \<subseteq> opn) \<Longrightarrow> hid (f r a) = (\<not> set a \<subseteq> opn')"
  shows "shown_ok hid opn' (map2 f rs as) as"
proof -
  have len: "length rs = length as" and ok: "\<forall>j < length as. hid (rs ! j) = (\<not> set (as ! j) \<subseteq> opn)"
    using assms(1) by (simp_all add: shown_ok_def list_all2_conv_all_nth)
  have "hid (f (rs ! j) (as ! j)) = (\<not> set (as ! j) \<subseteq> opn')" if "j < length as" for j
    by (rule assms(2)) (use that len ok in simp_all)
  then show ?thesis by (simp add: shown_ok_def list_all2_conv_all_nth len)
qed

lemma tracks_self:
  assumes d: "distinct (i # a)" and self: "Q (i # a)" and avoid: "\<And>b. i \<notin> set b \<Longrightarrow> \<not> Q b"
  shows "tracks Q [i] (i # a)"
  unfolding tracks_def
proof
  fix q assume q: "q \<in> set (i # a)"
  show "q \<in> set [i] \<longleftrightarrow> Q (dropWhile (\<lambda>z. z \<noteq> q) (i # a))"
  proof (cases "q = i")
    case False
    have "i \<notin> set (dropWhile (\<lambda>z. z \<noteq> q) a)" using d by (auto dest: set_dropWhileD)
    then have "\<not> Q (dropWhile (\<lambda>z. z \<noteq> q) a)" by (rule avoid)
    then show ?thesis using False by simp
  qed (simp add: self)
qed

lemma open_ids_subset: "open_ids e rs \<subseteq> (\<lambda>r. the (row_id r)) ` set rs"
  by (auto simp: open_ids_def)

text \<open>A table cut at row \<open>r\<close>: \<open>a\<close> are its ancestors, \<open>A\<close> those of the rows before it.\<close>

definition cut_at :: "string \<Rightarrow> row list \<Rightarrow> row \<Rightarrow> row list \<Rightarrow> string list list \<Rightarrow> string list \<Rightarrow> bool" where
  "cut_at e xs r ys A a = (let i = the (row_id r) in
     scan_ok [i] (i # a) i ys \<and> length A = length xs \<and> distinct (i # a) \<and> (\<forall>b \<in> set A. i \<notin> set b)
     \<and> i \<notin> open_ids e xs \<and> i \<notin> open_ids e ys \<and> (\<forall>y \<in> set ys. the (row_id y) \<notin> open_ids e xs))"

lemma forest_cut:
  assumes "rows_named (xs @ r # ys)" "forest (map row_ids (xs @ r # ys))"
  obtains A a where "cut_at e xs r ys A a"
    "anc_paths [] (map row_ids (xs @ r # ys)) = A @ a # anc_paths (the (row_id r) # a) (map row_ids ys)"
proof -
  obtain i p where rid: "row_ids r = (i, p)" by force
  then have i: "the (row_id r) = i" by (simp add: row_ids_def)
  have "forest (map row_ids xs @ (i, p) # map row_ids ys)" using assms(2) by (simp add: rid)
  then obtain A a where
      A: "anc_paths [] (map row_ids xs @ (i, p) # map row_ids ys) = A @ a # anc_paths (i # a) (map row_ids ys)"
      "length A = length (map row_ids xs)" "preorder (i # a) (map row_ids ys)" "distinct (i # a)"
      "set a \<subseteq> fst ` set (map row_ids xs)" "\<forall>b \<in> set A. set b \<subseteq> fst ` set (map row_ids xs)"
      "i \<notin> fst ` set (map row_ids xs)"
      "\<forall>y \<in> set (map row_ids ys). fst y \<notin> insert i (fst ` set (map row_ids xs))"
      "distinct (map fst (map row_ids ys))"
    by (rule forest_split)
  have ys_i: "the (row_id y) \<noteq> i" "the (row_id y) \<notin> set a" "the (row_id y) \<notin> open_ids e xs"
    if "y \<in> set ys" for y
    using A(5,8) that open_ids_subset[of e xs] by (auto simp: image_image)
  have "scan_ok [i] (i # a) i ys"
    using assms(1) A(3,4,9) ys_i by (auto simp: scan_ok_def rows_named_def comp_def)
  moreover have "i \<notin> open_ids e xs"
    using A(7) open_ids_subset[of e xs] by (auto simp: image_image)
  moreover have "i \<notin> open_ids e ys"
    using ys_i(1) open_ids_subset[of e ys] by blast
  moreover have "\<forall>b \<in> set A. i \<notin> set b" using A(6,7) by blast
  ultimately have "cut_at e xs r ys A a" using A(2,4) ys_i by (simp add: cut_at_def i)
  then show thesis using A(1) by (intro that) (simp_all add: rid i)
qed

lemma collapse_consistent:
  assumes cut: "cut_at e xs r ys A a" and i: "the (row_id r) = i" and e: "is_open e r" and ec: "e \<noteq> c"
    and ok: "shown_ok row_hidden (open_ids e (xs @ r # ys)) (xs @ r # ys) (A @ a # anc_paths (i # a) (map row_ids ys))"
  shows "shown_ok row_hidden (open_ids e (xs @ r\<lparr>row_icon := c\<rparr> # collapse_from [i] ys))
    (xs @ r\<lparr>row_icon := c\<rparr> # collapse_from [i] ys) (A @ a # anc_paths (i # a) (map row_ids ys))"
proof -
  let ?B = "anc_paths (i # a) (map row_ids ys)" and ?O = "open_ids e xs \<union> open_ids e ys"
  have c: "scan_ok [i] (i # a) i ys" "length xs = length A" "distinct (i # a)" "\<forall>b \<in> set A. i \<notin> set b" "i \<notin> ?O"
    using cut by (simp_all add: cut_at_def i)
  have coll: "collapse_from [i] ys = map2 (\<lambda>r a. if i \<in> set a then r\<lparr>row_hidden := True\<rparr> else r) ys ?B"
    by (rule collapse_from_spec[OF c(1)]) (rule tracks_self[OF c(3)], auto)
  have O: "open_ids e (xs @ r # ys) = insert i ?O" using e by (simp add: i)
  have O': "open_ids e (xs @ r\<lparr>row_icon := c\<rparr> # collapse_from [i] ys) = ?O"
    using ec open_ids_cong[OF collapse_from_ids collapse_from_icons, of e "[i]" ys] by simp
  have ok': "shown_ok row_hidden (insert i ?O) xs A" "row_hidden r = (\<not> set a \<subseteq> insert i ?O)"
      "shown_ok row_hidden (insert i ?O) ys ?B"
    using ok unfolding O by (simp_all add: shown_ok_append c(2))
  have "shown_ok row_hidden ?O xs A"
    by (rule shown_ok_open_cong[OF ok'(1)]) (use c(4) in auto)
  moreover have "shown_ok row_hidden ?O (collapse_from [i] ys) ?B"
    unfolding coll by (rule shown_ok_map2[OF ok'(3)]) (use c(5) in auto)
  moreover have "row_hidden r = (\<not> set a \<subseteq> ?O)" using ok'(2) c(3) by auto
  ultimately show ?thesis unfolding O' by (simp add: shown_ok_append c(2))
qed

lemma expand_consistent:
  assumes cut: "cut_at e xs r ys A a" and i: "the (row_id r) = i" and e: "\<not> is_open e r"
    and vis: "\<not> row_hidden r"
    and ok: "shown_ok row_hidden (open_ids e (xs @ r # ys)) (xs @ r # ys) (A @ a # anc_paths (i # a) (map row_ids ys))"
  shows "shown_ok row_hidden (open_ids e (xs @ r\<lparr>row_icon := e\<rparr> # expand_from e [i] ys))
    (xs @ r\<lparr>row_icon := e\<rparr> # expand_from e [i] ys) (A @ a # anc_paths (i # a) (map row_ids ys))"
proof -
  let ?B = "anc_paths (i # a) (map row_ids ys)" and ?O = "open_ids e xs \<union> open_ids e ys"
  have c: "scan_ok [i] (i # a) i ys" "length xs = length A" "distinct (i # a)" "\<forall>b \<in> set A. i \<notin> set b" "i \<notin> ?O"
      "\<forall>y \<in> set ys. the (row_id y) \<notin> open_ids e xs"
    using cut by (simp_all add: cut_at_def i)
  have O: "open_ids e (xs @ r # ys) = ?O" using e by simp
  have ok': "shown_ok row_hidden ?O xs A" "set a \<subseteq> ?O" "shown_ok row_hidden ?O ys ?B"
    using ok vis unfolding O by (simp_all add: shown_ok_append c(2))
  have icons: "\<forall>y \<in> set ys. the (row_id y) \<in> insert i ?O \<longleftrightarrow> row_icon y = e"
  proof (intro ballI iffI)
    fix y assume y: "y \<in> set ys" and "the (row_id y) \<in> insert i ?O"
    then have "the (row_id y) \<in> open_ids e ys" using c(1,6) by (auto simp: scan_ok_def)
    then obtain y' where "y' \<in> set ys" "the (row_id y') = the (row_id y)" "row_icon y' = e"
      by (auto simp: open_ids_def)
    moreover have "inj_on (\<lambda>r. the (row_id r)) (set ys)" using c(1) by (simp add: scan_ok_def distinct_map)
    ultimately show "row_icon y = e" using y by (metis inj_onD)
  qed (auto simp: open_ids_def)
  have "tracks (\<lambda>a. i \<in> set a \<and> set a \<subseteq> insert i ?O) [i] (i # a)"
    using ok'(2) by (intro tracks_self[OF c(3)]) auto
  from expand_from_spec[OF c(1) this icons]
  have exp: "expand_from e [i] ys =
      map2 (\<lambda>r a. if i \<in> set a \<and> set a \<subseteq> insert i ?O then r\<lparr>row_hidden := False\<rparr> else r) ys ?B" .
  have O': "open_ids e (xs @ r\<lparr>row_icon := e\<rparr> # expand_from e [i] ys) = insert i ?O"
    using open_ids_cong[OF expand_from_ids expand_from_icons, of e e "[i]" ys] by (simp add: i)
  have "shown_ok row_hidden (insert i ?O) xs A"
    by (rule shown_ok_open_cong[OF ok'(1)]) (use c(4) in auto)
  moreover have "shown_ok row_hidden (insert i ?O) (expand_from e [i] ys) ?B"
    unfolding exp by (rule shown_ok_map2[OF ok'(3)]) (use c(5) in auto)
  moreover have "set a \<subseteq> insert i ?O" using ok'(2) by auto
  ultimately show ?thesis unfolding O' using vis by (simp add: shown_ok_append c(2))
qed

lemma toggle_consistent:
  assumes wf: "rows_named rs" and ec: "e \<noteq> c" and f: "forest (map row_ids rs)" and k: "k < length rs"
    and vis: "\<not> row_hidden (rs ! k)"
    and ok: "shown_ok row_hidden (open_ids e rs) rs (anc_paths [] (map row_ids rs))"
  shows "shown_ok row_hidden (open_ids e (toggle_rows e c k rs)) (toggle_rows e c k rs)
    (anc_paths [] (map row_ids rs))"
proof -
  define xs r ys where "xs = take k rs" and "r = rs ! k" and "ys = drop (Suc k) rs"
  have rs: "rs = xs @ r # ys" using id_take_nth_drop[OF k] by (simp add: xs_def r_def ys_def)
  obtain A a where cut: "cut_at e xs r ys A a"
    and A: "anc_paths [] (map row_ids rs) = A @ a # anc_paths (the (row_id r) # a) (map row_ids ys)"
    using forest_cut[of xs r ys e] wf f unfolding rs by blast
  have tg: "toggle_rows e c k rs =
      (if row_icon r = e then xs @ r\<lparr>row_icon := c\<rparr> # collapse_from [the (row_id r)] ys
       else if row_icon r = c then xs @ r\<lparr>row_icon := e\<rparr> # expand_from e [the (row_id r)] ys
       else rs)"
    using k by (simp add: toggle_rows_def xs_def r_def ys_def Let_def)
  have ok': "shown_ok row_hidden (open_ids e (xs @ r # ys)) (xs @ r # ys)
      (A @ a # anc_paths (the (row_id r) # a) (map row_ids ys))"
    using ok unfolding A by (simp only: rs)
  have vis': "\<not> row_hidden r" using vis by (simp add: r_def)
  consider (opened) "row_icon r = e" | (closed) "row_icon r \<noteq> e" "row_icon r = c"
    | (other) "row_icon r \<noteq> e" "row_icon r \<noteq> c" by blast
  then show ?thesis
  proof cases
    case opened
    have "toggle_rows e c k rs = xs @ r\<lparr>row_icon := c\<rparr> # collapse_from [the (row_id r)] ys"
      using opened by (simp add: tg)
    with collapse_consistent[OF cut refl opened ec ok'] show ?thesis by (simp only: A)
  next
    case closed
    then have "toggle_rows e c k rs = xs @ r\<lparr>row_icon := e\<rparr> # expand_from e [the (row_id r)] ys"
      by (simp add: tg)
    with expand_consistent[OF cut refl closed(1) vis' ok'] show ?thesis by (simp only: A)
  next
    case other
    then have "toggle_rows e c k rs = rs" by (simp add: tg)
    with ok show ?thesis by simp
  qed
qed

lemma toggle_rows_ids: "map row_ids (toggle_rows e c k rs) = map row_ids rs"
proof (cases "k < length rs")
  case True
  have "map row_ids rs = map row_ids (take k rs) @ row_ids (rs ! k) # map row_ids (drop (Suc k) rs)"
    using id_take_nth_drop[OF True] by (metis list.simps(9) map_append)
  then show ?thesis
    using True by (auto simp: toggle_rows_def Let_def collapse_from_ids expand_from_ids)
qed (simp add: toggle_rows_def)

lemma toggle_rows_classes: "map row_class (toggle_rows e c k rs) = map row_class rs"
proof (cases "k < length rs")
  case True
  have "map row_class rs = map row_class (take k rs) @ row_class (rs ! k) # map row_class (drop (Suc k) rs)"
    using id_take_nth_drop[OF True] by (metis list.simps(9) map_append)
  then show ?thesis
    using True by (auto simp: toggle_rows_def Let_def collapse_from_classes expand_from_classes)
qed (simp add: toggle_rows_def)

text \<open>The expander of \<open>treetable.js\<close> is a tree view, for any two distinct icon classes.\<close>

interpretation tt: tree_view row_ids row_hidden "is_open e" "\<lambda>rs. rows_named rs \<and> e \<noteq> c"
    "toggle_rows e c" for e c
proof unfold_locales
  fix rs k
  assume wf: "rows_named rs \<and> e \<noteq> c"
  show "map row_ids (toggle_rows e c k rs) = map row_ids rs" by (rule toggle_rows_ids)
  show "rows_named (toggle_rows e c k rs) \<and> e \<noteq> c"
    using wf rows_named_cong[OF toggle_rows_classes] by simp
  assume "forest (map row_ids rs)" "k < length rs" "\<not> row_hidden (rs ! k)"
    "shown_ok row_hidden {fst (row_ids r) | r. r \<in> set rs \<and> is_open e r} rs (anc_paths [] (map row_ids rs))"
  then show "shown_ok row_hidden {fst (row_ids r) | r. r \<in> set (toggle_rows e c k rs) \<and> is_open e r}
      (toggle_rows e c k rs) (anc_paths [] (map row_ids rs))"
    using toggle_consistent wf unfolding open_ids_Collect by blast
qed

definition table_ok :: "string \<Rightarrow> row list \<Rightarrow> bool" where
  "table_ok e rs = (rows_named rs \<and> forest (map row_ids rs) \<and>
     shown_ok row_hidden (open_ids e rs) rs (anc_paths [] (map row_ids rs)))"

text \<open>The user clicks expanders of visible rows; each click also recolours the table.\<close>

definition user_click :: "string \<Rightarrow> string \<Rightarrow> table \<Rightarrow> nat \<Rightarrow> table" where
  "user_click e c t k =
     (if k < length (t_rows t) \<and> \<not> row_hidden (t_rows t ! k) then expander_click e c k t else t)"

lemma table_ok_consistent: "e \<noteq> c \<Longrightarrow> table_ok e rs = tt.consistent e c rs"
  unfolding tt.consistent_def by (simp add: table_ok_def open_ids_Collect)

lemma color_rows_map:
  assumes "\<And>col r. f (paint col r) = f r"
  shows "map f (color_rows vis paint d rs) = map f rs"
  by (induction rs arbitrary: d) (auto simp: assms)

definition uncolored :: "row \<Rightarrow> row" where
  "uncolored r = r\<lparr>row_bg := []\<rparr>"

lemma uncolored_keeps [simp]:
  "row_ids (uncolored r) = row_ids r" "row_hidden (uncolored r) = row_hidden r"
  "row_icon (uncolored r) = row_icon r" "row_class (uncolored r) = row_class r"
  by (simp_all add: uncolored_def)

lemma uncolored_factor:
  assumes "map uncolored rs = map uncolored rs'"
  shows "map row_ids rs = map row_ids rs'" "map row_hidden rs = map row_hidden rs'"
    "map row_icon rs = map row_icon rs'" "map row_class rs = map row_class rs'"
proof -
  have f: "map f rs = map f rs'" if "\<And>r. f (uncolored r) = f r" for f :: "row \<Rightarrow> 'b"
    using arg_cong[OF assms, of "map f"] that by (simp add: comp_def)
  show "map row_ids rs = map row_ids rs'" "map row_hidden rs = map row_hidden rs'"
    "map row_icon rs = map row_icon rs'" "map row_class rs = map row_class rs'"
    by (rule f, simp)+
qed

lemma shown_ok_map: "shown_ok hid opn rs as = shown_ok id opn (map hid rs) as"
  by (simp add: shown_ok_def list_all2_map1)

lemma table_ok_uncolored:
  assumes "map uncolored rs = map uncolored rs'"
  shows "table_ok e rs = table_ok e rs'"
  using uncolored_factor[OF assms] rows_named_cong[of rs rs'] open_ids_cong[of rs rs' e]
  by (simp add: table_ok_def shown_ok_map[of row_hidden])

lemma update_colors_uncolored: "map uncolored (t_rows (update_colors t)) = map uncolored (t_rows t)"
  by (simp add: update_colors_def color_rows_map uncolored_def)

lemma table_ok_user_click:
  assumes "e \<noteq> c" "table_ok e (t_rows t)"
  shows "table_ok e (t_rows (user_click e c t k))"
proof -
  have "table_ok e (toggle_rows e c k (t_rows t))"
    if "k < length (t_rows t)" "\<not> row_hidden (t_rows t ! k)"
    using tt.user_click_consistent[of e c "t_rows t" k] assms(2) that
    unfolding table_ok_consistent[OF assms(1)] tt.user_click_def by simp
  moreover have "table_ok e (t_rows (update_colors t')) = table_ok e (t_rows t')" for t'
    by (rule table_ok_uncolored) (rule update_colors_uncolored)
  ultimately show ?thesis
    using assms(2) by (simp add: user_click_def expander_click_def)
qed

interpretation jobs_tree: event_machine "\<lambda>t. e \<noteq> c \<and> table_ok e (t_rows t)" "user_click e c"
    "\<lambda>t. e \<noteq> c \<and> table_ok e (t_rows t)" for e c
  by unfold_locales (auto intro: table_ok_user_click)

section \<open>Properties\<close>

text \<open>
  C4. Starting from a consistent table (rows list a forest in preorder; a row is hidden exactly
  if some ancestor's expander is closed), every sequence of clicks on expanders of visible rows
  leaves the table consistent.
\<close>

theorem expander_clicks_consistent:
  assumes "expanded \<noteq> collapsed" and "table_ok expanded (t_rows t)"
  shows "table_ok expanded (t_rows (foldl (user_click expanded collapsed) t ks))"
  using jobs_tree.run_inv[of expanded collapsed t ks] assms by blast

definition demo_row :: "string \<Rightarrow> bool \<Rightarrow> string \<Rightarrow> row" where
  "demo_row cl h ic = \<lparr>row_class = cl, row_hidden = h, row_icon = ic, row_icon_style = [],
     row_margin = Some 0, row_bg = []\<rparr>"

definition demo_table :: table where
  "demo_table = \<lparr>t_alternate = True, t_rows =
     [demo_row ''treegrid-1'' False ''open'', demo_row ''treegrid-2 treegrid-parent-1'' False ''shut'',
      demo_row ''treegrid-3 treegrid-parent-2'' True ''leaf'', demo_row ''treegrid-4'' False ''leaf'']\<rparr>"

lemma demo_ids [simp]:
  "get_ids ''treegrid-1'' = (Some ''1'', None)" "get_ids ''treegrid-4'' = (Some ''4'', None)"
  "get_ids ''treegrid-2 treegrid-parent-1'' = (Some ''2'', Some ''1'')"
  "get_ids ''treegrid-3 treegrid-parent-2'' = (Some ''3'', Some ''2'')"
  by (simp_all add: get_ids_def js_eval)

lemmas demo_eval = demo_table_def demo_row_def row_ids_def truthy_str_def

lemma demo_table_ok: "table_ok ''open'' (t_rows demo_table)"
  by (simp add: demo_eval table_ok_def rows_named_def forest_def open_ids_def)

theorem expander_clicks_consistent_witness:
  "table_ok ''open'' (t_rows (foldl (user_click ''open'' ''shut'') demo_table [1, 0, 1, 0]))"
  by (rule expander_clicks_consistent) (simp, rule demo_table_ok)

text \<open>
  Clicking the open expander of row \<open>k\<close> of a forest hides exactly the descendants of that
  row: every later row with the row among its ancestors is hidden, every other row is untouched.
\<close>

theorem collapse_hides_descendants:
  assumes "rows_named rs" "forest (map row_ids rs)" "k < length rs" "row_icon (rs ! k) = expanded"
  shows "drop (Suc k) (toggle_rows expanded collapsed k rs) =
      map2 (\<lambda>r a. if the (row_id (rs ! k)) \<in> set a then r\<lparr>row_hidden := True\<rparr> else r)
        (drop (Suc k) rs) (drop (Suc k) (anc_paths [] (map row_ids rs)))
    \<and> take k (toggle_rows expanded collapsed k rs) = take k rs"
proof -
  define xs r ys where "xs = take k rs" and "r = rs ! k" and "ys = drop (Suc k) rs"
  have rs: "rs = xs @ r # ys" using id_take_nth_drop[OF assms(3)] by (simp add: xs_def r_def ys_def)
  have len: "length xs = k" using assms(3) by (simp add: xs_def)
  obtain A a where cut: "cut_at expanded xs r ys A a"
    and A: "anc_paths [] (map row_ids (xs @ r # ys)) = A @ a # anc_paths (the (row_id r) # a) (map row_ids ys)"
    by (rule forest_cut) (use assms(1,2) rs in auto)
  have lenA: "length A = k" and d: "distinct (the (row_id r) # a)"
    and scan: "scan_ok [the (row_id r)] (the (row_id r) # a) (the (row_id r)) ys"
    using cut len by (simp_all add: cut_at_def Let_def)
  have coll: "collapse_from [the (row_id r)] ys =
      map2 (\<lambda>r' a. if the (row_id r) \<in> set a then r'\<lparr>row_hidden := True\<rparr> else r') ys
        (anc_paths (the (row_id r) # a) (map row_ids ys))"
    by (rule collapse_from_spec[OF scan]) (rule tracks_self[OF d], auto)
  have tg: "toggle_rows expanded collapsed k rs = xs @ r\<lparr>row_icon := collapsed\<rparr> # collapse_from [the (row_id r)] ys"
    using assms(3,4) by (simp add: toggle_rows_def xs_def r_def ys_def Let_def)
  have B: "drop (Suc k) (anc_paths [] (map row_ids rs)) = anc_paths (the (row_id r) # a) (map row_ids ys)"
    using A lenA by (simp only: rs) simp
  show ?thesis
    unfolding tg B r_def[symmetric] ys_def[symmetric] using coll len by (simp flip: xs_def)
qed

theorem collapse_hides_descendants_witness:
  "map row_hidden (drop 1 (toggle_rows ''open'' ''shut'' 0 (t_rows demo_table))) = [True, True, False]"
proof -
  have "rows_named (t_rows demo_table)" "forest (map row_ids (t_rows demo_table))"
    "0 < length (t_rows demo_table)" "row_icon (t_rows demo_table ! 0) = ''open''"
    by (simp_all add: demo_eval rows_named_def forest_def)
  from conjunct1[OF collapse_hides_descendants[OF this, of "''shut''"]]
  have "drop (Suc 0) (toggle_rows ''open'' ''shut'' 0 (t_rows demo_table)) =
      map2 (\<lambda>r a. if the (row_id (t_rows demo_table ! 0)) \<in> set a then r\<lparr>row_hidden := True\<rparr> else r)
        (drop (Suc 0) (t_rows demo_table)) (drop (Suc 0) (anc_paths [] (map row_ids (t_rows demo_table))))" .
  moreover have "map row_hidden (map2 (\<lambda>r a. if the (row_id (t_rows demo_table ! 0)) \<in> set a then r\<lparr>row_hidden := True\<rparr> else r)
        (drop (Suc 0) (t_rows demo_table)) (drop (Suc 0) (anc_paths [] (map row_ids (t_rows demo_table))))) = [True, True, False]"
    by (simp add: demo_eval)
  ultimately show ?thesis by simp
qed

end
