(* ===== verification/Page_Model.thy ===== *)
theory Page_Model
  imports JS_Runtime
begin

text \<open>
  The page the scripts run in, as jQuery presents it. The document is the list of its elements
  in document order; an element knows the keys of its ancestors, so that both a document-wide
  selector and \<open>container.find(selector)\<close> are predicates that filter the list. Calls to the
  server, to third-party widgets (Semantic UI's modals, popups, dropdowns), notifications and
  navigation are outputs: they are appended to a log in the order the script makes them. A
  script's own variables are added by extending the record.
\<close>

section \<open>Elements\<close>

record opt =
  o_value :: string
  o_text :: string
  o_selected :: bool
  o_disabled :: bool
  o_shared :: jsval

record elem =
  el_key :: nat
  el_tag :: string
  el_id :: string
  el_name :: string
  el_classes :: "string list"
  el_anc :: "nat list"
  el_attrs :: "string \<Rightarrow> string option"
  el_data :: "string \<Rightarrow> jsval"
  el_text :: string
  el_html :: string
  el_val :: jsval
  el_opts :: "opt list"
  el_checked :: bool
  el_hidden :: bool
  el_files :: "string list"

definition new_elem :: elem where
  "new_elem = \<lparr>el_key = 0, el_tag = [], el_id = [], el_name = [], el_classes = [], el_anc = [],
     el_attrs = (\<lambda>_. None), el_data = (\<lambda>_. JUndef), el_text = [], el_html = [], el_val = JUndef,
     el_opts = [], el_checked = False, el_hidden = False, el_files = []\<rparr>"

definition has_class :: "string \<Rightarrow> elem \<Rightarrow> bool" where
  "has_class c e = (c \<in> set (el_classes e))"

definition add_class :: "string \<Rightarrow> elem \<Rightarrow> elem" where
  "add_class c e = (if has_class c e then e else e\<lparr>el_classes := el_classes e @ [c]\<rparr>)"

definition remove_class :: "string \<Rightarrow> elem \<Rightarrow> elem" where
  "remove_class c e = e\<lparr>el_classes := filter (\<lambda>d. d \<noteq> c) (el_classes e)\<rparr>"

text \<open>jQuery UI's \<open>switchClass(c, d)\<close>: \<open>c\<close> is removed and \<open>d\<close> is added.\<close>

definition switch_class :: "string \<Rightarrow> string \<Rightarrow> elem \<Rightarrow> elem" where
  "switch_class c d e = add_class d (remove_class c e)"

definition set_text :: "string \<Rightarrow> elem \<Rightarrow> elem" where
  "set_text s e = e\<lparr>el_text := s, el_html := []\<rparr>"

definition set_html :: "string \<Rightarrow> elem \<Rightarrow> elem" where
  "set_html s e = e\<lparr>el_html := s, el_text := []\<rparr>"

definition set_empty :: "elem \<Rightarrow> elem" where
  "set_empty e = e\<lparr>el_html := [], el_text := [], el_opts := []\<rparr>"

definition set_val :: "jsval \<Rightarrow> elem \<Rightarrow> elem" where
  "set_val v e = e\<lparr>el_val := v\<rparr>"

definition set_checked :: "bool \<Rightarrow> elem \<Rightarrow> elem" where
  "set_checked b e = e\<lparr>el_checked := b\<rparr>"

definition set_hidden :: "bool \<Rightarrow> elem \<Rightarrow> elem" where
  "set_hidden b e = e\<lparr>el_hidden := b\<rparr>"

definition set_data :: "string \<Rightarrow> jsval \<Rightarrow> elem \<Rightarrow> elem" where
  "set_data k v e = e\<lparr>el_data := (el_data e)(k := v)\<rparr>"

definition set_attr :: "string \<Rightarrow> string \<Rightarrow> elem \<Rightarrow> elem" where
  "set_attr k v e = e\<lparr>el_attrs := (el_attrs e)(k \<mapsto> v)\<rparr>"

definition set_opts :: "opt list \<Rightarrow> elem \<Rightarrow> elem" where
  "set_opts os e = e\<lparr>el_opts := os\<rparr>"

abbreviation hidden_el :: "elem \<Rightarrow> elem" where "hidden_el \<equiv> set_hidden True"
abbreviation shown_el :: "elem \<Rightarrow> elem" where "shown_el \<equiv> set_hidden False"

text \<open>
  A drop-down list without a selected option selects its first enabled one, as the browser does when
  options are added or removed.
\<close>

definition select_some :: "opt list \<Rightarrow> opt list" where
  "select_some os =
     (if list_ex o_selected os then os
      else upd_first (\<lambda>q. \<not> o_disabled q) (\<lambda>q. q\<lparr>o_selected := True\<rparr>) os)"

definition new_opt :: "string \<Rightarrow> string \<Rightarrow> opt" where
  "new_opt v t = \<lparr>o_value = v, o_text = t, o_selected = False, o_disabled = False, o_shared = JUndef\<rparr>"

text \<open>Text set into an element, as it reads in the element's markup.\<close>

fun html_text :: "string \<Rightarrow> string" where
  "html_text [] = []"
| "html_text (c # cs) =
     (if c = CHR ''&'' then ''&amp;'' else if c = CHR ''<'' then ''&lt;'' else if c = CHR ''>'' then ''&gt;'' else [c])
     @ html_text cs"

text \<open>\<open>.val()\<close>: of a select the selected enabled options, of any other element its value.\<close>

definition elem_val :: "elem \<Rightarrow> jsval" where
  "elem_val e =
     (if el_tag e = ''select'' then
        (let sel = map o_value (filter (\<lambda>p. o_selected p \<and> \<not> o_disabled p) (el_opts e)) in
         if el_attrs e ''multiple'' \<noteq> None then JArr (map JStr sel)
         else case sel of [] \<Rightarrow> JNull | v # _ \<Rightarrow> JStr v)
      else el_val e)"

lemmas elem_ops = add_class_def remove_class_def set_text_def set_html_def set_empty_def set_val_def
  set_checked_def set_hidden_def set_data_def set_attr_def set_opts_def switch_class_def

text \<open>What the operations keep: the identity of an element and its place in the document.\<close>

definition keeps_id :: "(elem \<Rightarrow> elem) \<Rightarrow> bool" where
  "keeps_id f = (\<forall>e. el_key (f e) = el_key e \<and> el_id (f e) = el_id e \<and> el_tag (f e) = el_tag e
     \<and> el_name (f e) = el_name e \<and> el_anc (f e) = el_anc e)"

lemma keeps_id_ops [simp, intro]:
  "keeps_id (add_class c)" "keeps_id (remove_class c)" "keeps_id (switch_class c d)"
  "keeps_id (set_text s)" "keeps_id (set_html s)" "keeps_id set_empty" "keeps_id (set_val v)"
  "keeps_id (set_checked b)" "keeps_id (set_hidden h)" "keeps_id (set_data k v)"
  "keeps_id (set_attr k s)" "keeps_id (set_opts os)" "keeps_id id" "keeps_id (\<lambda>e. e)"
  by (simp_all add: keeps_id_def elem_ops)

lemma keeps_id_comp [intro]: "keeps_id f \<Longrightarrow> keeps_id g \<Longrightarrow> keeps_id (f \<circ> g)"
  by (simp add: keeps_id_def)

lemma keeps_idD:
  "keeps_id f \<Longrightarrow> el_id (f e) = el_id e" "keeps_id f \<Longrightarrow> el_key (f e) = el_key e"
  "keeps_id f \<Longrightarrow> el_tag (f e) = el_tag e" "keeps_id f \<Longrightarrow> el_name (f e) = el_name e"
  "keeps_id f \<Longrightarrow> el_anc (f e) = el_anc e"
  by (simp_all add: keeps_id_def)

lemma has_class_ops [simp]:
  "has_class c (add_class d e) = (c = d \<or> has_class c e)"
  "has_class c (remove_class d e) = (c \<noteq> d \<and> has_class c e)"
  "has_class c (switch_class d d' e) = (c = d' \<or> (c \<noteq> d \<and> has_class c e))"
  "has_class c (set_text s e) = has_class c e" "has_class c (set_html s e) = has_class c e"
  "has_class c (set_empty e) = has_class c e" "has_class c (set_val v e) = has_class c e"
  "has_class c (set_checked b e) = has_class c e" "has_class c (set_hidden b e) = has_class c e"
  "has_class c (set_data k v e) = has_class c e" "has_class c (set_attr k s e) = has_class c e"
  "has_class c (set_opts os e) = has_class c e"
  by (auto simp: has_class_def elem_ops)

lemma el_hidden_ops [simp]:
  "el_hidden (add_class c e) = el_hidden e" "el_hidden (remove_class c e) = el_hidden e"
  "el_hidden (switch_class c d e) = el_hidden e" "el_hidden (set_text s e) = el_hidden e"
  "el_hidden (set_html s e) = el_hidden e" "el_hidden (set_empty e) = el_hidden e"
  "el_hidden (set_val v e) = el_hidden e" "el_hidden (set_checked b e) = el_hidden e"
  "el_hidden (set_hidden h e) = h" "el_hidden (set_data k v e) = el_hidden e"
  "el_hidden (set_attr k s e) = el_hidden e" "el_hidden (set_opts os e) = el_hidden e"
  by (simp_all add: elem_ops)

lemma el_checked_ops [simp]:
  "el_checked (add_class c e) = el_checked e" "el_checked (remove_class c e) = el_checked e"
  "el_checked (switch_class c d e) = el_checked e" "el_checked (set_text s e) = el_checked e"
  "el_checked (set_html s e) = el_checked e" "el_checked (set_empty e) = el_checked e"
  "el_checked (set_val v e) = el_checked e" "el_checked (set_checked b e) = b"
  "el_checked (set_hidden h e) = el_checked e" "el_checked (set_data k v e) = el_checked e"
  "el_checked (set_attr k s e) = el_checked e" "el_checked (set_opts os e) = el_checked e"
  by (simp_all add: elem_ops)

lemma el_val_ops [simp]:
  "el_val (add_class c e) = el_val e" "el_val (remove_class c e) = el_val e"
  "el_val (switch_class c d e) = el_val e" "el_val (set_text s e) = el_val e"
  "el_val (set_html s e) = el_val e" "el_val (set_empty e) = el_val e"
  "el_val (set_val v e) = v" "el_val (set_checked b e) = el_val e"
  "el_val (set_hidden h e) = el_val e" "el_val (set_data k v e) = el_val e"
  "el_val (set_attr k s e) = el_val e" "el_val (set_opts os e) = el_val e"
  by (simp_all add: elem_ops)

lemma el_data_ops [simp]:
  "el_data (add_class c e) = el_data e" "el_data (remove_class c e) = el_data e"
  "el_data (switch_class c d e) = el_data e" "el_data (set_text s e) = el_data e"
  "el_data (set_html s e) = el_data e" "el_data (set_empty e) = el_data e"
  "el_data (set_val v e) = el_data e" "el_data (set_checked b e) = el_data e"
  "el_data (set_hidden h e) = el_data e" "el_data (set_data k v e) = (el_data e)(k := v)"
  "el_data (set_attr k s e) = el_data e" "el_data (set_opts os e) = el_data e"
  by (simp_all add: elem_ops)

lemma el_text_ops [simp]:
  "el_text (add_class c e) = el_text e" "el_text (remove_class c e) = el_text e"
  "el_text (switch_class c d e) = el_text e" "el_text (set_text s e) = s"
  "el_text (set_html s e) = []" "el_text (set_empty e) = []"
  "el_text (set_val v e) = el_text e" "el_text (set_checked b e) = el_text e"
  "el_text (set_hidden h e) = el_text e" "el_text (set_data k v e) = el_text e"
  "el_text (set_attr k s e) = el_text e" "el_text (set_opts os e) = el_text e"
  by (simp_all add: elem_ops)

section \<open>Outputs\<close>

record request =
  rq_method :: string
  rq_url :: string
  rq_data :: jsval
  rq_tag :: string

text \<open>\<open>rq_tag\<close> names the callbacks a request was made with.\<close>

datatype effect =
    Notify string string "int option"
  | Ajax request
  | Navigate string
  | Widget string string "jsval list"
  | PushState jsval string
  | ReplaceState jsval string
  | StopTimer string
  | Console string

definition ajax :: "string \<Rightarrow> string \<Rightarrow> jsval \<Rightarrow> string \<Rightarrow> effect" where
  "ajax m u d t = Ajax \<lparr>rq_method = m, rq_url = u, rq_data = d, rq_tag = t\<rparr>"

fun requests :: "effect list \<Rightarrow> request list" where
  "requests [] = []"
| "requests (x # xs) = (case x of Ajax r \<Rightarrow> r # requests xs | _ \<Rightarrow> requests xs)"

fun navigations :: "effect list \<Rightarrow> string list" where
  "navigations [] = []"
| "navigations (x # xs) = (case x of Navigate u \<Rightarrow> u # navigations xs | _ \<Rightarrow> navigations xs)"

lemma requests_append [simp]: "requests (xs @ ys) = requests xs @ requests ys"
  by (induction xs) (auto split: effect.splits)

lemma navigations_append [simp]: "navigations (xs @ ys) = navigations xs @ navigations ys"
  by (induction xs) (auto split: effect.splits)

lemma requests_ajax [simp]:
  "requests [ajax m u d t] = [\<lparr>rq_method = m, rq_url = u, rq_data = d, rq_tag = t\<rparr>]"
  "navigations [ajax m u d t] = []"
  by (simp_all add: ajax_def)

section \<open>Pages\<close>

record page =
  doc :: "elem list"
  out :: "effect list"
  href :: string

type_synonym selector = "elem \<Rightarrow> bool"

definition by_id :: "string \<Rightarrow> selector" where
  "by_id i e = (el_id e = i)"

definition by_class :: "string \<Rightarrow> selector" where
  "by_class c e = has_class c e"

text \<open>Selectors \<open>input[id^="p"]\<close> and \<open>[name="n"]\<close>.\<close>

definition id_starts :: "string \<Rightarrow> string \<Rightarrow> selector" where
  "id_starts t p e = (el_tag e = t \<and> starts_with (el_id e) p)"

definition by_name :: "string \<Rightarrow> string \<Rightarrow> selector" where
  "by_name t n e = (el_tag e = t \<and> el_name e = n)"

definition select :: "selector \<Rightarrow> 'a page_scheme \<Rightarrow> elem list" where
  "select P p = filter P (doc p)"

definition elem_by_id :: "string \<Rightarrow> 'a page_scheme \<Rightarrow> elem option" where
  "elem_by_id i p = find (by_id i) (doc p)"

text \<open>\<open>container.find(selector)\<close> for a container given by its identifier.\<close>

definition inside :: "string \<Rightarrow> selector \<Rightarrow> 'a page_scheme \<Rightarrow> selector" where
  "inside i P p e =
     (P e \<and> (case elem_by_id i p of None \<Rightarrow> False | Some c \<Rightarrow> el_key c \<in> set (el_anc e)))"

definition visible :: "'a page_scheme \<Rightarrow> elem \<Rightarrow> bool" where
  "visible p e = (\<not> el_hidden e \<and> (\<forall>a \<in> set (doc p). el_key a \<in> set (el_anc e) \<longrightarrow> \<not> el_hidden a))"

definition update :: "selector \<Rightarrow> (elem \<Rightarrow> elem) \<Rightarrow> 'a page_scheme \<Rightarrow> 'a page_scheme" where
  "update P f p = p\<lparr>doc := map (\<lambda>e. if P e then f e else e) (doc p)\<rparr>"

definition update_id :: "string \<Rightarrow> (elem \<Rightarrow> elem) \<Rightarrow> 'a page_scheme \<Rightarrow> 'a page_scheme" where
  "update_id i f p = p\<lparr>doc := upd_first (by_id i) f (doc p)\<rparr>"

definition remove :: "selector \<Rightarrow> 'a page_scheme \<Rightarrow> 'a page_scheme" where
  "remove P p = p\<lparr>doc := filter (\<lambda>e. \<not> P e) (doc p)\<rparr>"

definition emit :: "effect \<Rightarrow> 'a page_scheme \<Rightarrow> 'a page_scheme" where
  "emit x p = p\<lparr>out := out p @ [x]\<rparr>"

definition exists_id :: "string \<Rightarrow> 'a page_scheme \<Rightarrow> bool" where
  "exists_id i p = (elem_by_id i p \<noteq> None)"

definition text_of :: "string \<Rightarrow> 'a page_scheme \<Rightarrow> string" where
  "text_of i p = (case elem_by_id i p of None \<Rightarrow> [] | Some e \<Rightarrow> el_text e)"

definition val_of :: "string \<Rightarrow> 'a page_scheme \<Rightarrow> jsval" where
  "val_of i p = (case elem_by_id i p of None \<Rightarrow> JUndef | Some e \<Rightarrow> elem_val e)"

definition checked :: "string \<Rightarrow> 'a page_scheme \<Rightarrow> bool" where
  "checked i p = (case elem_by_id i p of None \<Rightarrow> False | Some e \<Rightarrow> el_checked e)"

definition data_of :: "string \<Rightarrow> string \<Rightarrow> 'a page_scheme \<Rightarrow> jsval" where
  "data_of i k p = (case elem_by_id i p of None \<Rightarrow> JUndef | Some e \<Rightarrow> el_data e k)"

text \<open>The value of the checked radio button of a group, \<open>$('input[name="n"]:checked').val()\<close>.\<close>

definition radio_val :: "string \<Rightarrow> 'a page_scheme \<Rightarrow> jsval" where
  "radio_val n p = (case filter el_checked (select (by_name ''input'' n) p) of
     [] \<Rightarrow> JUndef | e # _ \<Rightarrow> elem_val e)"

text \<open>Frequent outputs.\<close>

definition navigate :: "string \<Rightarrow> 'a page_scheme \<Rightarrow> 'a page_scheme" where
  "navigate u = emit (Navigate u)"

definition reload :: "'a page_scheme \<Rightarrow> 'a page_scheme" where
  "reload = navigate []"

definition modal :: "string \<Rightarrow> string \<Rightarrow> 'a page_scheme \<Rightarrow> 'a page_scheme" where
  "modal i cmd = emit (Widget (''#'' @ i) ''modal'' [JStr cmd])"

definition popup_hide :: "string \<Rightarrow> 'a page_scheme \<Rightarrow> 'a page_scheme" where
  "popup_hide s = emit (Widget s ''popup'' [JStr ''hide''])"

definition send :: "string \<Rightarrow> string \<Rightarrow> jsval \<Rightarrow> string \<Rightarrow> 'a page_scheme \<Rightarrow> 'a page_scheme" where
  "send m u d t = emit (ajax m u d t)"

definition dimmer_on :: "'a page_scheme \<Rightarrow> 'a page_scheme" where
  "dimmer_on = update_id ''dimmer_of_page'' (add_class ''active'')"

definition dimmer_off :: "'a page_scheme \<Rightarrow> 'a page_scheme" where
  "dimmer_off = update_id ''dimmer_of_page'' (remove_class ''active'')"

section \<open>Equations\<close>

lemma doc_ops [simp]:
  "doc (emit x p) = doc p" "doc (navigate u p) = doc p" "doc (reload p) = doc p"
  "doc (modal i c p) = doc p" "doc (popup_hide s p) = doc p" "doc (send m u d t p) = doc p"
  by (simp_all add: emit_def navigate_def reload_def modal_def popup_hide_def send_def)

lemma out_ops [simp]:
  "out (emit x p) = out p @ [x]" "out (navigate u p) = out p @ [Navigate u]"
  "out (reload p) = out p @ [Navigate []]"
  "out (modal i c p) = out p @ [Widget (''#'' @ i) ''modal'' [JStr c]]"
  "out (popup_hide s p) = out p @ [Widget s ''popup'' [JStr ''hide'']]"
  "out (send m u d t p) = out p @ [ajax m u d t]"
  "out (update P f p) = out p" "out (update_id i f p) = out p" "out (remove P p) = out p"
  "out (dimmer_on p) = out p" "out (dimmer_off p) = out p"
  by (simp_all add: emit_def navigate_def reload_def modal_def popup_hide_def send_def update_def
      update_id_def remove_def dimmer_on_def dimmer_off_def)

lemma href_ops [simp]:
  "href (emit x p) = href p" "href (navigate u p) = href p" "href (reload p) = href p"
  "href (modal i c p) = href p" "href (popup_hide s p) = href p" "href (send m u d t p) = href p"
  "href (update P f p) = href p" "href (update_id i f p) = href p" "href (remove P p) = href p"
  "href (dimmer_on p) = href p" "href (dimmer_off p) = href p"
  by (simp_all add: emit_def navigate_def reload_def modal_def popup_hide_def send_def update_def
      update_id_def remove_def dimmer_on_def dimmer_off_def)

lemma more_ops [simp]:
  "more (emit x p) = more p" "more (navigate u p) = more p" "more (reload p) = more p"
  "more (modal i c p) = more p" "more (popup_hide s p) = more p" "more (send m u d t p) = more p"
  "more (update P f p) = more p" "more (update_id i f p) = more p" "more (remove P p) = more p"
  "more (dimmer_on p) = more p" "more (dimmer_off p) = more p"
  by (simp_all add: emit_def navigate_def reload_def modal_def popup_hide_def send_def update_def
      update_id_def remove_def dimmer_on_def dimmer_off_def)

lemma select_ops [simp]:
  "select P (emit x p) = select P p" "select P (navigate u p) = select P p"
  "select P (reload p) = select P p" "select P (modal i c p) = select P p"
  "select P (popup_hide s p) = select P p" "select P (send m u d t p) = select P p"
  by (simp_all add: select_def)

lemma elem_by_id_ops [simp]:
  "elem_by_id i (emit x p) = elem_by_id i p" "elem_by_id i (navigate u p) = elem_by_id i p"
  "elem_by_id i (reload p) = elem_by_id i p" "elem_by_id i (modal j c p) = elem_by_id i p"
  "elem_by_id i (popup_hide s p) = elem_by_id i p" "elem_by_id i (send m u d t p) = elem_by_id i p"
  by (simp_all add: elem_by_id_def)

lemma by_id_keeps: "keeps_id f \<Longrightarrow> by_id i (f e) = by_id i e"
  by (simp add: by_id_def keeps_id_def)

lemma elem_by_id_update_id [simp]:
  assumes "keeps_id f"
  shows "elem_by_id i (update_id j f p)
    = (if i = j then map_option f (elem_by_id i p) else elem_by_id i p)"
proof (cases "i = j")
  case True
  with assms show ?thesis
    by (simp add: elem_by_id_def update_id_def find_upd_first_same by_id_keeps[OF assms])
next
  case False
  then have "\<And>e. by_id j e \<Longrightarrow> \<not> by_id i e" by (simp add: by_id_def)
  with assms False show ?thesis
    by (simp add: elem_by_id_def update_id_def find_upd_first_other by_id_keeps[OF assms])
qed

lemma find_map_keeps:
  "(\<And>e. P (f e) = P e) \<Longrightarrow> find P (map f xs) = map_option f (find P xs)"
  by (induction xs) auto

lemma elem_by_id_update [simp]:
  assumes "keeps_id f"
  shows "elem_by_id i (update P f p) = map_option (\<lambda>e. if P e then f e else e) (elem_by_id i p)"
  unfolding elem_by_id_def update_def
  by (simp, rule find_map_keeps) (simp add: by_id_keeps[OF assms])

lemma elem_by_id_dimmer [simp]:
  "i \<noteq> ''dimmer_of_page'' \<Longrightarrow> elem_by_id i (dimmer_on p) = elem_by_id i p"
  "i \<noteq> ''dimmer_of_page'' \<Longrightarrow> elem_by_id i (dimmer_off p) = elem_by_id i p"
  by (simp_all add: dimmer_on_def dimmer_off_def)

lemma select_update_id_other:
  assumes "\<And>e. by_id i e \<Longrightarrow> \<not> P e" and "\<And>e. by_id i e \<Longrightarrow> \<not> P (f e)"
  shows "select P (update_id i f p) = select P p"
  using assms by (simp add: select_def update_id_def filter_upd_first)

lemma select_update_keeps:
  assumes "\<And>e. P (f e) = P e"
  shows "select P (update Q f p) = map (\<lambda>e. if Q e then f e else e) (select P p)"
  unfolding select_def update_def
  by (simp, rule filter_map_pres) (simp add: assms)

lemma elem_by_idD: "elem_by_id i p = Some e \<Longrightarrow> e \<in> set (doc p) \<and> el_id e = i"
  unfolding elem_by_id_def by (drule find_SomeD) (simp add: by_id_def)

end
