(* ===== verification/Bridge_Utils.thy ===== *)
theory Bridge_Utils
  imports Page_Model
begin

text \<open>
  The shared helpers of \<open>bridge/static/bridge/js/bridge.js\<close>: cookies and the CSRF header,
  notifications, flattening of API errors, message formatting, and file names.
\<close>

section \<open>Cookies and request headers\<close>

fun find_cookie :: "string \<Rightarrow> string list \<Rightarrow> js_error + string option" where
  "find_cookie name [] = Inr None"
| "find_cookie name (c # cookies) =
     (case strip_prefix (name @ ''='') (trim c) of
        Some v \<Rightarrow> map_sum id Some (decodeURIComponent v)
      | None \<Rightarrow> find_cookie name cookies)"

definition getCookie :: "string \<Rightarrow> string \<Rightarrow> js_error + string option" where
  "getCookie cookie name =
     (if cookie = [] then Inr None else find_cookie name (split_on '';'' cookie))"

definition csrfSafeMethod :: "string \<Rightarrow> bool" where
  "csrfSafeMethod m = (m \<in> {''GET'', ''HEAD'', ''OPTIONS'', ''TRACE''})"

text \<open>\<open>beforeSend\<close> of \<open>$.ajaxSetup\<close>: the headers it sets, with the cookie value as jQuery would send it.\<close>

definition beforeSend :: "string \<Rightarrow> string \<Rightarrow> bool \<Rightarrow> js_error + (string \<times> string option) list" where
  "beforeSend cookie method crossDomain =
     (if \<not> csrfSafeMethod method \<and> \<not> crossDomain
      then map_sum id (\<lambda>v. [(''X-CSRFToken'', v)]) (getCookie cookie ''csrftoken'')
      else Inr [])"

section \<open>Notifications\<close>

text \<open>An absent duration is not a number: the notification stays.\<close>

definition err_notify :: "string \<Rightarrow> int option \<Rightarrow> 'a page_scheme \<Rightarrow> 'a page_scheme" where
  "err_notify message duration = emit (Notify ''error'' message duration)"

definition warn_notify :: "string \<Rightarrow> int option \<Rightarrow> 'a page_scheme \<Rightarrow> 'a page_scheme" where
  "warn_notify message duration = emit (Notify ''warn'' message duration)"

definition success_notify :: "string \<Rightarrow> int option \<Rightarrow> 'a page_scheme \<Rightarrow> 'a page_scheme" where
  "success_notify message duration = emit (Notify ''success'' message duration)"

lemma notify_out [simp]:
  "out (err_notify m d p) = out p @ [Notify ''error'' m d]"
  "out (warn_notify m d p) = out p @ [Notify ''warn'' m d]"
  "out (success_notify m d p) = out p @ [Notify ''success'' m d]"
  "doc (err_notify m d p) = doc p" "doc (warn_notify m d p) = doc p" "doc (success_notify m d p) = doc p"
  by (simp_all add: err_notify_def warn_notify_def success_notify_def)

lemma notify_frame [simp]:
  "elem_by_id i (err_notify m d p) = elem_by_id i p" "elem_by_id i (success_notify m d p) = elem_by_id i p"
  "select P (err_notify m d p) = select P p" "select P (success_notify m d p) = select P p"
  "href (err_notify m d p) = href p" "href (success_notify m d p) = href p"
  "more (err_notify m d p) = more p" "more (success_notify m d p) = more p"
  by (simp_all add: err_notify_def success_notify_def)

section \<open>Message formatting\<close>

text \<open>\<open>args[n]\<close> for the digits \<open>n\<close> of a placeholder: only canonical decimals are indices.\<close>

definition nth_arg :: "string list \<Rightarrow> string \<Rightarrow> string option" where
  "nth_arg args n = (case filter (\<lambda>(i, _). show_nat i = n) (enumerate 0 args) of
     [] \<Rightarrow> None | (_, a) # _ \<Rightarrow> Some a)"

text \<open>The placeholder a string starts with, its digits and what follows it.\<close>

definition placeholder :: "string \<Rightarrow> (string \<times> string) option" where
  "placeholder s = (case s of
     c # cs \<Rightarrow>
       (let ds = takeWhile is_digit cs; r = dropWhile is_digit cs in
        if c = CHR ''{'' \<and> ds \<noteq> [] then
          (case r of d # r' \<Rightarrow> if d = CHR ''}'' then Some (ds, r') else None | [] \<Rightarrow> None)
        else None)
   | [] \<Rightarrow> None)"

lemma placeholder_shrinks:
  assumes "placeholder s = Some (ds, r)"
  shows "length r < length s"
proof -
  obtain c cs d where s: "s = c # cs" and d: "dropWhile is_digit cs = d # r"
    using assms by (auto simp: placeholder_def Let_def split: list.splits if_splits)
  have "length (dropWhile is_digit cs) \<le> length cs" by (rule length_dropWhile_le)
  then show ?thesis by (simp add: s d)
qed

function format_str :: "string list \<Rightarrow> string \<Rightarrow> string" where
  "format_str args s =
     (case placeholder s of
        Some (n, r) \<Rightarrow>
          (case nth_arg args n of
             Some a \<Rightarrow> if a \<noteq> [] then a else ''{'' @ n @ ''}''
           | None \<Rightarrow> ''{'' @ n @ ''}'') @ format_str args r
      | None \<Rightarrow> (case s of [] \<Rightarrow> [] | c # cs \<Rightarrow> c # format_str args cs))"
  by pat_completeness auto
termination
proof (relation "measure (length \<circ> snd)", goal_cases)
  case (3 args s x n r)
  then have "length r < length s" by (intro placeholder_shrinks[of s n]) simp
  then show ?case by simp
qed simp_all

declare format_str.simps [simp del]

section \<open>Flattening of API errors\<close>

text \<open>
  The messages in visiting order, with the label of the innermost object key in front. Null has
  the type \<open>object\<close> and no members. (The objects are those of API responses, which have no
  numeric member named \<open>length\<close>.)
\<close>

definition get_label :: "(string \<times> string) list \<Rightarrow> string option \<Rightarrow> string option" where
  "get_label labels key = (case key of
     None \<Rightarrow> None
   | Some k \<Rightarrow> if k = [] then None else
       (case map_of labels k of None \<Rightarrow> None | Some l \<Rightarrow> if l = [] then None else Some l))"

fun children_messages :: "(string \<times> string) list \<Rightarrow> string option \<Rightarrow> jsval \<Rightarrow> string list" where
  "children_messages labels err_key (JArr vs) = concat (map (children_messages labels err_key) vs)"
| "children_messages labels err_key (JObj ps) =
     concat (map (\<lambda>(k, v). children_messages labels (Some k) v) ps)"
| "children_messages labels err_key JNull = []"
| "children_messages labels err_key obj =
     [case get_label labels err_key of
        Some label \<Rightarrow> format_str [label, to_str obj] ''{0}: {1}''
      | None \<Rightarrow> to_str obj]"

definition push_new :: "string list \<Rightarrow> string \<Rightarrow> string list" where
  "push_new errors_arr error_text =
     (if error_text \<in> set errors_arr then errors_arr else errors_arr @ [error_text])"

definition flatten_api_errors :: "jsval \<Rightarrow> (string \<times> string) list \<Rightarrow> string list" where
  "flatten_api_errors data labels = foldl push_new [] (children_messages labels None data)"

text \<open>The handler of failed requests, registered with \<open>ajaxError\<close>.\<close>

definition ajaxError :: "jsval \<Rightarrow> 'a page_scheme \<Rightarrow> 'a page_scheme" where
  "ajaxError responseJSON p =
     (let p1 = dimmer_off p; generic = err_notify (text_of ''error__ajax_error'' p1) None in
      if truthy responseJSON then
        (if truthy (get_prop responseJSON ''error'')
         then err_notify (to_str (get_prop responseJSON ''error'')) None p1
         else if truthy (get_prop responseJSON ''detail'')
         then err_notify (to_str (get_prop responseJSON ''detail'')) None p1
         else
           (let errors = flatten_api_errors responseJSON [] in
            if errors \<noteq> [] then foldl (\<lambda>q value. err_notify value None q) p1 errors
            else generic p1))
      else generic p1)"

section \<open>Names and buttons\<close>

definition isASCII :: "string \<Rightarrow> bool" where
  "isASCII s = list_all (\<lambda>c. (of_char c :: nat) < 128) s"

fun after_last :: "char \<Rightarrow> string \<Rightarrow> string option" where
  "after_last c [] = None"
| "after_last c (d # ds) =
     (case after_last c ds of Some r \<Rightarrow> Some r | None \<Rightarrow> if d = c then Some ds else None)"

definition getFileExtension :: "string \<Rightarrow> string" where
  "getFileExtension name = (case after_last CHR ''.'' name of Some e \<Rightarrow> e | None \<Rightarrow> [])"

definition readable_extensions :: "string list" where
  "readable_extensions =
     [''txt'', ''json'', ''xml'', ''c'', ''aspect'', ''i'', ''h'', ''tmpl'', ''python'', ''yml'']"

definition isFileReadable :: "string \<Rightarrow> bool" where
  "isFileReadable name =
     (getFileExtension name \<in> set readable_extensions \<or> name = ''README'')"

text \<open>The label of a chosen file: back slashes become slashes, directories are cut off.\<close>

function strip_dirs :: "string \<Rightarrow> string" where
  "strip_dirs s =
     (let l = takeWhile (\<lambda>c. \<not> is_line_end c) s; r = dropWhile (\<lambda>c. \<not> is_line_end c) s in
      case after_last CHR ''/'' l of
        Some b \<Rightarrow> b @ r
      | None \<Rightarrow> (case r of [] \<Rightarrow> s | c # r' \<Rightarrow> l @ c # strip_dirs r'))"
  by pat_completeness auto
termination
proof (relation "measure length", goal_cases)
  case (2 s l r c r')
  have "length (c # r') \<le> length s" using 2 length_dropWhile_le[of "\<lambda>c. \<not> is_line_end c" s] by simp
  then show ?case by simp
qed simp

declare strip_dirs.simps [simp del]

definition file_label :: "string \<Rightarrow> string" where
  "file_label v = strip_dirs (map (\<lambda>c. if c = CHR 0x5C then CHR ''/'' else c) v)"

definition update_action_button :: "bool \<Rightarrow> elem \<Rightarrow> elem" where
  "update_action_button disable e =
     (if disable then (if \<not> has_class ''disabled'' e then add_class ''disabled'' e else e)
      else (if has_class ''disabled'' e then remove_class ''disabled'' e else e))"

lemma keeps_id_action_button [simp, intro]: "keeps_id (update_action_button b)"
  by (auto simp: keeps_id_def update_action_button_def elem_ops)

lemma action_button_disabled [simp]:
  "has_class ''disabled'' (update_action_button b e) = b"
  "el_checked (update_action_button b e) = el_checked e"
  "el_val (update_action_button b e) = el_val e"
  by (auto simp: update_action_button_def)

lemma action_button_class: "c \<noteq> ''disabled'' \<Longrightarrow> has_class c (update_action_button b e) = has_class c e"
  by (auto simp: update_action_button_def)

section \<open>Properties of the helpers\<close>

lemma flatten_first_occurrences: "foldl push_new [] xs = rev (remdups (rev xs))"
  by (induction xs rule: rev_induct) (auto simp: push_new_def)

text \<open>
  The flattened list of an API error holds every message of the response exactly once, in the
  order of the first occurrences.
\<close>

theorem flatten_api_errors_first_once:
  "flatten_api_errors data labels = rev (remdups (rev (children_messages labels None data)))"
  by (simp add: flatten_api_errors_def flatten_first_occurrences)

text \<open>A template given by its literals and placeholder numbers.\<close>

fun template :: "(string \<times> nat) list \<Rightarrow> string \<Rightarrow> string" where
  "template [] z = z"
| "template ((l, n) # ps) z = l @ ''{'' @ show_nat n @ ''}'' @ template ps z"

lemma placeholder_literal: "CHR ''{'' \<notin> set l \<Longrightarrow> l \<noteq> [] \<Longrightarrow> placeholder (l @ r) = None"
  by (cases l) (auto simp: placeholder_def)

lemma format_literal: "CHR ''{'' \<notin> set l \<Longrightarrow> format_str args (l @ r) = l @ format_str args r"
proof (induction l)
  case (Cons c l)
  have "placeholder (c # l @ r) = None" using Cons.prems placeholder_literal[of "c # l" r] by simp
  with Cons show ?case by (subst append_Cons, subst format_str.simps) simp
qed simp

lemma placeholder_show: "placeholder (''{'' @ show_nat n @ ''}'' @ r) = Some (show_nat n, r)"
proof -
  have d: "\<forall>c \<in> set (show_nat n). is_digit c" by (rule show_nat_digits)
  have nd: "\<not> is_digit CHR ''}''" by (simp add: is_digit_def digit_of_def)
  have "takeWhile is_digit (show_nat n @ ''}'' @ r) = show_nat n"
    "dropWhile is_digit (show_nat n @ ''}'' @ r) = ''}'' @ r"
    using d nd by (simp_all add: takeWhile_append2 dropWhile_append2)
  then show ?thesis by (simp add: placeholder_def)
qed

lemma show_nat_inject: "show_nat m = show_nat n \<longleftrightarrow> m = n"
  by (metis read_show_nat)

lemma nth_arg_show:
  assumes "n < length args"
  shows "nth_arg args (show_nat n) = Some (args ! n)"
proof -
  have "filter (\<lambda>(i, _). show_nat i = show_nat n) (enumerate 0 args) =
      filter (\<lambda>(i, _). i = n) (enumerate 0 args)"
    by (rule filter_cong) (auto simp: show_nat_inject)
  also have "\<dots> = [(n, args ! n)]"
  proof -
    have "enumerate 0 args = enumerate 0 (take n args) @ (n, args ! n) # enumerate (Suc n) (drop (Suc n) args)"
      using assms by (subst id_take_nth_drop[OF assms]) (simp add: enumerate_append_eq)
    moreover have "filter (\<lambda>(i, _). i = n) (enumerate 0 (take n args)) = []"
      by (auto simp: filter_empty_conv in_set_enumerate_eq)
    moreover have "filter (\<lambda>(i, _). i = n) (enumerate (Suc n) (drop (Suc n) args)) = []"
      by (auto simp: filter_empty_conv in_set_enumerate_eq)
    ultimately show ?thesis by simp
  qed
  finally show ?thesis by (simp add: nth_arg_def)
qed

text \<open>
  Formatting replaces every placeholder by the argument of its number, wherever the arguments
  are not empty, and keeps the literal text.
\<close>

theorem format_fills_placeholders:
  assumes "\<forall>(l, n) \<in> set ps. CHR ''{'' \<notin> set l \<and> n < length args \<and> args ! n \<noteq> []"
    and "CHR ''{'' \<notin> set z"
  shows "format_str args (template ps z) = concat (map (\<lambda>(l, n). l @ args ! n) ps) @ z"
  using assms
proof (induction ps)
  case Nil
  then show ?case
    using format_literal[of z args "[]"] by (simp add: format_str.simps[of args "[]"] placeholder_def)
next
  case (Cons p ps)
  obtain l n where p: "p = (l, n)" by force
  have l: "CHR ''{'' \<notin> set l" "n < length args" "args ! n \<noteq> []" using Cons.prems p by auto
  have "format_str args (''{'' @ show_nat n @ ''}'' @ template ps z) = args ! n @ format_str args (template ps z)"
    using l placeholder_show[of n "template ps z"] by (subst format_str.simps) (simp add: nth_arg_show)
  then show ?case using Cons p l by (simp add: format_literal)
qed

theorem format_fills_placeholders_witness:
  "format_str [''ab12'', ''a.c''] (template [(''/jobs/downloadfile/'', 0), (''/?name='', 1)] []) = ''/jobs/downloadfile/ab12/?name=a.c''"
  by (subst format_fills_placeholders) simp_all

section \<open>Cookies\<close>

definition cookie_pair :: "string \<times> string \<Rightarrow> string" where
  "cookie_pair p = fst p @ ''='' @ encodeURIComponent (snd p)"

definition cookie_text :: "(string \<times> string) list \<Rightarrow> string" where
  "cookie_text cs = join ''; '' (map cookie_pair cs)"

definition cookie_name :: "string \<Rightarrow> bool" where
  "cookie_name k = (k \<noteq> [] \<and> (\<forall>c \<in> set k. query_safe c))"

lemma cookie_nameD:
  assumes "cookie_name k"
  shows "CHR ''='' \<notin> set k" "\<forall>d \<in> set k. d \<noteq> CHR '';'' \<and> \<not> is_ws d"
proof -
  have "\<not> query_safe CHR ''=''" "\<not> query_safe CHR '';''" by (simp_all add: query_safe_def)
  moreover have "query_safe c \<Longrightarrow> \<not> is_ws c" for c by (simp add: query_safe_def)
  ultimately show "CHR ''='' \<notin> set k" "\<forall>d \<in> set k. d \<noteq> CHR '';'' \<and> \<not> is_ws d"
    using assms by (auto simp: cookie_name_def)
qed

lemma encode_no_sep: "d \<in> set (encodeURIComponent v) \<Longrightarrow> d \<noteq> CHR '';'' \<and> \<not> is_ws d"
  using encodeURIComponent_safe[of v] by (auto simp: query_safe_def)

lemma dropWhile_none: "\<forall>c \<in> set s. \<not> P c \<Longrightarrow> dropWhile P s = s"
  by (cases s) auto

lemma trim_no_ws: "\<forall>c \<in> set s. \<not> is_ws c \<Longrightarrow> trim s = s"
  by (simp add: trim_def dropWhile_none)

lemma trim_space: "\<forall>c \<in> set s. \<not> is_ws c \<Longrightarrow> trim (CHR '' '' # s) = s"
  by (simp add: trim_def dropWhile_none js_eval)

lemma strip_key:
  "CHR ''='' \<notin> set k \<Longrightarrow> CHR ''='' \<notin> set name \<Longrightarrow>
    strip_prefix (name @ ''='') (k @ ''='' @ x) = (if k = name then Some x else None)"
proof (induction name arbitrary: k)
  case Nil
  then show ?case by (cases k) auto
next
  case (Cons c name)
  then show ?case by (cases k) auto
qed

lemma find_cookie_pairs:
  assumes "\<forall>(k, v) \<in> set cs. cookie_name k" and "cookie_name name"
    and "length ts = length cs"
    and "\<forall>j < length cs. trim (ts ! j) = cookie_pair (cs ! j)"
  shows "find_cookie name ts = Inr (map_of cs name)"
  using assms
proof (induction cs arbitrary: ts)
  case (Cons c cs)
  obtain k v where c: "c = (k, v)" by force
  obtain t ts' where ts: "ts = t # ts'" using Cons.prems(3) by (cases ts) auto
  have t: "trim t = k @ ''='' @ encodeURIComponent v" using Cons.prems(4) ts c by (force simp: cookie_pair_def)
  have IH: "find_cookie name ts' = Inr (map_of cs name)"
  proof (rule Cons.IH)
    show "\<forall>j < length cs. trim (ts' ! j) = cookie_pair (cs ! j)"
    proof (intro allI impI)
      fix j assume "j < length cs"
      then show "trim (ts' ! j) = cookie_pair (cs ! j)"
        using Cons.prems(4)[rule_format, of "Suc j"] ts by simp
    qed
  qed (use Cons.prems ts in auto)
  have ne: "CHR ''='' \<notin> set k" "CHR ''='' \<notin> set name"
    using Cons.prems(1,2) c cookie_nameD(1) by (simp_all)
  show ?case using IH by (simp add: ts t c strip_key[OF ne, simplified])
qed simp

text \<open>
  C29. A cookie is read back as it was written: from a cookie string made of the encoded pairs the
  helper returns the value of the first pair with the given name, and nothing when there is none.
\<close>

theorem getCookie_reads_written:
  assumes "\<forall>(k, v) \<in> set cs. cookie_name k" and "cookie_name name"
  shows "getCookie (cookie_text cs) name = Inr (map_of cs name)"
proof (cases cs)
  case Nil
  then show ?thesis by (simp add: getCookie_def cookie_text_def)
next
  case (Cons c cs')
  let ?ts = "cookie_pair c # map (\<lambda>p. CHR '' '' # cookie_pair p) cs'"
  have safe: "\<forall>d \<in> set (cookie_pair p). d \<noteq> CHR '';'' \<and> \<not> is_ws d" if "p \<in> set cs" for p
  proof -
    obtain k v where p: "p = (k, v)" by force
    then have "cookie_name k" using that assms(1) by auto
    moreover have "\<not> is_ws CHR ''=''" by (simp add: is_ws_def)
    ultimately show ?thesis using cookie_nameD(2)[of k] encode_no_sep by (auto simp: p cookie_pair_def)
  qed
  have no: "CHR '';'' \<notin> set (cookie_pair p)" "\<forall>d \<in> set (cookie_pair p). \<not> is_ws d" if "p \<in> set cs" for p
    using safe[OF that] by blast+
  have hd: "join sep ((a # x) # xs) = a # join sep (x # xs)" for sep a x xs by (cases xs) auto
  have "join ''; '' (x # map f xs) = join '';'' (x # map (\<lambda>p. CHR '' '' # f p) xs)"
    for x xs and f :: "string \<times> string \<Rightarrow> string"
    by (induction xs arbitrary: x) (simp_all add: hd)
  then have "cookie_text cs = join '';'' ?ts" by (simp add: cookie_text_def Cons)
  moreover have "split_on '';'' (join '';'' ?ts) = ?ts"
  proof (rule split_on_join)
    show "\<forall>t \<in> set ?ts. CHR '';'' \<notin> set t"
    proof
      fix t assume "t \<in> set ?ts"
      then consider "t = cookie_pair c" | p where "p \<in> set cs'" "t = CHR '' '' # cookie_pair p" by auto
      then show "CHR '';'' \<notin> set t" using no(1) Cons by cases auto
    qed
  qed simp
  moreover have "find_cookie name ?ts = Inr (map_of cs name)"
  proof (rule find_cookie_pairs[OF assms])
    show "\<forall>j < length cs. trim (?ts ! j) = cookie_pair (cs ! j)"
    proof (intro allI impI)
      fix j assume "j < length cs"
      then show "trim (?ts ! j) = cookie_pair (cs ! j)"
        using trim_no_ws[OF no(2)] trim_space[OF no(2)] by (cases j) (simp_all add: Cons)
    qed
  qed (simp add: Cons)
  moreover have "join '';'' ?ts \<noteq> []" using Cons by (cases cs') (auto simp: cookie_pair_def)
  ultimately show ?thesis by (simp add: getCookie_def)
qed

theorem getCookie_reads_written_witness:
  "getCookie (cookie_text [(''sessionid'', ''x;1''), (''csrftoken'', ''a b'')]) ''csrftoken'' = Inr (Some ''a b'')"
  by (subst getCookie_reads_written) (auto simp: cookie_name_def query_safe_def is_ws_def is_line_end_def)

end
