(* ===== verification/Url_Params.thy ===== *)
theory Url_Params
  imports Bridge_Utils
begin

text \<open>
  Query parameters of page addresses in \<open>bridge/static/bridge/js/bridge.js\<close>: building query
  strings, reading a parameter of the address and replacing or clearing parameters by regular
  expressions. The specification is the address as a base and a list of key-value pairs.
\<close>

section \<open>Query parameters\<close>

definition encodeQueryData :: "(string \<times> string) list \<Rightarrow> string" where
  "encodeQueryData data =
     join ''&'' (map (\<lambda>(key, v). join ''='' [encodeURIComponent key, encodeURIComponent v]) data)"

fun find_param :: "string \<Rightarrow> string list \<Rightarrow> js_error + jsval" where
  "find_param sParam [] = Inr JUndef"
| "find_param sParam (v # vs) =
     (case split_on ''='' v of
        n # rest \<Rightarrow>
          if n = sParam then
            (case rest of [] \<Rightarrow> Inr (JBool True) | x # _ \<Rightarrow> map_sum id JStr (decodeURIComponent x))
          else find_param sParam vs
      | [] \<Rightarrow> find_param sParam vs)"

text \<open>\<open>search\<close> is \<open>window.location.search\<close>, with its question mark.\<close>

definition getUrlParameter :: "string \<Rightarrow> string \<Rightarrow> js_error + jsval" where
  "getUrlParameter search sParam = find_param sParam (split_on ''&'' (drop 1 search))"

text \<open>
  The first match of \<open>(key=).*?(&|$)\<close>: what precedes it, the value, and the rest of the string,
  which is empty or starts with the ampersand. The scripts put the key into the pattern as it is. The definition
  reads it as literal text, which is what the pattern does for a plain key; a key such as \<open>a.b\<close> matches
  more, and one such as \<open>(\<close> is no pattern. All keys that the scripts pass are plain.
\<close>

definition plain_key :: "string \<Rightarrow> bool" where
  "plain_key k = list_all (\<lambda>c. c \<notin> set (CHR 0x5C # ''^$.|?*+()[]{}'')) k"

fun param_split :: "string \<Rightarrow> string \<Rightarrow> (string \<times> string \<times> string) option" where
  "param_split key [] = None"
| "param_split key (c # cs) =
     (let later = map_option (\<lambda>(a, v, b). (c # a, v, b)) (param_split key cs) in
      case strip_prefix (key @ ''='') (c # cs) of
        None \<Rightarrow> later
      | Some r \<Rightarrow>
          (let v = takeWhile (\<lambda>d. d \<noteq> CHR ''&'') r in
           if list_ex is_line_end v then later
           else Some ([], v, dropWhile (\<lambda>d. d \<noteq> CHR ''&'') r)))"

text \<open>Replacement templates: \<open>$$\<close>, \<open>$&\<close>, the text before and after the match and the two groups.\<close>

fun expand_template :: "string \<Rightarrow> string \<Rightarrow> string \<Rightarrow> string \<Rightarrow> string \<Rightarrow> string \<Rightarrow> string" where
  "expand_template g1 g2 whole before after [] = []"
| "expand_template g1 g2 whole before after [c] = [c]"
| "expand_template g1 g2 whole before after (c # d # cs) =
     (if c \<noteq> CHR ''$'' then c # expand_template g1 g2 whole before after (d # cs)
      else if d = CHR ''$'' then CHR ''$'' # expand_template g1 g2 whole before after cs
      else if d = CHR ''&'' then whole @ expand_template g1 g2 whole before after cs
      else if d = CHR 0x60 then before @ expand_template g1 g2 whole before after cs
      else if d = CHR 0x27 then after @ expand_template g1 g2 whole before after cs
      else if d = CHR ''1'' then g1 @ expand_template g1 g2 whole before after cs
      else if d = CHR ''2'' then g2 @ expand_template g1 g2 whole before after cs
      else if d = CHR ''0'' \<and> cs \<noteq> [] \<and> hd cs = CHR ''1'' then g1 @ expand_template g1 g2 whole before after (tl cs)
      else if d = CHR ''0'' \<and> cs \<noteq> [] \<and> hd cs = CHR ''2'' then g2 @ expand_template g1 g2 whole before after (tl cs)
      else c # expand_template g1 g2 whole before after (d # cs))"

definition set_url_param :: "string \<Rightarrow> string \<times> string \<Rightarrow> string" where
  "set_url_param new_url kv = (case kv of (key, value) \<Rightarrow>
     if contains new_url (key @ ''='') then
       (case param_split key new_url of
          None \<Rightarrow> new_url
        | Some (a, v, b) \<Rightarrow>
            (let g1 = key @ ''=''; g2 = take 1 b; after = drop 1 b in
             a @ expand_template g1 g2 (g1 @ v @ g2) a after (''$1'' @ value @ ''$2'') @ after))
     else if contains new_url ''?'' then new_url @ ''&'' @ key @ ''='' @ value
     else new_url @ ''?'' @ key @ ''='' @ value)"

definition get_url_with_get_parameters :: "string \<Rightarrow> (string \<times> string) list \<Rightarrow> string" where
  "get_url_with_get_parameters url params = foldl set_url_param url params"

definition clear_param :: "string \<Rightarrow> string \<Rightarrow> string" where
  "clear_param url get_param =
     (if contains url (get_param @ ''='') then
        (case param_split get_param url of None \<Rightarrow> url | Some (a, v, b) \<Rightarrow> a @ drop 1 b)
      else url)"

definition clear_query_params :: "string \<Rightarrow> string" where
  "clear_query_params url0 =
     (let url = foldl clear_param url0 [''page'', ''view'', ''view_id'', ''view_type''] in
      if contains url ''?'' then
        (if last url \<noteq> CHR ''&'' \<and> last url \<noteq> CHR ''?'' then url @ ''&'' else url)
      else url @ ''?'')"

section \<open>Addresses as lists of pairs\<close>

definition pair_text :: "string \<times> string \<Rightarrow> string" where
  "pair_text p = fst p @ ''='' @ snd p"

definition pre_text :: "(string \<times> string) list \<Rightarrow> string" where
  "pre_text ps = concat (map (\<lambda>p. pair_text p @ ''&'') ps)"

definition post_text :: "(string \<times> string) list \<Rightarrow> string" where
  "post_text ps = concat (map (\<lambda>p. ''&'' @ pair_text p) ps)"

definition mk_url :: "string \<Rightarrow> (string \<times> string) list \<Rightarrow> string" where
  "mk_url base ps = (case ps of [] \<Rightarrow> base | p # qs \<Rightarrow> base @ ''?'' @ pair_text p @ post_text qs)"

text \<open>The first pair with the key gets the value; a new key goes to the end.\<close>

fun set_param :: "(string \<times> string) list \<Rightarrow> string \<times> string \<Rightarrow> (string \<times> string) list" where
  "set_param [] kv = [kv]"
| "set_param (p # ps) kv = (if fst p = fst kv then kv # ps else p # set_param ps kv)"

fun del_param :: "string \<Rightarrow> (string \<times> string) list \<Rightarrow> (string \<times> string) list" where
  "del_param k [] = []"
| "del_param k (p # ps) = (if fst p = k then ps else p # del_param k ps)"

definition safe_text :: "string \<Rightarrow> bool" where
  "safe_text s = (\<forall>c \<in> set s. query_safe c)"

definition safe_pair :: "string \<times> string \<Rightarrow> bool" where
  "safe_pair p = (safe_text (fst p) \<and> safe_text (snd p))"

definition url_base :: "string \<Rightarrow> bool" where
  "url_base s = (\<forall>c \<in> set s. c \<noteq> CHR ''='' \<and> c \<noteq> CHR ''?'' \<and> \<not> is_line_end c)"

text \<open>No key is the end of another one: the regular expression does not look for the separator.\<close>

definition keys_apart :: "string set \<Rightarrow> bool" where
  "keys_apart K = (\<forall>a \<in> K. \<forall>b \<in> K. suffix a b \<longrightarrow> a = b)"

lemma separators_not_line_ends [simp]:
  "\<not> is_line_end CHR ''?''" "\<not> is_line_end CHR ''&''" "\<not> is_line_end CHR ''=''"
  by (simp_all add: is_line_end_def)

lemma safe_textD:
  assumes "safe_text s"
  shows "CHR ''='' \<notin> set s" "CHR ''&'' \<notin> set s" "CHR ''?'' \<notin> set s" "CHR ''$'' \<notin> set s"
    "\<forall>c \<in> set s. \<not> is_line_end c"
proof -
  have "\<not> query_safe CHR ''=''" "\<not> query_safe CHR ''&''" "\<not> query_safe CHR ''?''" "\<not> query_safe CHR ''$''"
    by (simp_all add: query_safe_def)
  moreover have "query_safe c \<Longrightarrow> \<not> is_line_end c" for c by (simp add: query_safe_def)
  ultimately show "CHR ''='' \<notin> set s" "CHR ''&'' \<notin> set s" "CHR ''?'' \<notin> set s" "CHR ''$'' \<notin> set s"
    "\<forall>c \<in> set s. \<not> is_line_end c" using assms by (auto simp: safe_text_def)
qed

section \<open>Where the pattern matches\<close>

lemma strip_key_any:
  "CHR ''='' \<notin> set w \<Longrightarrow> CHR ''='' \<notin> set k \<Longrightarrow>
    strip_prefix (k @ ''='') (w @ CHR ''='' # r) = (if w = k then Some r else None)"
  using strip_key[of w k r] by simp

lemma param_split_step:
  assumes "CHR ''='' \<notin> set w" and "CHR ''='' \<notin> set k"
    and "\<forall>c \<in> set (takeWhile (\<lambda>d. d \<noteq> CHR ''&'') r). \<not> is_line_end c"
  shows "param_split k (w @ CHR ''='' # r) =
    (if suffix k w
     then Some (take (length w - length k) w, takeWhile (\<lambda>d. d \<noteq> CHR ''&'') r, dropWhile (\<lambda>d. d \<noteq> CHR ''&'') r)
     else map_option (\<lambda>(a, v, b). (w @ CHR ''='' # a, v, b)) (param_split k r))"
  using assms(1)
proof (induction w)
  case Nil
  then show ?case using assms(2,3) strip_key_any[of "[]" k r]
    by (auto simp: Let_def list_ex_iff)
next
  case (Cons c w)
  have sp: "strip_prefix (k @ ''='') (c # w @ CHR ''='' # r) = (if c # w = k then Some r else None)"
    using strip_key_any[of "c # w" k r] Cons.prems assms(2) by simp
  have IH: "param_split k (w @ CHR ''='' # r) =
    (if suffix k w
     then Some (take (length w - length k) w, takeWhile (\<lambda>d. d \<noteq> CHR ''&'') r, dropWhile (\<lambda>d. d \<noteq> CHR ''&'') r)
     else map_option (\<lambda>(a, v, b). (w @ CHR ''='' # a, v, b)) (param_split k r))"
    using Cons by simp
  show ?case
  proof (cases "c # w = k")
    case True
    then show ?thesis using sp assms(3) by (auto simp: Let_def list_ex_iff)
  next
    case False
    then have "suffix k (c # w) \<longleftrightarrow> suffix k w" by (auto simp: suffix_Cons)
    moreover have "suffix k w \<Longrightarrow> Suc (length w) - length k = Suc (length w - length k)"
      by (simp add: suffix_length_le Suc_diff_le)
    ultimately show ?thesis using False sp IH by (auto simp: Let_def option.map_comp comp_def case_prod_beta)
  qed
qed

lemma param_split_none: "CHR ''='' \<notin> set w \<Longrightarrow> param_split k w = None"
proof (induction w)
  case (Cons c w)
  have "strip_prefix (k @ ''='') (c # w) = None"
  proof (rule ccontr)
    assume "strip_prefix (k @ ''='') (c # w) \<noteq> None"
    then obtain r where "c # w = (k @ ''='') @ r" using strip_prefix_Some by blast
    then have "CHR ''='' \<in> set (c # w)" by (metis Un_iff append_assoc list.set_intros(1) set_append)
    with Cons.prems show False by simp
  qed
  with Cons show ?case by simp
qed simp

lemma param_split_contains:
  "param_split k s = None \<Longrightarrow> \<forall>c \<in> set s. \<not> is_line_end c \<Longrightarrow> \<not> contains s (k @ ''='')"
proof (induction s)
  case (Cons c s)
  have "strip_prefix (k @ ''='') (c # s) = None \<and> param_split k s = None"
  proof (cases "strip_prefix (k @ ''='') (c # s)")
    case (Some r)
    then have "set r \<subseteq> set (c # s)" using strip_prefix_Some by (metis set_append Un_upper2)
    then have "\<not> list_ex is_line_end (takeWhile (\<lambda>d. d \<noteq> CHR ''&'') r)"
      using Cons.prems(2) by (auto simp: list_ex_iff dest: set_takeWhileD)
    then show ?thesis using Cons.prems(1) Some by (simp add: Let_def)
  qed (use Cons.prems(1) in auto)
  with Cons show ?case
    by (auto simp: contains_sublist sublist_Cons_right prefix_def)
      (metis append_Cons append_assoc append_Nil option.distinct(1) strip_prefix_Some)
qed (simp add: contains_sublist)

lemma suffix_after_sep:
  assumes "c \<notin> set k" shows "suffix k (u @ c # w) \<longleftrightarrow> suffix k w"
proof
  assume "suffix k (u @ c # w)"
  then obtain a where a: "u @ c # w = a @ k" by (auto simp: suffix_def)
  then have "(\<exists>b. u = a @ b \<and> k = b @ c # w) \<or> (\<exists>b. a = u @ b \<and> c # w = b @ k)"
    by (auto simp: append_eq_append_conv2)
  then show "suffix k w"
    using assms by (auto simp: suffix_def) (metis append_eq_Cons_conv list.set_intros(1))
next
  assume "suffix k w"
  then show "suffix k (u @ c # w)" by (auto simp: suffix_def)
qed

lemma pre_text_simps [simp]:
  "pre_text [] = []" "pre_text (p # ps) = pair_text p @ ''&'' @ pre_text ps"
  "pre_text (ps @ qs) = pre_text ps @ pre_text qs"
  by (simp_all add: pre_text_def)

lemma post_text_simps [simp]:
  "post_text [] = []" "post_text (p # ps) = ''&'' @ pair_text p @ post_text ps"
  by (simp_all add: post_text_def)

text \<open>\<open>sep_end u\<close>: a text without an equals sign that ends in a separator.\<close>

definition sep_end :: "string \<Rightarrow> bool" where
  "sep_end u = (CHR ''='' \<notin> set u \<and> (\<exists>x c. u = x @ [c] \<and> c \<in> {CHR ''?'', CHR ''&''}))"

lemma sep_end_suffix: "sep_end u \<Longrightarrow> safe_text k \<Longrightarrow> suffix k (u @ w) \<longleftrightarrow> suffix k w"
  using safe_textD[of k] suffix_after_sep[of _ k] by (auto simp: sep_end_def)

lemma sep_endI: "safe_text v \<Longrightarrow> sep_end (v @ ''&'')" "url_base b \<Longrightarrow> sep_end (b @ ''?'')"
  using safe_textD(1)[of v] by (auto simp: sep_end_def url_base_def)

lemma value_ends:
  assumes "safe_text v"
  shows "takeWhile (\<lambda>d. d \<noteq> CHR ''&'') (v @ b) = (if b = [] \<or> hd b = CHR ''&'' then v else v @ takeWhile (\<lambda>d. d \<noteq> CHR ''&'') b)"
    "dropWhile (\<lambda>d. d \<noteq> CHR ''&'') (v @ b) = (if b = [] \<or> hd b = CHR ''&'' then b else dropWhile (\<lambda>d. d \<noteq> CHR ''&'') b)"
proof -
  have "\<forall>c \<in> set v. c \<noteq> CHR ''&''" using safe_textD(2)[OF assms] by auto
  then show "takeWhile (\<lambda>d. d \<noteq> CHR ''&'') (v @ b) = (if b = [] \<or> hd b = CHR ''&'' then v else v @ takeWhile (\<lambda>d. d \<noteq> CHR ''&'') b)"
    "dropWhile (\<lambda>d. d \<noteq> CHR ''&'') (v @ b) = (if b = [] \<or> hd b = CHR ''&'' then b else dropWhile (\<lambda>d. d \<noteq> CHR ''&'') b)"
    by (cases b; auto simp: takeWhile_append dropWhile_append)+
qed

text \<open>The pattern skips the pairs with other keys and stops at the first pair with its key.\<close>

lemma param_split_pair:
  assumes "sep_end u" "safe_text k" "safe_pair (k', v)" "b = [] \<or> hd b = CHR ''&''" "suffix k k' \<Longrightarrow> k = k'"
  shows "param_split k (u @ pair_text (k', v) @ b) =
    (if k' = k then Some (u, v, b)
     else map_option (\<lambda>(a, w, c). (u @ k' @ ''='' @ a, w, c)) (param_split k (v @ b)))"
proof -
  have v: "safe_text v" "safe_text k'" using assms(3) by (auto simp: safe_pair_def)
  have eq: "CHR ''='' \<notin> set (u @ k')" "CHR ''='' \<notin> set k"
    using assms(1) safe_textD(1)[OF v(2)] safe_textD(1)[OF assms(2)] by (auto simp: sep_end_def)
  have tw: "takeWhile (\<lambda>d. d \<noteq> CHR ''&'') (v @ b) = v" "dropWhile (\<lambda>d. d \<noteq> CHR ''&'') (v @ b) = b"
    using value_ends[OF v(1)] assms(4) by auto
  have "\<forall>c \<in> set (takeWhile (\<lambda>d. d \<noteq> CHR ''&'') (v @ b)). \<not> is_line_end c"
    unfolding tw using safe_textD(5)[OF v(1)] .
  note step = param_split_step[OF eq this, unfolded tw]
  have "suffix k (u @ k') \<longleftrightarrow> k = k'"
    using sep_end_suffix[OF assms(1,2)] assms(5) by auto
  with step show ?thesis by (auto simp: pair_text_def)
qed

lemma param_split_hit:
  assumes "sep_end u" "safe_text k" "safe_text v" "b = [] \<or> hd b = CHR ''&''"
    and "\<forall>p \<in> set xs. safe_pair p \<and> \<not> suffix k (fst p)"
  shows "param_split k (u @ pre_text xs @ pair_text (k, v) @ b) = Some (u @ pre_text xs, v, b)"
  using assms(1,5)
proof (induction xs arbitrary: u)
  case Nil
  then show ?case using assms param_split_pair[of u k k v b] by (simp add: safe_pair_def)
next
  case (Cons p xs)
  obtain k' v' where p: "p = (k', v')" by force
  have sp: "safe_pair (k', v')" "\<not> suffix k k'" using Cons.prems p by auto
  then have "sep_end (v' @ ''&'')" by (simp add: sep_endI safe_pair_def)
  from Cons.IH[OF this] have "param_split k ((v' @ ''&'') @ pre_text xs @ pair_text (k, v) @ b) =
      Some ((v' @ ''&'') @ pre_text xs, v, b)" using Cons.prems by simp
  then show ?case
    using param_split_pair[OF Cons.prems(1) assms(2) sp(1), of "''&'' @ pre_text xs @ pair_text (k, v) @ b"] sp(2)
    by (auto simp: p pair_text_def)
qed

lemma param_split_miss:
  assumes "sep_end u" "safe_text k" "\<forall>p \<in> set xs. safe_pair p \<and> \<not> suffix k (fst p)"
  shows "param_split k (u @ pre_text xs) = None"
  using assms(1,3)
proof (induction xs arbitrary: u)
  case Nil
  then show ?case by (simp add: param_split_none sep_end_def)
next
  case (Cons p xs)
  obtain k' v' where p: "p = (k', v')" by force
  have sp: "safe_pair (k', v')" "\<not> suffix k k'" using Cons.prems p by auto
  then have "sep_end (v' @ ''&'')" by (simp add: sep_endI safe_pair_def)
  from Cons.IH[OF this] have "param_split k ((v' @ ''&'') @ pre_text xs) = None" using Cons.prems by simp
  then show ?case
    using param_split_pair[OF Cons.prems(1) assms(2) sp(1), of "''&'' @ pre_text xs"] sp(2)
    by (auto simp: p)
qed

lemma param_split_Some: "param_split k s = Some (a, v, b) \<Longrightarrow> s = a @ k @ ''='' @ v @ b"
proof (induction s arbitrary: a)
  case (Cons c s)
  then show ?case
    by (auto simp: Let_def strip_prefix_Some split: option.splits if_splits)
qed simp

lemma param_split_Some_contains: "param_split k s = Some r \<Longrightarrow> contains s (k @ ''='')"
  by (cases r) (auto simp: contains_sublist sublist_def dest!: param_split_Some, blast)

section \<open>Replacing parameters\<close>

lemma mk_url_simps:
  "mk_url base [] = base"
  "mk_url base (xs @ p # ys) = (base @ ''?'') @ pre_text xs @ pair_text p @ post_text ys"
proof -
  have "pair_text q @ post_text (xs @ p # ys) = pair_text q @ ''&'' @ pre_text xs @ pair_text p @ post_text ys" for q
    by (induction xs arbitrary: q) auto
  then show "mk_url base (xs @ p # ys) = (base @ ''?'') @ pre_text xs @ pair_text p @ post_text ys"
    by (cases xs) (auto simp: mk_url_def)
qed (simp add: mk_url_def)

lemma mk_url_pre: "ps \<noteq> [] \<Longrightarrow> mk_url base ps @ ''&'' = (base @ ''?'') @ pre_text ps"
  by (cases ps rule: rev_cases) (simp_all add: mk_url_simps)

lemma post_text_hd: "post_text ys = [] \<or> hd (post_text ys) = CHR ''&''"
  by (cases ys) auto

lemma no_line_end_pre:
  "\<forall>p \<in> set xs. safe_pair p \<Longrightarrow> \<forall>c \<in> set (pre_text xs). \<not> is_line_end c"
proof (induction xs)
  case (Cons p xs)
  then have "safe_text (fst p)" "safe_text (snd p)" by (auto simp: safe_pair_def)
  then have "\<forall>c \<in> set (pair_text p). \<not> is_line_end c"
    using safe_textD(5)[of "fst p"] safe_textD(5)[of "snd p"]
    by (auto simp: pair_text_def)
  with Cons show ?case by auto
qed simp

lemma pre_text_misses:
  assumes "url_base base" "safe_text k" "\<forall>p \<in> set ps. safe_pair p \<and> \<not> suffix k (fst p)"
  shows "\<not> contains ((base @ ''?'') @ pre_text ps) (k @ ''='')"
proof (rule param_split_contains)
  show "param_split k ((base @ ''?'') @ pre_text ps) = None"
    using param_split_miss[OF sep_endI(2)[OF assms(1)] assms(2,3)] .
  show "\<forall>c \<in> set ((base @ ''?'') @ pre_text ps). \<not> is_line_end c"
  proof -
    have "\<forall>p \<in> set ps. safe_pair p" using assms(3) by blast
    from no_line_end_pre[OF this] show ?thesis using assms(1) by (simp add: ball_Un url_base_def)
  qed
qed

lemma mk_url_misses:
  assumes "url_base base" "safe_text k" "\<forall>p \<in> set ps. safe_pair p \<and> \<not> suffix k (fst p)"
  shows "\<not> contains (mk_url base ps) (k @ ''='')"
proof (cases "ps = []")
  case True
  have "CHR ''='' \<notin> set base" using assms(1) by (auto simp: url_base_def)
  then have "\<not> sublist (k @ ''='') base" by (auto simp: sublist_def)
  then show ?thesis using True by (simp add: mk_url_def contains_sublist)
next
  case False
  then show ?thesis
    using pre_text_misses[OF assms] mk_url_pre[OF False, of base]
    by (metis contains_sublist sublist_append_rightI sublist_order.order_trans)
qed

lemma expand_plain:
  "CHR ''$'' \<notin> set v \<Longrightarrow> expand_template g1 g2 w a b (v @ ''$2'') = v @ g2"
proof (induction v)
  case (Cons c v)
  then show ?case by (cases v) auto
qed simp

lemma split_first_key:
  assumes "k \<in> fst ` set ps"
  obtains xs v ys where "ps = xs @ (k, v) # ys" "k \<notin> fst ` set xs"
  using assms split_list_first_prop[of ps "\<lambda>p. fst p = k"] by (force simp: image_iff)

lemma set_param_split:
  "k \<notin> fst ` set xs \<Longrightarrow> set_param (xs @ (k, v0) # ys) (k, v) = xs @ (k, v) # ys"
  "k \<notin> fst ` set ps \<Longrightarrow> set_param ps (k, v) = ps @ [(k, v)]"
  by (induction xs; auto) (induction ps; auto)

lemma apart_not_suffix:
  assumes "keys_apart (insert k (fst ` set ps))" "k \<notin> fst ` set xs" "set xs \<subseteq> set ps" "\<forall>p \<in> set ps. safe_pair p"
  shows "\<forall>p \<in> set xs. safe_pair p \<and> \<not> suffix k (fst p)"
  using assms unfolding keys_apart_def by blast

lemma set_url_param_refines:
  assumes b: "url_base base" and ps: "\<forall>p \<in> set ps. safe_pair p" and kv: "safe_pair (k, v)"
    and apart: "keys_apart (insert k (fst ` set ps))"
  shows "set_url_param (mk_url base ps) (k, v) = mk_url base (set_param ps (k, v))"
proof (cases "k \<in> fst ` set ps")
  case True
  then obtain xs v0 ys where s: "ps = xs @ (k, v0) # ys" "k \<notin> fst ` set xs" by (rule split_first_key)
  have sk: "safe_text k" "safe_text v0" "CHR ''$'' \<notin> set v"
    using ps s kv safe_textD(4)[of v] by (auto simp: safe_pair_def)
  have "param_split k (mk_url base ps) = Some ((base @ ''?'') @ pre_text xs, v0, post_text ys)"
    unfolding s(1) mk_url_simps
    using apart_not_suffix[OF apart s(2) _ ps] s(1)
    by (intro param_split_hit[OF sep_endI(2)[OF b] sk(1,2) post_text_hd]) auto
  moreover from this have "contains (mk_url base ps) (k @ ''='')" by (rule param_split_Some_contains)
  ultimately show ?thesis
    by (simp add: set_url_param_def s(1) Let_def set_param_split(1)[OF s(2)] expand_plain[OF sk(3)])
      (simp add: mk_url_simps pair_text_def)
next
  case False
  have "safe_text k" using kv by (simp add: safe_pair_def)
  then have no: "\<not> contains (mk_url base ps) (k @ ''='')"
    using apart_not_suffix[OF apart False subset_refl ps] by (intro mk_url_misses[OF b])
  have q: "CHR ''?'' \<in> set (mk_url base ps) \<longleftrightarrow> ps \<noteq> []"
    using b by (cases ps) (auto simp: mk_url_def url_base_def)
  show ?thesis
  proof (cases "ps = []")
    case True
    then show ?thesis using no q by (simp add: set_url_param_def mk_url_def pair_text_def)
  next
    case ne: False
    have "mk_url base (ps @ [(k, v)]) = mk_url base ps @ ''&'' @ pair_text (k, v)"
      using mk_url_pre[OF ne, of base] mk_url_simps(2)[of base ps "(k, v)" "[]"] by simp
    then show ?thesis
      using no q ne by (simp add: set_url_param_def set_param_split(2)[OF False] pair_text_def)
  qed
qed

lemma keys_set_param: "fst ` set (set_param ps kv) = insert (fst kv) (fst ` set ps)"
  by (induction ps) auto

lemma safe_set_param: "\<forall>p \<in> set ps. safe_pair p \<Longrightarrow> safe_pair kv \<Longrightarrow> \<forall>p \<in> set (set_param ps kv). safe_pair p"
  by (induction ps) auto

lemma keys_apart_mono: "keys_apart K \<Longrightarrow> L \<subseteq> K \<Longrightarrow> keys_apart L"
  unfolding keys_apart_def by blast

lemma get_url_params_fold:
  assumes "url_base base" and "\<forall>p \<in> set (ps @ params). safe_pair p"
    and "keys_apart (fst ` set (ps @ params))"
  shows "get_url_with_get_parameters (mk_url base ps) params = mk_url base (foldl set_param ps params)"
  using assms(2,3)
proof (induction params arbitrary: ps)
  case (Cons kv params)
  obtain k v where kv: "kv = (k, v)" by force
  have "set_url_param (mk_url base ps) (k, v) = mk_url base (set_param ps (k, v))"
    using Cons.prems by (intro set_url_param_refines[OF assms(1)] keys_apart_mono[OF Cons.prems(2)]) (auto simp: kv)
  moreover have "get_url_with_get_parameters (mk_url base (set_param ps kv)) params
      = mk_url base (foldl set_param (set_param ps kv) params)"
  proof (rule Cons.IH)
    show "\<forall>p \<in> set (set_param ps kv @ params). safe_pair p"
      using safe_set_param[of ps kv] Cons.prems(1) by (simp add: ball_Un)
    show "keys_apart (fst ` set (set_param ps kv @ params))"
      using Cons.prems(2) by (simp add: image_Un keys_set_param)
  qed
  ultimately show ?case by (simp add: get_url_with_get_parameters_def kv)
qed (simp add: get_url_with_get_parameters_def)

text \<open>
  C2. Setting query parameters of an address by regular expressions is setting them in the list of
  key-value pairs the address stands for: the first pair with the key gets the value, a new key goes
  to the end, and nothing else changes, for keys none of which is the end of another. The keys that
  are set have no special characters of regular expressions, since the script does not escape them.
\<close>

theorem get_url_with_get_parameters_refines:
  assumes "url_base base" and "\<forall>p \<in> set (ps @ params). safe_pair p"
    and "keys_apart (fst ` set (ps @ params))" and "\<forall>p \<in> set params. plain_key (fst p)"
  shows "get_url_with_get_parameters (mk_url base ps) params = mk_url base (foldl set_param ps params)"
  using assms(1-3) by (rule get_url_params_fold)

lemma url_witness_facts:
  "url_base ''/jobs/''" "safe_pair (''page'', ''1'')" "safe_pair (''view'', ''7'')" "safe_pair (''tab'', ''x'')"
  "safe_pair (''page'', ''2'')"
  "keys_apart {''page'', ''view'', ''tab''}"
  by (simp_all add: url_base_def safe_pair_def safe_text_def query_safe_def is_line_end_def is_ws_def
      keys_apart_def suffix_def)

theorem get_url_with_get_parameters_refines_witness:
  "get_url_with_get_parameters ''/jobs/?page=1&view=7'' [(''page'', ''2''), (''tab'', ''x'')] = ''/jobs/?page=2&view=7&tab=x''"
proof -
  have "mk_url ''/jobs/'' [(''page'', ''1''), (''view'', ''7'')] = ''/jobs/?page=1&view=7''"
    by (simp add: mk_url_def pair_text_def)
  moreover have "get_url_with_get_parameters (mk_url ''/jobs/'' [(''page'', ''1''), (''view'', ''7'')]) [(''page'', ''2''), (''tab'', ''x'')]
      = mk_url ''/jobs/'' (foldl set_param [(''page'', ''1''), (''view'', ''7'')] [(''page'', ''2''), (''tab'', ''x'')])"
    using url_witness_facts
    by (intro get_url_with_get_parameters_refines) (simp_all add: insert_commute plain_key_def)
  ultimately show ?thesis by (simp add: mk_url_def pair_text_def)
qed

section \<open>Clearing parameters\<close>

lemma del_param_split:
  "k \<notin> fst ` set xs \<Longrightarrow> del_param k (xs @ (k, v) # ys) = xs @ ys"
  "k \<notin> fst ` set ps \<Longrightarrow> del_param k ps = ps"
  by (induction xs; auto) (induction ps; auto)

lemma set_del_param: "set (del_param k ps) \<subseteq> set ps"
  by (induction ps) auto

text \<open>An address while its parameters are cleared: as built, or with the separator at its end.\<close>

definition url_shape :: "string \<Rightarrow> (string \<times> string) list \<Rightarrow> string \<Rightarrow> bool" where
  "url_shape base ps u = (u = mk_url base ps \<or> u = (base @ ''?'') @ pre_text ps)"

lemma clear_param_hit:
  assumes "sep_end (base @ ''?'')" "safe_text k" "safe_text v" "b = [] \<or> hd b = CHR ''&''"
    and "\<forall>p \<in> set xs. safe_pair p \<and> \<not> suffix k (fst p)"
  shows "clear_param ((base @ ''?'') @ pre_text xs @ pair_text (k, v) @ b) k = (base @ ''?'') @ pre_text xs @ drop 1 b"
proof -
  note h = param_split_hit[OF assms]
  show ?thesis using h param_split_Some_contains[OF h] by (simp add: clear_param_def)
qed

lemma clear_param_shape:
  assumes b: "url_base base" and ps: "\<forall>p \<in> set ps. safe_pair p" and k: "safe_text k"
    and apart: "keys_apart (insert k (fst ` set ps))" and u: "url_shape base ps u"
  shows "url_shape base (del_param k ps) (clear_param u k)"
proof (cases "k \<in> fst ` set ps")
  case True
  then obtain xs v ys where s: "ps = xs @ (k, v) # ys" "k \<notin> fst ` set xs" by (rule split_first_key)
  have v: "safe_text v" using ps s(1) by (auto simp: safe_pair_def)
  have ok: "\<forall>p \<in> set xs. safe_pair p \<and> \<not> suffix k (fst p)"
    using apart_not_suffix[OF apart s(2) _ ps] s(1) by auto
  note hit = clear_param_hit[OF sep_endI(2)[OF b] k v _ ok]
  have "u = (base @ ''?'') @ pre_text xs @ pair_text (k, v) @ post_text ys \<or>
      u = (base @ ''?'') @ pre_text xs @ pair_text (k, v) @ ''&'' @ pre_text ys"
    using u by (simp add: url_shape_def s(1) mk_url_simps)
  then show ?thesis
  proof
    assume "u = (base @ ''?'') @ pre_text xs @ pair_text (k, v) @ post_text ys"
    then show ?thesis
      using hit[OF post_text_hd[of ys]] mk_url_simps(2)[of base xs _ "tl ys"]
      by (cases ys) (auto simp: url_shape_def s(1) del_param_split(1)[OF s(2)])
  next
    assume "u = (base @ ''?'') @ pre_text xs @ pair_text (k, v) @ ''&'' @ pre_text ys"
    then show ?thesis
      using hit[of "''&'' @ pre_text ys"] by (simp add: url_shape_def s(1) del_param_split(1)[OF s(2)])
  qed
next
  case False
  note ok = apart_not_suffix[OF apart False subset_refl ps]
  show ?thesis using u mk_url_misses[OF b k ok] pre_text_misses[OF b k ok]
    by (auto simp: url_shape_def clear_param_def del_param_split(2)[OF False])
qed

definition view_keys :: "string list" where
  "view_keys = [''page'', ''view'', ''view_id'', ''view_type'']"

lemma clear_params_shape:
  assumes b: "url_base base" and "\<forall>k \<in> set ks. safe_text k"
    and "\<forall>p \<in> set ps. safe_pair p" and "keys_apart (set ks \<union> fst ` set ps)" and "url_shape base ps u"
  shows "url_shape base (foldl (\<lambda>qs k. del_param k qs) ps ks) (foldl clear_param u ks)"
  using assms(2-)
proof (induction ks arbitrary: ps u)
  case (Cons k ks)
  have "url_shape base (del_param k ps) (clear_param u k)"
    using Cons.prems by (intro clear_param_shape[OF b] keys_apart_mono[OF Cons.prems(3)]) auto
  moreover have "keys_apart (set ks \<union> fst ` set (del_param k ps))"
    using set_del_param[of k ps] by (intro keys_apart_mono[OF Cons.prems(3)]) auto
  moreover have "\<forall>p \<in> set (del_param k ps). safe_pair p"
    using set_del_param[of k ps] Cons.prems(2) by blast
  ultimately show ?case using Cons.IH Cons.prems(1) by simp
qed simp

lemma last_mk_url:
  assumes "ps \<noteq> []" "\<forall>p \<in> set ps. safe_pair p"
  shows "last (mk_url base ps) \<noteq> CHR ''&''" "last (mk_url base ps) \<noteq> CHR ''?''"
proof -
  obtain xs k v where ps: "ps = xs @ [(k, v)]" using assms(1) by (metis prod.exhaust rev_exhaust)
  have v: "safe_text v" using assms(2) ps by (simp add: safe_pair_def)
  have "last (mk_url base ps) = (if v = [] then CHR ''='' else last v)"
    by (simp add: ps mk_url_simps pair_text_def)
  moreover have "v \<noteq> [] \<Longrightarrow> last v \<noteq> CHR ''&'' \<and> last v \<noteq> CHR ''?''"
    using safe_textD(2,3)[OF v] last_in_set[of v] by metis
  ultimately show "last (mk_url base ps) \<noteq> CHR ''&''" "last (mk_url base ps) \<noteq> CHR ''?''"
    by (auto split: if_splits)
qed

lemma view_keys_safe: "\<forall>k \<in> set view_keys. safe_text k"
  by (simp add: view_keys_def safe_text_def query_safe_def is_line_end_def is_ws_def)

text \<open>
  C18. Clearing an address for a new view removes the first occurrences of the page and view
  parameters and keeps all the other pairs in their order; the result ends in a separator, so that
  a pair can be appended to it.
\<close>

theorem clear_query_params_refines:
  assumes "url_base base" and "\<forall>p \<in> set ps. safe_pair p" and "keys_apart (set view_keys \<union> fst ` set ps)"
  shows "clear_query_params (mk_url base ps) = base @ ''?'' @ pre_text (foldl (\<lambda>qs k. del_param k qs) ps view_keys)"
proof -
  let ?qs = "foldl (\<lambda>qs k. del_param k qs) ps view_keys"
  let ?u = "foldl clear_param (mk_url base ps) view_keys"
  have sh: "url_shape base ?qs ?u"
    by (rule clear_params_shape[OF assms(1) view_keys_safe assms(2,3)]) (simp add: url_shape_def)
  have "set (foldl (\<lambda>qs k. del_param k qs) qs ks) \<subseteq> set qs" for qs ks
    using set_del_param by (induction ks arbitrary: qs) (simp, fastforce)
  then have safe: "\<forall>p \<in> set ?qs. safe_pair p" using assms(2) by blast
  have clear: "clear_query_params (mk_url base ps) =
      (if CHR ''?'' \<in> set ?u then (if last ?u \<noteq> CHR ''&'' \<and> last ?u \<noteq> CHR ''?'' then ?u @ ''&'' else ?u) else ?u @ ''?'')"
    by (simp add: clear_query_params_def view_keys_def Let_def)
  have q: "CHR ''?'' \<notin> set base" using assms(1) by (auto simp: url_base_def)
  from sh consider "?qs = []" "?u = base" | "?qs \<noteq> []" "?u = mk_url base ?qs" | "?u = (base @ ''?'') @ pre_text ?qs"
    by (cases "?qs = []") (auto simp: url_shape_def mk_url_simps)
  then show ?thesis
  proof cases
    case 1
    then show ?thesis using clear q by simp
  next
    case 2
    then have "CHR ''?'' \<in> set ?u" by (cases ?qs) (auto simp: mk_url_def)
    then show ?thesis using clear last_mk_url[OF 2(1) safe, of base] mk_url_pre[OF 2(1), of base] 2(2) by simp
  next
    case 3
    then have "last ?u = CHR ''?'' \<or> last ?u = CHR ''&''" by (cases ?qs rule: rev_cases) auto
    then show ?thesis using clear 3 by auto
  qed
qed

theorem clear_query_params_refines_witness:
  "clear_query_params ''/jobs/?page=1&tab=x&view=7'' = ''/jobs/?tab=x&''"
proof -
  have "mk_url ''/jobs/'' [(''page'', ''1''), (''tab'', ''x''), (''view'', ''7'')] = ''/jobs/?page=1&tab=x&view=7''"
    by (simp add: mk_url_def pair_text_def)
  moreover have "keys_apart (set view_keys \<union> fst ` set [(''page'', ''1''), (''tab'', ''x''), (''view'', ''7'')])"
    by (simp add: keys_apart_def view_keys_def suffix_def)
  ultimately show ?thesis
    using clear_query_params_refines[OF url_witness_facts(1), of "[(''page'', ''1''), (''tab'', ''x''), (''view'', ''7'')]"] url_witness_facts
    by (simp add: view_keys_def pair_text_def)
qed

section \<open>Query strings read back\<close>

lemma encode_inject: "encodeURIComponent a = encodeURIComponent b \<Longrightarrow> a = b"
  by (metis decode_encode sum.inject(2))

lemma safe_encode: "safe_text (encodeURIComponent s)"
  using encodeURIComponent_safe by (simp add: safe_text_def)

lemma find_param_pairs:
  "encodeURIComponent k = k \<Longrightarrow>
    find_param k (map (\<lambda>(a, v). join ''='' [encodeURIComponent a, encodeURIComponent v]) data)
      = Inr (case map_of data k of None \<Rightarrow> JUndef | Some v \<Rightarrow> JStr v)"
proof (induction data)
  case (Cons d data)
  obtain a v where d: "d = (a, v)" by force
  have "split_on ''='' (encodeURIComponent a @ CHR ''='' # encodeURIComponent v) = [encodeURIComponent a, encodeURIComponent v]"
    using safe_textD(1)[OF safe_encode] by (intro split_on_pair) auto
  moreover have "encodeURIComponent a = k \<longleftrightarrow> a = k" using Cons.prems encode_inject[of a k] by auto
  ultimately show ?case using Cons by (simp add: d)
qed simp

lemma query_data_read_back:
  assumes "encodeURIComponent k = k" and "k \<noteq> []"
  shows "getUrlParameter (''?'' @ encodeQueryData data) k = Inr (case map_of data k of None \<Rightarrow> JUndef | Some v \<Rightarrow> JStr v)"
proof (cases "data = []")
  case True
  then show ?thesis using assms(2) by (simp add: getUrlParameter_def encodeQueryData_def js_eval)
next
  case False
  let ?xs = "map (\<lambda>(a, v). join ''='' [encodeURIComponent a, encodeURIComponent v]) data"
  have "split_on ''&'' (join ''&'' ?xs) = ?xs"
    using False safe_textD(2)[OF safe_encode] by (intro split_on_join) auto
  then show ?thesis
    using find_param_pairs[OF assms(1), of data] by (simp add: getUrlParameter_def encodeQueryData_def)
qed

text \<open>
  C25. A query string built from a list of names and values is read back: for a name that needs no
  encoding the page gets the value of the first pair with that name, decoded, and \<open>undefined\<close> when
  there is none. Values may hold any character, delimiters included.
\<close>

theorem getUrlParameter_encodeQueryData:
  assumes "encodeURIComponent k = k" and "k \<noteq> []"
  shows "getUrlParameter (''?'' @ encodeQueryData data) k = Inr (case map_of data k of None \<Rightarrow> JUndef | Some v \<Rightarrow> JStr v)"
  using assms by (rule query_data_read_back)

theorem getUrlParameter_encodeQueryData_witness:
  "getUrlParameter (''?'' @ encodeQueryData [(''a'', ''1''), (''name'', ''x&name=y?'')]) ''name'' = Inr (JStr ''x&name=y?'')"
proof -
  have "encodeURIComponent ''name'' = ''name''"
    by (simp add: encodeURIComponent_def encode_unit_def unreserved_def Let_def)
  then show ?thesis by (subst getUrlParameter_encodeQueryData) simp_all
qed

section \<open>Parameters of an address read back\<close>

text \<open>\<open>location.search\<close>: from the question mark to the fragment.\<close>

definition location_search :: "string \<Rightarrow> string" where
  "location_search u = dropWhile (\<lambda>c. c \<noteq> CHR ''?'') (takeWhile (\<lambda>c. c \<noteq> CHR ''#'') u)"

lemma find_param_texts:
  assumes "\<forall>p \<in> set ps. safe_pair p"
  shows "find_param k (map pair_text ps) =
    (case map_of ps k of None \<Rightarrow> Inr JUndef | Some v \<Rightarrow> map_sum id JStr (decodeURIComponent v))"
  using assms
proof (induction ps)
  case (Cons p ps)
  have "split_on ''='' (pair_text p) = [fst p, snd p]"
    using safe_textD(1)[of "fst p"] safe_textD(1)[of "snd p"] Cons.prems split_on_pair[of "CHR ''=''" "fst p" "snd p"]
    by (auto simp: pair_text_def safe_pair_def)
  with Cons show ?case by (cases p) auto
qed simp

lemma search_mk_url:
  assumes "url_base base" "CHR ''#'' \<notin> set base" "\<forall>p \<in> set ps. safe_pair p" "ps \<noteq> []"
  shows "location_search (mk_url base ps) = ''?'' @ join ''&'' (map pair_text ps)"
proof -
  have hash: "CHR ''#'' \<notin> set t" if "safe_text t" for t
  proof -
    have "\<not> query_safe CHR ''#''" by (simp add: query_safe_def)
    then show ?thesis using that by (auto simp: safe_text_def)
  qed
  have eq: "mk_url base ps = base @ ''?'' @ join ''&'' (map pair_text ps)"
  proof -
    have "pair_text q @ post_text qs = join ''&'' (map pair_text (q # qs))" for q qs
      by (induction qs arbitrary: q) auto
    then show ?thesis using assms(4) by (cases ps) (auto simp: mk_url_def)
  qed
  have "CHR ''#'' \<notin> set (pair_text p)" if "p \<in> set ps" for p
    using hash[of "fst p"] hash[of "snd p"] assms(3) that by (auto simp: pair_text_def safe_pair_def)
  then have "CHR ''#'' \<notin> set (join ''&'' (map pair_text ps))"
    using set_join[of "''&''" "map pair_text ps"] by auto
  then have "takeWhile (\<lambda>c. c \<noteq> CHR ''#'') (mk_url base ps) = mk_url base ps"
    unfolding eq using assms(2) by (intro takeWhile_eq_all_conv[THEN iffD2]) auto
  moreover have "dropWhile (\<lambda>c. c \<noteq> CHR ''?'') (base @ ''?'' @ r) = ''?'' @ r" for r
    using assms(1) by (induction base) (auto simp: url_base_def)
  ultimately show ?thesis by (simp add: location_search_def eq)
qed

lemma getUrlParameter_mk_url:
  assumes "url_base base" "CHR ''#'' \<notin> set base" "\<forall>p \<in> set ps. safe_pair p" "ps \<noteq> []"
  shows "getUrlParameter (location_search (mk_url base ps)) k =
    (case map_of ps k of None \<Rightarrow> Inr JUndef | Some v \<Rightarrow> map_sum id JStr (decodeURIComponent v))"
proof -
  have "CHR ''&'' \<notin> set (pair_text p)" if "p \<in> set ps" for p
    using safe_textD(2)[of "fst p"] safe_textD(2)[of "snd p"] assms(3) that
    by (auto simp: pair_text_def safe_pair_def)
  then have "split_on ''&'' (join ''&'' (map pair_text ps)) = map pair_text ps"
    using assms(4) by (intro split_on_join) auto
  then show ?thesis
    by (simp add: getUrlParameter_def search_mk_url[OF assms] find_param_texts[OF assms(3)])
qed

lemma map_of_set_param: "map_of (set_param ps (k, v)) k' = (if k' = k then Some v else map_of ps k')"
  by (induction ps) auto

lemma set_param_nonempty: "set_param ps kv \<noteq> []"
  by (cases ps) auto

text \<open>Decimal numbers need no encoding.\<close>

lemma encode_show_nat: "encodeURIComponent (show_nat n) = show_nat n"
proof -
  have "\<forall>c \<in> set s. is_digit c \<Longrightarrow> encodeURIComponent s = s" for s
    by (induction s) (auto simp: encodeURIComponent_def encode_unit_def unreserved_def is_digit_def digit_of_def
        Let_def split: if_splits)
  then show ?thesis using show_nat_digits by blast
qed

lemma encode_show_int: "encodeURIComponent (show_int n) = show_int n"
  using encode_show_nat by (auto simp: show_int_def encodeURIComponent_def encode_unit_def unreserved_def Let_def)

end
