(* ===== verification/View_Settings.thy ===== *)
theory View_Settings
  imports Url_Params
begin

text \<open>
  The view settings of the list pages and the actions every page has, from
  \<open>bridge/static/bridge/js/bridge.js\<close>: collecting the settings of a view from its form
  (\<open>collect_view_data\<close>), the buttons of the form (\<open>set_actions_for_views\<close>), confirmation dialogs,
  uploading of jobs and marks and the file content window (the handler of document readiness).
\<close>

section \<open>Sending data\<close>

definition api_send_json :: "string \<Rightarrow> string \<Rightarrow> jsval \<Rightarrow> string \<Rightarrow> 'a page_scheme \<Rightarrow> 'a page_scheme" where
  "api_send_json url method data tag = send method url (JStr (stringify data)) tag"

definition api_upload_file :: "string \<Rightarrow> string \<Rightarrow> jsval \<Rightarrow> string \<Rightarrow> 'a page_scheme \<Rightarrow> 'a page_scheme" where
  "api_upload_file url method data tag p = send method url data tag (dimmer_on p)"

text \<open>A form with the chosen files under one field, in their order.\<close>

definition form_files :: "string list \<Rightarrow> jsval" where
  "form_files files = JObj (map (\<lambda>f. (''file'', JStr f)) files)"

section \<open>Collecting the settings of a view\<close>

text \<open>\<open>.length\<close> of a value: reading it from \<open>undefined\<close> or \<open>null\<close> throws.\<close>

fun js_length :: "jsval \<Rightarrow> js_error + nat option" where
  "js_length JUndef = Inl TypeError"
| "js_length JNull = Inl TypeError"
| "js_length (JStr s) = Inr (Some (length s))"
| "js_length (JArr xs) = Inr (Some (length xs))"
| "js_length _ = Inr None"

definition collect_checkboxes :: "string \<Rightarrow> string \<Rightarrow> 'a page_scheme \<Rightarrow> jsval" where
  "collect_checkboxes view_type data_name p =
     (let prefix = ''view_'' @ view_type @ ''__'' @ data_name @ ''__'' in
      JArr (map (\<lambda>e. JStr (replace_str prefix [] (el_id e)))
        (filter el_checked (select (id_starts ''input'' prefix) p))))"

definition list_item :: "string \<Rightarrow> 'a page_scheme \<Rightarrow> string \<Rightarrow> jsval" where
  "list_item view_type p v =
     (if starts_with v ''radio_'' then radio_val (''view_'' @ view_type @ ''__'' @ v) p
      else val_of (''view_'' @ view_type @ ''__'' @ v) p)"

text \<open>\<open>None\<close>: an empty value was met, the name is deleted from the data and the loop stops.\<close>

fun collect_list :: "string \<Rightarrow> 'a page_scheme \<Rightarrow> string list \<Rightarrow> jsval list \<Rightarrow> js_error + jsval list option" where
  "collect_list view_type p [] acc = Inr (Some acc)"
| "collect_list view_type p (v # vs) acc =
     (let x = list_item view_type p v in
      if starts_with v ''radio_'' then collect_list view_type p vs (acc @ [x])
      else bindE (js_length x) (\<lambda>n.
        if n = None \<or> n = Some 0 then Inr None else collect_list view_type p vs (acc @ [x])))"

definition data_list :: "elem \<Rightarrow> js_error + string list" where
  "data_list e = (case el_data e ''list'' of JStr s \<Rightarrow> Inr (split_on ''__'' s) | _ \<Rightarrow> Inl TypeError)"

definition collect_list_data ::
    "string \<Rightarrow> 'a page_scheme \<Rightarrow> elem \<Rightarrow> string \<Rightarrow> (string \<times> jsval) list \<Rightarrow> js_error + (string \<times> jsval) list" where
  "collect_list_data view_type p e data_name data =
     bindE (data_list e) (\<lambda>vals. bindE (collect_list view_type p vals []) (\<lambda>r.
       Inr (case r of Some xs \<Rightarrow> obj_set data_name (JArr xs) data | None \<Rightarrow> obj_del data_name data)))"

definition collect_list_null ::
    "string \<Rightarrow> 'a page_scheme \<Rightarrow> elem \<Rightarrow> string \<Rightarrow> (string \<times> jsval) list \<Rightarrow> js_error + (string \<times> jsval) list" where
  "collect_list_null view_type p e data_name data =
     bindE (data_list e) (\<lambda>vals. Inr (obj_set data_name (JArr (map (list_item view_type p) vals)) data))"

definition collect_multiselect :: "string \<Rightarrow> string \<Rightarrow> 'a page_scheme \<Rightarrow> jsval" where
  "collect_multiselect view_type data_name p =
     (case elem_by_id (''view_'' @ view_type @ ''__'' @ data_name) p of
        None \<Rightarrow> JArr [] | Some e \<Rightarrow> JArr (map (JStr \<circ> o_value) (el_opts e)))"

definition collect_input ::
    "string \<Rightarrow> 'a page_scheme \<Rightarrow> (string \<times> jsval) list \<Rightarrow> elem \<Rightarrow> js_error + (string \<times> jsval) list" where
  "collect_input view_type p data e =
     (let data_name = replace_str (''view_data_'' @ view_type @ ''__'') [] (el_id e);
          data_type = to_str (elem_val e);
          condition = (\<lambda>kind. checked (''view_condition_'' @ view_type @ ''__'' @ replace_str kind [] data_type) p) in
      if data_type = ''checkboxes'' then Inr (obj_set data_name (collect_checkboxes view_type data_name p) data)
      else if data_type = ''list'' then collect_list_data view_type p e data_name data
      else if data_type = ''list_null'' then collect_list_null view_type p e data_name data
      else if starts_with data_type ''checkboxes_if_'' then
        (if condition ''checkboxes_if_''
         then Inr (obj_set data_name (collect_checkboxes view_type data_name p) data) else Inr data)
      else if starts_with data_type ''list_if_'' then
        (if condition ''list_if_'' then collect_list_data view_type p e data_name data else Inr data)
      else if data_type = ''multiselect'' then
        Inr (obj_set data_name (collect_multiselect view_type data_name p) data)
      else Inr data)"

definition view_object :: "string \<Rightarrow> 'a page_scheme \<Rightarrow> js_error + jsval" where
  "view_object view_type p = map_sum id JObj
     (foldE (collect_input view_type p) [] (select (id_starts ''input'' (''view_data_'' @ view_type @ ''__'')) p))"

text \<open>The fields of the returned object: \<open>view\<close>, the settings as JSON, and \<open>view_type\<close>.\<close>

definition collect_view_data :: "string \<Rightarrow> 'a page_scheme \<Rightarrow> js_error + string \<times> string" where
  "collect_view_data view_type p = map_sum id (\<lambda>v. (stringify v, view_type)) (view_object view_type p)"

section \<open>Columns of a view\<close>

text \<open>
  \<open>$op.first().prev().before($op)\<close> and \<open>$op.last().next().after($op)\<close>: the selected options are moved
  together next to the neighbour of the outermost one; without a neighbour nothing moves.
\<close>

definition move_up :: "opt list \<Rightarrow> opt list" where
  "move_up os =
     (let a = takeWhile (\<lambda>q. \<not> o_selected q) os; rest = dropWhile (\<lambda>q. \<not> o_selected q) os in
      if rest = [] \<or> a = [] then os
      else butlast a @ filter o_selected rest @ [last a] @ filter (\<lambda>q. \<not> o_selected q) rest)"

definition move_down :: "opt list \<Rightarrow> opt list" where
  "move_down os =
     (let z = rev (takeWhile (\<lambda>q. \<not> o_selected q) (rev os));
          front = rev (dropWhile (\<lambda>q. \<not> o_selected q) (rev os)) in
      if front = [] \<or> z = [] then os
      else filter (\<lambda>q. \<not> o_selected q) front @ [hd z] @ filter o_selected front @ tl z)"

definition upd_opts :: "(opt list \<Rightarrow> opt list) \<Rightarrow> elem \<Rightarrow> elem" where
  "upd_opts f e = set_opts (f (el_opts e)) e"

lemma keeps_id_upd_opts [simp, intro]: "keeps_id (upd_opts f)"
  by (simp add: keeps_id_def upd_opts_def elem_ops)

section \<open>Buttons of the view form\<close>

datatype view_event =
    View_show_unsaved | View_save | View_update | View_show | View_remove | View_share | View_prefer
  | View_show_default | View_show_form | View_add_column | View_remove_column | View_move_columns_up
  | View_move_columns_down | Order_by_attr_checked | Order_by_other_checked

definition columns_id :: "string \<Rightarrow> string" where
  "columns_id view_type = ''view_'' @ view_type @ ''__columns''"

text \<open>The selected options of the list of views.\<close>

definition selected_views :: "string \<Rightarrow> 'a page_scheme \<Rightarrow> opt list" where
  "selected_views view_type p =
     (case elem_by_id (''view_list__'' @ view_type) p of
        None \<Rightarrow> [] | Some e \<Rightarrow> filter o_selected (el_opts e))"

definition view_show_unsaved :: "string \<Rightarrow> 'a page_scheme \<Rightarrow> js_error + 'a page_scheme" where
  "view_show_unsaved view_type p = map_sum id
     (\<lambda>(v, t). navigate (clear_query_params (href p) @ encodeQueryData [(''view'', v), (''view_type'', t)]) p)
     (collect_view_data view_type p)"

definition view_save :: "string \<Rightarrow> 'a page_scheme \<Rightarrow> js_error + 'a page_scheme" where
  "view_save view_type p = map_sum id
     (\<lambda>(v, t). send ''POST'' ''/users/views/''
        (JObj [(''view'', JStr v), (''type'', JStr t), (''name'', val_of (''view_name_input__'' @ view_type) p)])
        ''view_save'' p)
     (collect_view_data view_type p)"

definition view_save_success :: "string \<Rightarrow> jsval \<Rightarrow> 'a page_scheme \<Rightarrow> 'a page_scheme" where
  "view_save_success view_type resp p =
     (let o1 = new_opt (to_str (get_prop resp ''id'')) (to_str (get_prop resp ''name''));
          p1 = update_id (''view_list__'' @ view_type) (upd_opts (\<lambda>os. select_some (os @ [o1]))) p;
          p2 = update_id (''view_name_input__'' @ view_type) (set_val (JStr [])) p1 in
      success_notify (text_of (''view_save_message__'' @ view_type) p2) None p2)"

definition view_update :: "string \<Rightarrow> 'a page_scheme \<Rightarrow> js_error + 'a page_scheme" where
  "view_update view_type p =
     (let view_id = val_of (''view_list__'' @ view_type) p in
      if view_id = JStr ''default'' then Inr (err_notify (text_of (''view_default_error__'' @ view_type) p) None p)
      else map_sum id (\<lambda>(v, t). send ''PATCH'' (''/users/views/'' @ to_str view_id @ ''/'') (JObj [(''view'', JStr v)]) ''view_update'' p)
        (collect_view_data view_type p))"

definition view_update_success :: "string \<Rightarrow> 'a page_scheme \<Rightarrow> 'a page_scheme" where
  "view_update_success view_type p = success_notify (text_of (''view_save_message__'' @ view_type) p) None p"

definition view_show :: "string \<Rightarrow> 'a page_scheme \<Rightarrow> 'a page_scheme" where
  "view_show view_type p =
     navigate (clear_query_params (href p) @
       encodeQueryData [(''view_id'', to_str (val_of (''view_list__'' @ view_type) p)), (''view_type'', view_type)]) p"

definition view_remove :: "string \<Rightarrow> 'a page_scheme \<Rightarrow> 'a page_scheme" where
  "view_remove view_type p =
     send ''DELETE'' (''/users/views/'' @ to_str (val_of (''view_list__'' @ view_type) p) @ ''/'') JUndef ''view_remove'' p"

definition view_remove_success :: "string \<Rightarrow> 'a page_scheme \<Rightarrow> 'a page_scheme" where
  "view_remove_success view_type p =
     (let p1 = update_id (''view_list__'' @ view_type)
                 (upd_opts (\<lambda>os. select_some (filter (\<lambda>q. \<not> o_selected q) os))) p in
      success_notify (text_of (''view_deleted_message__'' @ view_type) p1) None p1)"

text \<open>
  \<open>selected_view\<close> is the set of selected options at the time of the click; its value and its
  \<open>shared\<close> mark are those of the first of them.
\<close>

definition view_share :: "string \<Rightarrow> 'a page_scheme \<Rightarrow> 'a page_scheme" where
  "view_share view_type p =
     (let sel = selected_views view_type p;
          view_id = (case sel of [] \<Rightarrow> JUndef | q # _ \<Rightarrow> JStr (o_value q));
          shared = (case sel of [] \<Rightarrow> JUndef | q # _ \<Rightarrow> o_shared q) in
      if view_id = JStr ''default'' then err_notify (text_of (''view_default_error__'' @ view_type) p) None p
      else send ''PATCH'' (''/users/views/'' @ to_str view_id @ ''/'')
        (JObj [(''shared'', JBool (\<not> truthy shared))]) ''view_share'' p)"

definition view_share_success :: "string \<Rightarrow> string list \<Rightarrow> jsval \<Rightarrow> 'a page_scheme \<Rightarrow> 'a page_scheme" where
  "view_share_success view_type selected_view shared p =
     (let p1 = update_id (''view_list__'' @ view_type)
          (upd_opts (map (\<lambda>q. if o_value q \<in> set selected_view then q\<lparr>o_shared := JBool (\<not> truthy shared)\<rparr> else q))) p in
      success_notify (text_of ((if truthy shared then ''view_hidden_message__'' else ''view_shared_message__'') @ view_type) p1) None p1)"

definition view_prefer :: "string \<Rightarrow> 'a page_scheme \<Rightarrow> 'a page_scheme" where
  "view_prefer view_type p =
     (let view_id = val_of (''view_list__'' @ view_type) p in
      if view_id = JStr ''default''
      then send ''DELETE'' (''/users/views/prefer-default/'' @ view_type @ ''/'') JUndef ''view_prefer'' p
      else send ''POST'' (''/users/views/'' @ to_str view_id @ ''/prefer/'') JUndef ''view_prefer'' p)"

definition view_prefer_success :: "string \<Rightarrow> 'a page_scheme \<Rightarrow> 'a page_scheme" where
  "view_prefer_success view_type p = success_notify (text_of (''view_preferred_message__'' @ view_type) p) None p"

definition view_show_default :: "'a page_scheme \<Rightarrow> 'a page_scheme" where
  "view_show_default p = navigate (butlast (clear_query_params (href p))) p"

definition view_show_form :: "string \<Rightarrow> 'a page_scheme \<Rightarrow> 'a page_scheme" where
  "view_show_form view_type p =
     (let p1 = popup_hide (''#view_show_form_btn_'' @ view_type) p; seg = ''view_form_segment_'' @ view_type in
      case elem_by_id seg p1 of
        None \<Rightarrow> p1
      | Some e \<Rightarrow> if visible p1 e then update_id seg hidden_el p1 else update_id seg shown_el p1)"

definition selected_column :: "string \<Rightarrow> 'a page_scheme \<Rightarrow> opt list" where
  "selected_column view_type p =
     (case elem_by_id (''view_available_columns_'' @ view_type) p of
        None \<Rightarrow> [] | Some e \<Rightarrow> filter o_selected (el_opts e))"

definition view_add_column :: "string \<Rightarrow> 'a page_scheme \<Rightarrow> 'a page_scheme" where
  "view_add_column view_type p =
     (let sel = selected_column view_type p;
          v = (case sel of [] \<Rightarrow> [] | q # _ \<Rightarrow> o_value q);
          t = concat (map o_text sel) in
      update_id (columns_id view_type) (upd_opts (\<lambda>os. os @ [new_opt v t])) p)"

definition view_remove_column :: "string \<Rightarrow> 'a page_scheme \<Rightarrow> 'a page_scheme" where
  "view_remove_column view_type = update_id (columns_id view_type) (upd_opts (filter (\<lambda>q. \<not> o_selected q)))"

definition set_actions_for_views :: "string \<Rightarrow> view_event \<Rightarrow> 'a page_scheme \<Rightarrow> js_error + 'a page_scheme" where
  "set_actions_for_views view_type ev p = (case ev of
       View_show_unsaved \<Rightarrow> view_show_unsaved view_type p
     | View_save \<Rightarrow> view_save view_type p
     | View_update \<Rightarrow> view_update view_type p
     | View_show \<Rightarrow> Inr (view_show view_type p)
     | View_remove \<Rightarrow> Inr (view_remove view_type p)
     | View_share \<Rightarrow> Inr (view_share view_type p)
     | View_prefer \<Rightarrow> Inr (view_prefer view_type p)
     | View_show_default \<Rightarrow> Inr (view_show_default p)
     | View_show_form \<Rightarrow> Inr (view_show_form view_type p)
     | View_add_column \<Rightarrow> Inr (view_add_column view_type p)
     | View_remove_column \<Rightarrow> Inr (view_remove_column view_type p)
     | View_move_columns_up \<Rightarrow> Inr (update_id (columns_id view_type) (upd_opts move_up) p)
     | View_move_columns_down \<Rightarrow> Inr (update_id (columns_id view_type) (upd_opts move_down) p)
     | Order_by_attr_checked \<Rightarrow> Inr (update_id (''order_attr_value_div__'' @ view_type) shown_el p)
     | Order_by_other_checked \<Rightarrow> Inr (update_id (''order_attr_value_div__'' @ view_type) hidden_el p))"

section \<open>Dialogs\<close>

text \<open>
  \<open>activate_warn_modal\<close> fills the dialog in and registers three handlers; it returns false and
  does nothing when the page has no such dialog. \<open>on_confirm\<close> is what the caller passes.
\<close>

datatype warn_event = Warn_activate | Warn_cancel | Warn_confirm

definition activate_warn_modal :: "string \<Rightarrow> string \<Rightarrow> 'a page_scheme \<Rightarrow> 'a page_scheme" where
  "activate_warn_modal warn_modal_id error_text p =
     (if \<not> exists_id warn_modal_id p then p
      else emit (Widget (''#'' @ warn_modal_id) ''modal'' [JStr ''init''])
        (update (inside warn_modal_id (by_class ''warn-text'') p)
          (set_text (if error_text = [] then ''Warning!'' else error_text)) p))"

definition warn_modal_step ::
    "string \<Rightarrow> ('a page_scheme \<Rightarrow> 'a page_scheme) option \<Rightarrow> warn_event \<Rightarrow> 'a page_scheme \<Rightarrow> 'a page_scheme" where
  "warn_modal_step warn_modal_id on_confirm ev p =
     (if \<not> exists_id warn_modal_id p then p
      else case ev of
        Warn_activate \<Rightarrow> modal warn_modal_id ''show'' p
      | Warn_cancel \<Rightarrow> modal warn_modal_id ''hide'' p
      | Warn_confirm \<Rightarrow> (case on_confirm of None \<Rightarrow> id | Some f \<Rightarrow> f) (modal warn_modal_id ''hide'' p))"

definition is_mac :: "string \<Rightarrow> string \<Rightarrow> bool" where
  "is_mac userAgent platform =
     (let digit_after = (\<lambda>p P. \<exists>i \<in> set [0..<Suc (length userAgent)].
            case strip_prefix p (drop i userAgent) of Some (c # _) \<Rightarrow> P c | _ \<Rightarrow> False);
          word = (\<lambda>c. is_digit c \<or> c = CHR ''_'' \<or> (let n = (of_char c :: nat) in 65 \<le> n \<and> n \<le> 90 \<or> 97 \<le> n \<and> n \<le> 122));
          edge = digit_after ''Edge/'' is_digit;
          ios = (\<not> edge \<and> contains userAgent ''AppleWebKit'' \<and> digit_after ''Mobile/'' word) in
      ios \<or> contains platform ''Mac'')"

section \<open>Actions of every page\<close>

text \<open>The range sliders: the preview shows the value of the input, and a change sets both.\<close>

definition init_range :: "elem \<Rightarrow> 'a page_scheme \<Rightarrow> 'a page_scheme" where
  "init_range e p =
     (let start = parseInt_val (val_of (to_str (el_data e ''input'')) p) in
      emit (Widget (''#'' @ el_id e) ''range''
          [parseInt_val (el_data e ''min''), parseInt_val (el_data e ''max''), parseInt_val (el_data e ''step''), start])
        (update_id (to_str (el_data e ''preview'')) (set_text (to_str start)) p))"

definition range_change :: "elem \<Rightarrow> jsval \<Rightarrow> 'a page_scheme \<Rightarrow> 'a page_scheme" where
  "range_change e value p =
     update_id (to_str (el_data e ''preview'')) (set_text (to_str value))
       (update_id (to_str (el_data e ''input'')) (set_val value) p)"

definition page_link_click :: "elem \<Rightarrow> 'a page_scheme \<Rightarrow> 'a page_scheme" where
  "page_link_click e p =
     navigate (get_url_with_get_parameters (href p) [(''page'', to_str (el_data e ''page-number''))]) p"

text \<open>The upload dialogs are set up only for an activator that is on the page and enabled.\<close>

definition upload_active :: "string \<Rightarrow> 'a page_scheme \<Rightarrow> bool" where
  "upload_active activator p =
     (case elem_by_id activator p of None \<Rightarrow> False | Some e \<Rightarrow> \<not> has_class ''disabled'' e)"

definition file_names_html :: "string list \<Rightarrow> string" where
  "file_names_html files = ''<ul>'' @ concat (map (\<lambda>f. ''<li>'' @ html_text f @ ''</li>'') files) @ ''</ul>''"

definition files_of :: "string \<Rightarrow> 'a page_scheme \<Rightarrow> string list" where
  "files_of i p = (case elem_by_id i p of None \<Rightarrow> [] | Some e \<Rightarrow> el_files e)"

definition upload_fileselect :: "string \<Rightarrow> string \<Rightarrow> 'a page_scheme \<Rightarrow> 'a page_scheme" where
  "upload_fileselect file_input filename p = update_id filename (set_html (file_names_html (files_of file_input p))) p"

definition upload_confirm :: "string \<Rightarrow> string \<Rightarrow> string \<Rightarrow> elem \<Rightarrow> 'a page_scheme \<Rightarrow> 'a page_scheme" where
  "upload_confirm dialog file_input tag btn p =
     (let files = files_of file_input p in
      if files = [] then err_notify (text_of ''error__no_file_chosen'' p) None p
      else send ''POST'' (to_str (el_data btn ''url'')) (form_files files) tag (dimmer_on (modal dialog ''hide'' p)))"

definition upload_jobs_confirm :: "elem \<Rightarrow> 'a page_scheme \<Rightarrow> 'a page_scheme" where
  "upload_jobs_confirm = upload_confirm ''upload_jobs_modal'' ''upload_jobs_file'' ''upload_jobs''"

definition upload_jobs_success :: "'a page_scheme \<Rightarrow> 'a page_scheme" where
  "upload_jobs_success p =
     (let p1 = dimmer_off p in
      navigate (case elem_by_id ''uploading_status_link'' p1 of
          None \<Rightarrow> ''undefined''
        | Some e \<Rightarrow> (case el_attrs e ''href'' of None \<Rightarrow> ''undefined'' | Some u \<Rightarrow> u)) p1)"

definition upload_marks_confirm :: "elem \<Rightarrow> 'a page_scheme \<Rightarrow> 'a page_scheme" where
  "upload_marks_confirm = upload_confirm ''upload_marks_modal'' ''upload_marks_file'' ''upload_marks''"

definition upload_marks_success :: "(string \<times> jsval) list \<Rightarrow> 'a page_scheme \<Rightarrow> 'a page_scheme" where
  "upload_marks_success resp p =
     (let p1 = dimmer_off p in
      if obj_has ''url'' resp then navigate (to_str (obj_get resp ''url'')) p1
      else success_notify (to_str (obj_get resp ''message'')) None p1)"

definition file_content_click :: "elem \<Rightarrow> 'a page_scheme \<Rightarrow> 'a page_scheme" where
  "file_content_click e = send ''GET'' (to_str (el_data e ''url'')) (JObj []) ''file_content''"

definition file_content_success :: "jsval \<Rightarrow> string \<Rightarrow> 'a page_scheme \<Rightarrow> 'a page_scheme" where
  "file_content_success download_url resp p =
     (let inm = (\<lambda>c. inside ''file_content_modal'' (by_class c) p);
          p1 = update (inm ''filecontent'') (set_text resp) p;
          p2 = (if truthy download_url
                then update (inm ''download-url'') (shown_el \<circ> set_attr ''href'' (to_str download_url)) p1
                else update (inm ''download-url'') hidden_el p1) in
      modal ''file_content_modal'' ''show'' p2)"

definition file_content_cancel :: "'a page_scheme \<Rightarrow> 'a page_scheme" where
  "file_content_cancel p =
     (let inm = (\<lambda>c. inside ''file_content_modal'' (by_class c) p) in
      update (inm ''download-url'') (set_attr ''href'' ''#'')
        (update (inm ''filecontent'') set_empty (modal ''file_content_modal'' ''hide'' p)))"

section \<open>Properties: the list settings\<close>

text \<open>A value that \<open>collect_view_data\<close> takes into a list.\<close>

fun filled :: "jsval \<Rightarrow> bool" where
  "filled (JStr s) = (s \<noteq> [])"
| "filled (JArr xs) = (xs \<noteq> [])"
| "filled _ = False"

lemma collect_list_spec:
  assumes "\<forall>v \<in> set vs. starts_with v ''radio_'' \<or> list_item vt p v \<notin> {JUndef, JNull}"
  shows "collect_list vt p vs acc =
    Inr (if list_all (\<lambda>v. starts_with v ''radio_'' \<or> filled (list_item vt p v)) vs
         then Some (acc @ map (list_item vt p) vs) else None)"
  using assms
proof (induction vs arbitrary: acc)
  case (Cons v vs)
  then show ?case by (cases "list_item vt p v") (auto simp: Let_def)
qed simp

text \<open>
  A list of a view's settings is collected completely or not at all: when every field of it is on
  the page, the name is set to the values of all the fields in their order if none of the text
  fields is empty, and is absent from the settings otherwise.
\<close>

theorem collect_list_all_or_nothing:
  assumes "el_data e ''list'' = JStr s"
    and "\<forall>v \<in> set (split_on ''__'' s). starts_with v ''radio_'' \<or> list_item vt p v \<notin> {JUndef, JNull}"
    and "collect_list_data vt p e name data = Inr data'"
  shows "obj_get data' name =
    (if \<forall>v \<in> set (split_on ''__'' s). starts_with v ''radio_'' \<or> filled (list_item vt p v)
     then JArr (map (list_item vt p) (split_on ''__'' s)) else JUndef)"
  using assms by (auto simp: collect_list_data_def data_list_def collect_list_spec list_all_iff split: if_splits)

definition demo_form :: page where
  "demo_form = \<lparr>doc =
     [new_elem\<lparr>el_tag := ''input'', el_id := ''view_data_1__date'', el_val := JStr ''list'', el_data := (\<lambda>_. JUndef)(''list'' := JStr ''value__type'')\<rparr>,
      new_elem\<lparr>el_tag := ''input'', el_id := ''view_1__value'', el_val := JStr ''7''\<rparr>,
      new_elem\<lparr>el_tag := ''input'', el_id := ''view_1__type'', el_val := JStr ''days''\<rparr>],
     out = [], href = ''/jobs/?page=2''\<rparr>"

lemma demo_form_items:
  "split_on ''__'' ''value__type'' = [''value'', ''type'']"
  "list_item ''1'' demo_form ''value'' = JStr ''7''" "list_item ''1'' demo_form ''type'' = JStr ''days''"
  "collect_list_data ''1'' demo_form (hd (doc demo_form)) ''date'' [] = Inr [(''date'', JArr [JStr ''7'', JStr ''days''])]"
proof -
  show s: "split_on ''__'' ''value__type'' = [''value'', ''type'']" by (simp add: js_eval)
  have i: "list_item ''1'' demo_form ''value'' = JStr ''7''" "list_item ''1'' demo_form ''type'' = JStr ''days''"
    and d: "el_data (hd (doc demo_form)) ''list'' = JStr ''value__type''"
    by (simp_all add: list_item_def demo_form_def val_of_def elem_by_id_def by_id_def new_elem_def elem_val_def starts_with_def)
  from i show "list_item ''1'' demo_form ''value'' = JStr ''7''" "list_item ''1'' demo_form ''type'' = JStr ''days''" by simp_all
  show "collect_list_data ''1'' demo_form (hd (doc demo_form)) ''date'' [] = Inr [(''date'', JArr [JStr ''7'', JStr ''days''])]"
    by (simp add: collect_list_data_def data_list_def d s i Let_def starts_with_def)
qed

theorem collect_list_all_or_nothing_witness:
  "obj_get [(''date'', JArr [JStr ''7'', JStr ''days''])] ''date'' = JArr [JStr ''7'', JStr ''days'']"
  using collect_list_all_or_nothing[OF _ _ demo_form_items(4), of "''value__type''"] demo_form_items(2,3)
  by (simp add: demo_form_items(1))

section \<open>Properties: columns\<close>

lemma filter_split_while:
  "filter P (takeWhile Q xs) @ filter P (dropWhile Q xs) = filter P xs"
  by (metis filter_append takeWhile_dropWhile_id)

lemma sel_takeWhile [simp]:
  "filter o_selected (takeWhile (\<lambda>q. \<not> o_selected q) os) = []"
  "filter (\<lambda>q. \<not> o_selected q) (takeWhile (\<lambda>q. \<not> o_selected q) os) = takeWhile (\<lambda>q. \<not> o_selected q) os"
  by (induction os) auto

lemma move_up_filters:
  "filter o_selected (move_up os) = filter o_selected os"
  "filter (\<lambda>q. \<not> o_selected q) (move_up os) = filter (\<lambda>q. \<not> o_selected q) os"
proof -
  let ?a = "takeWhile (\<lambda>q. \<not> o_selected q) os" and ?r = "dropWhile (\<lambda>q. \<not> o_selected q) os"
  have un: "\<forall>q \<in> set ?a. \<not> o_selected q" using set_takeWhileD by fast
  have s: "filter o_selected os = filter o_selected ?r"
    "filter (\<lambda>q. \<not> o_selected q) os = ?a @ filter (\<lambda>q. \<not> o_selected q) ?r"
    using filter_split_while[of o_selected "\<lambda>q. \<not> o_selected q" os]
      filter_split_while[of "\<lambda>q. \<not> o_selected q" "\<lambda>q. \<not> o_selected q" os] by simp_all
  have "?a \<noteq> [] \<Longrightarrow> filter o_selected (butlast ?a) = [] \<and> filter (\<lambda>q. \<not> o_selected q) (butlast ?a) = butlast ?a \<and> \<not> o_selected (last ?a)"
    using un by (auto simp: filter_empty_conv filter_id_conv dest: in_set_butlastD)
  moreover have "?a \<noteq> [] \<Longrightarrow> butlast ?a @ last ?a # x = ?a @ x" for x by (metis append_butlast_last_id append.assoc append_Cons append_Nil)
  ultimately show "filter o_selected (move_up os) = filter o_selected os"
    "filter (\<lambda>q. \<not> o_selected q) (move_up os) = filter (\<lambda>q. \<not> o_selected q) os"
    using s by (auto simp: move_up_def Let_def)
qed

text \<open>Moving down is moving up in the reversed list.\<close>

lemma move_down_rev: "move_down os = rev (move_up (rev os))"
proof -
  have "tl (rev t) = rev (butlast t)" for t :: "opt list" by (metis butlast_rev rev_rev_ident)
  then show ?thesis by (simp add: move_down_def move_up_def Let_def rev_filter hd_rev)
qed

lemma mset_filters: "mset xs = mset (filter P xs) + mset (filter (\<lambda>q. \<not> P q) xs)"
  by (induction xs) auto

text \<open>
  Moving columns up or down neither loses nor duplicates a column, and keeps the order of the
  selected columns among themselves and of the others among themselves.
\<close>

theorem move_columns_keep_order:
  assumes "f \<in> {move_up, move_down}"
  shows "mset (f os) = mset os \<and> filter o_selected (f os) = filter o_selected os
    \<and> filter (\<lambda>q. \<not> o_selected q) (f os) = filter (\<lambda>q. \<not> o_selected q) os"
proof -
  have "filter o_selected (f os) = filter o_selected os
    \<and> filter (\<lambda>q. \<not> o_selected q) (f os) = filter (\<lambda>q. \<not> o_selected q) os"
    using assms by (auto simp: move_up_filters move_down_rev simp flip: rev_filter)
  then show ?thesis by (metis mset_filters)
qed

theorem move_columns_keep_order_witness:
  "mset (move_up [new_opt ''a'' [], (new_opt ''b'' [])\<lparr>o_selected := True\<rparr>])
    = mset [new_opt ''a'' [], (new_opt ''b'' [])\<lparr>o_selected := True\<rparr>]"
  using move_columns_keep_order[of move_up] by simp

text \<open>
  Moving up takes an adjacent group of selected columns over the column before it, and moving
  down takes it back.
\<close>

theorem move_up_then_down:
  assumes "\<forall>q \<in> set (a @ x # z). \<not> o_selected q" and "\<forall>q \<in> set s. o_selected q" and "s \<noteq> []"
  shows "move_up (a @ x # s @ z) = a @ s @ x # z \<and> move_down (a @ s @ x # z) = a @ x # s @ z"
proof -
  have up: "move_up (a @ x # s @ z) = a @ s @ x # z"
    if "\<forall>q \<in> set (a @ x # z). \<not> o_selected q" "\<forall>q \<in> set s. o_selected q" "s \<noteq> []" for a x s z
  proof -
    have "takeWhile (\<lambda>q. \<not> o_selected q) ((a @ [x]) @ s @ z) = a @ [x]"
      "dropWhile (\<lambda>q. \<not> o_selected q) ((a @ [x]) @ s @ z) = s @ z"
      using that by (cases s; simp add: takeWhile_append dropWhile_append)+
    then show ?thesis using that by (simp add: move_up_def Let_def filter_id_conv filter_empty_conv)
  qed
  have "move_up (rev z @ x # rev s @ rev a) = rev z @ rev s @ x # rev a"
    using assms by (intro up) auto
  then have "move_down (a @ s @ x # z) = a @ x # s @ z" by (simp add: move_down_rev)
  with up[OF assms] show ?thesis by blast
qed

theorem move_up_then_down_witness:
  "move_up ([] @ new_opt ''a'' [] # [(new_opt ''b'' [])\<lparr>o_selected := True\<rparr>] @ []) = [] @ [(new_opt ''b'' [])\<lparr>o_selected := True\<rparr>] @ new_opt ''a'' [] # []"
  using move_up_then_down[of "[]" "new_opt ''a'' []" "[]" "[(new_opt ''b'' [])\<lparr>o_selected := True\<rparr>]"]
  by (simp add: new_opt_def)

end
