(* ===== verification/Source_View.thy ===== *)
theory Source_View
  imports Url_Params
begin

text \<open>
  The source code window of \<open>reports/static/reports/js/source.js\<close> (\<open>SourceProcessor\<close>): loading files,
  the selected line, references between files, the browser history and coverage data of a line. The
  fragment the server returns for a file is given by its lines and the elements the script looks up.
\<close>

section \<open>State\<close>

record src_line =
  sl_num :: int
  sl_selected :: bool
  sl_popup :: bool
  sl_func_cov :: "int option"
  sl_line_cov :: "int option"

record fragment =
  fr_lines :: "src_line list"
  fr_not_found :: bool
  fr_cov_url :: "string option"
  fr_legend :: "string option"
  fr_files :: "(string \<times> string) list"

definition empty_fragment :: fragment where
  "empty_fragment = \<lparr>fr_lines = [], fr_not_found = False, fr_cov_url = None, fr_legend = None, fr_files = []\<rparr>"

text \<open>
  \<open>sv_gen\<close> counts the contents of the container, so that an element held by a callback is told from
  an element of a newer content with the same line number; \<open>sv_selected\<close> is \<open>selected_line\<close>.
\<close>

record source_page = page +
  sv_content :: fragment
  sv_gen :: nat
  sv_title :: string
  sv_selected :: "(nat \<times> int) option"
  sv_cov_data_url :: "string option"
  sv_url :: string
  sv_legend :: "string option"
  sv_data_html :: string
  sv_data_names :: "(string \<times> bool) list"
  sv_data_values :: "(string \<times> bool) list"
  sv_refs_line :: "int option"
  sv_decl_line :: "int option"
  sv_line_not_found :: string
  sv_no_text :: string

text \<open>\<open>sv_legend\<close> is \<open>None\<close> on a page without a legend container, else the legend shown.\<close>

section \<open>Selected line\<close>

definition mark_line :: "nat \<Rightarrow> int \<Rightarrow> bool \<Rightarrow> 'a source_page_scheme \<Rightarrow> 'a source_page_scheme" where
  "mark_line g n b p =
     (if g = sv_gen p
      then p\<lparr>sv_content := (sv_content p)\<lparr>fr_lines :=
        map (\<lambda>l. if sl_num l = n then l\<lparr>sl_selected := b\<rparr> else l) (fr_lines (sv_content p))\<rparr>\<rparr>
      else p)"

definition unselect_line :: "'a source_page_scheme \<Rightarrow> 'a source_page_scheme" where
  "unselect_line p =
     (case sv_selected p of None \<Rightarrow> p | Some (g, n) \<Rightarrow> (mark_line g n False p)\<lparr>sv_selected := None\<rparr>)"

text \<open>\<open>select_span\<close>: \<open>None\<close> is an empty set of elements.\<close>

definition select_span :: "(nat \<times> int) option \<Rightarrow> 'a source_page_scheme \<Rightarrow> 'a source_page_scheme" where
  "select_span src_line p =
     (let p1 = unselect_line p in
      case src_line of
        Some (g, n) \<Rightarrow> (mark_line g n True p1)\<lparr>sv_selected := Some (g, n)\<rparr>
      | None \<Rightarrow> err_notify (sv_line_not_found p1) None p1)"

definition find_line :: "int \<Rightarrow> 'a source_page_scheme \<Rightarrow> (nat \<times> int) option" where
  "find_line line p =
     (if line \<in> sl_num ` set (fr_lines (sv_content p)) then Some (sv_gen p, line) else None)"

definition select_line :: "int \<Rightarrow> 'a source_page_scheme \<Rightarrow> 'a source_page_scheme" where
  "select_line line p = select_span (find_line line p) p"

section \<open>Loading files\<close>

definition preserveState :: "int \<Rightarrow> string \<Rightarrow> 'a source_page_scheme \<Rightarrow> 'a source_page_scheme" where
  "preserveState line filename p =
     (let state_url = get_url_with_get_parameters (href p)
            [(''source'', encodeURIComponent filename), (''sourceline'', show_int line)] in
      emit (PushState (JArr [JStr filename, JNum line]) state_url) (p\<lparr>href := state_url\<rparr>))"

definition clear_container :: "'a source_page_scheme \<Rightarrow> 'a source_page_scheme" where
  "clear_container p = p\<lparr>sv_content := empty_fragment, sv_gen := Suc (sv_gen p)\<rparr>"

definition get_source :: "int \<Rightarrow> string \<Rightarrow> bool \<Rightarrow> 'a source_page_scheme \<Rightarrow> 'a source_page_scheme" where
  "get_source line filename save_history p =
     (let p1 = (if save_history then preserveState line filename p else p) in
      if filename = sv_title p1 then
        (if \<not> fr_not_found (sv_content p1) then select_line line p1 else p1)
      else
        send ''GET'' (sv_url p1)
          (JObj [(''file_name'', JStr (encodeURIComponent filename)), (''with_legend'', JBool (sv_legend p1 \<noteq> None))])
          ''get_source'' (clear_container (update_id ''source_code_dimmer'' (add_class ''active'') p1)))"

text \<open>What \<open>refresh\<close> does besides registering handlers.\<close>

definition refresh :: "'a source_page_scheme \<Rightarrow> 'a source_page_scheme" where
  "refresh p =
     (let p1 = p\<lparr>sv_cov_data_url := fr_cov_url (sv_content p)\<rparr>;
          p2 = (if sv_cov_data_url p1 \<noteq> None \<and> sv_cov_data_url p1 \<noteq> Some []
                then update_id ''no_coverage_warn'' hidden_el p1
                else update_id ''no_coverage_warn'' shown_el p1) in
      case (sv_legend p2, fr_legend (sv_content p2)) of
        (Some _, Some l) \<Rightarrow> p2\<lparr>sv_legend := Some l\<rparr>
      | _ \<Rightarrow> p2)"

definition get_source_success ::
    "int \<Rightarrow> string \<Rightarrow> fragment \<Rightarrow> 'a source_page_scheme \<Rightarrow> 'a source_page_scheme" where
  "get_source_success line filename resp p =
     (let p1 = emit (Widget ''title'' ''popup'' [JStr filename]) (p\<lparr>sv_selected := None, sv_title := filename\<rparr>);
          p2 = update_id ''source_code_dimmer'' (remove_class ''active'') p1;
          p3 = p2\<lparr>sv_content := resp, sv_gen := Suc (sv_gen p2)\<rparr> in
      if \<not> fr_not_found (sv_content p3) then refresh (select_line line p3) else p3)"

text \<open>The state of a history entry: file name and line; an entry without state goes further back.\<close>

definition popstate :: "(string \<times> int) option \<Rightarrow> 'a source_page_scheme \<Rightarrow> 'a source_page_scheme" where
  "popstate state p =
     (case state of
        Some (filename, line) \<Rightarrow> get_source line filename False p
      | None \<Rightarrow> emit (Widget ''history'' ''back'' []) p)"

section \<open>References\<close>

text \<open>\<open>cb\<close> is \<open>ref_click_callback\<close>.\<close>

definition ref_link_click ::
    "('a source_page_scheme \<Rightarrow> 'a source_page_scheme) \<Rightarrow> int \<Rightarrow> int \<Rightarrow> string
      \<Rightarrow> 'a source_page_scheme \<Rightarrow> 'a source_page_scheme" where
  "ref_link_click cb currline line filename p =
     get_source line filename True (cb (preserveState currline (sv_title p) p))"

text \<open>A link to a definition: no file index means the current file.\<close>

definition ref_to_click ::
    "('a source_page_scheme \<Rightarrow> 'a source_page_scheme) \<Rightarrow> int \<Rightarrow> int \<Rightarrow> string option
      \<Rightarrow> 'a source_page_scheme \<Rightarrow> 'a source_page_scheme" where
  "ref_to_click cb current_line line file_index p =
     (let p1 = cb p; current_file = sv_title p1; p2 = preserveState current_line current_file p1;
          file_name = (case file_index of
              None \<Rightarrow> current_file
            | Some i \<Rightarrow> concat (map snd (filter (\<lambda>f. fst f = i) (fr_files (sv_content p2))))) in
      get_source line file_name True p2)"

definition show_references :: "int \<Rightarrow> 'a source_page_scheme \<Rightarrow> 'a source_page_scheme" where
  "show_references activator_line p = p\<lparr>sv_refs_line := Some activator_line\<rparr>"

definition show_declarations :: "int \<Rightarrow> 'a source_page_scheme \<Rightarrow> 'a source_page_scheme" where
  "show_declarations activator_line p = p\<lparr>sv_decl_line := Some activator_line\<rparr>"

text \<open>The number of executions of a line or function, shown while the mouse is over it.\<close>

definition line_mouse :: "bool \<Rightarrow> int \<Rightarrow> 'a source_page_scheme \<Rightarrow> 'a source_page_scheme" where
  "line_mouse enter n p = p\<lparr>sv_content := (sv_content p)\<lparr>fr_lines :=
     map (\<lambda>l. if sl_num l = n then l\<lparr>sl_popup := enter\<rparr> else l) (fr_lines (sv_content p))\<rparr>\<rparr>"

section \<open>Coverage data of a line\<close>

definition cov_data_click :: "int \<Rightarrow> 'a source_page_scheme \<Rightarrow> 'a source_page_scheme" where
  "cov_data_click line p =
     (case sv_cov_data_url p of
        None \<Rightarrow> p
      | Some u \<Rightarrow>
          if u = [] then p
          else send ''GET'' u
            (JObj [(''file_name'', JStr (encodeURIComponent (sv_title p))), (''line'', JStr (show_int line))])
            ''cov_data'' (unselect_line p))"

definition data_name_click :: "string \<Rightarrow> 'a source_page_scheme \<Rightarrow> 'a source_page_scheme" where
  "data_name_click name p =
     (if (name, True) \<in> set (sv_data_names p) then p
      else p\<lparr>sv_data_names := map (\<lambda>(n, _). (n, n = name)) (sv_data_names p),
             sv_data_values := map (\<lambda>(n, _). (n, n = name)) (sv_data_values p)\<rparr>)"

text \<open>\<open>span\<close>: the line that was clicked, as it was in the container then.\<close>

definition cov_data_success ::
    "nat \<times> int \<Rightarrow> string \<times> string list \<times> string list \<Rightarrow> 'a source_page_scheme \<Rightarrow> 'a source_page_scheme" where
  "cov_data_success span resp p =
     (case resp of (html, names, vals) \<Rightarrow>
        (let p1 = select_span (Some span) p;
             p2 = p1\<lparr>sv_data_html := html, sv_data_names := map (\<lambda>n. (n, False)) names,
                     sv_data_values := map (\<lambda>n. (n, True)) vals\<rparr> in
         case names of [] \<Rightarrow> p2 | n # _ \<Rightarrow> data_name_click n p2))"

definition cov_data_fail :: "string \<Rightarrow> 'a source_page_scheme \<Rightarrow> 'a source_page_scheme" where
  "cov_data_fail text p = p\<lparr>sv_data_html := text, sv_data_names := [], sv_data_values := []\<rparr>"

section \<open>Marking a word\<close>

definition markSelection :: "string \<Rightarrow> 'a source_page_scheme \<Rightarrow> string option \<times> 'a source_page_scheme" where
  "markSelection selection p =
     (let p1 = emit (Widget ''.SrcCode'' ''unmark'' []) p in
      case filter (\<lambda>w. w \<noteq> []) (split_ws selection) of
        [] \<Rightarrow> (None, err_notify (sv_no_text p1) None p1)
      | w # _ \<Rightarrow> (Some w, emit (Widget ''.SrcCode'' ''mark'' [JStr w]) p1))"

section \<open>Events\<close>

datatype source_event =
    Get_source int string bool
  | Source_loaded int string fragment
  | Popstate "(string \<times> int) option"
  | Ref_link int int string
  | Ref_to int int "string option"
  | Show_refs int
  | Show_decls int
  | Line_mouse bool int
  | Cov_data int
  | Cov_loaded "nat \<times> int" "string \<times> string list \<times> string list"
  | Cov_failed string
  | Data_name string
  | Mark string

definition source_step ::
    "('a source_page_scheme \<Rightarrow> 'a source_page_scheme) \<Rightarrow> source_event
      \<Rightarrow> 'a source_page_scheme \<Rightarrow> 'a source_page_scheme" where
  "source_step cb ev p = (case ev of
       Get_source line file save \<Rightarrow> get_source line file save p
     | Source_loaded line file resp \<Rightarrow> get_source_success line file resp p
     | Popstate s \<Rightarrow> popstate s p
     | Ref_link cur line file \<Rightarrow> ref_link_click cb cur line file p
     | Ref_to cur line i \<Rightarrow> ref_to_click cb cur line i p
     | Show_refs n \<Rightarrow> show_references n p
     | Show_decls n \<Rightarrow> show_declarations n p
     | Line_mouse b n \<Rightarrow> line_mouse b n p
     | Cov_data n \<Rightarrow> cov_data_click n p
     | Cov_loaded s r \<Rightarrow> cov_data_success s r p
     | Cov_failed t \<Rightarrow> cov_data_fail t p
     | Data_name n \<Rightarrow> data_name_click n p
     | Mark s \<Rightarrow> snd (markSelection s p))"

section \<open>The highlighted line\<close>

definition src_ok :: "'a source_page_scheme \<Rightarrow> bool" where
  "src_ok p = list_all (\<lambda>l. sl_selected l \<longleftrightarrow> sv_selected p = Some (sv_gen p, sl_num l)) (fr_lines (sv_content p))"

text \<open>The server returns files without a highlighted line.\<close>

fun fresh_event :: "source_event \<Rightarrow> bool" where
  "fresh_event (Source_loaded _ _ resp) = list_all (\<lambda>l. \<not> sl_selected l) (fr_lines resp)"
| "fresh_event _ = True"

lemma src_ok_cong:
  "sv_content p' = sv_content p \<Longrightarrow> sv_gen p' = sv_gen p \<Longrightarrow> sv_selected p' = sv_selected p \<Longrightarrow> src_ok p' = src_ok p"
  by (simp add: src_ok_def)

text \<open>The operations of the page itself do not touch the source window.\<close>

lemma source_frame [simp]:
  "sv_content (emit x p) = sv_content p" "sv_gen (emit x p) = sv_gen p" "sv_selected (emit x p) = sv_selected p"
  "sv_title (emit x p) = sv_title p" "sv_line_not_found (emit x p) = sv_line_not_found p"
  "sv_content (update_id i f p) = sv_content p" "sv_gen (update_id i f p) = sv_gen p"
  "sv_selected (update_id i f p) = sv_selected p" "sv_title (update_id i f p) = sv_title p"
  "sv_legend (update_id i f p) = sv_legend p" "sv_cov_data_url (update_id i f p) = sv_cov_data_url p"
  by (simp_all add: emit_def update_id_def)

lemma source_frame_calls [simp]:
  "sv_content (send m u d t p) = sv_content p" "sv_gen (send m u d t p) = sv_gen p"
  "sv_selected (send m u d t p) = sv_selected p" "sv_title (send m u d t p) = sv_title p"
  "sv_content (err_notify s dur p) = sv_content p" "sv_gen (err_notify s dur p) = sv_gen p"
  "sv_selected (err_notify s dur p) = sv_selected p" "sv_title (err_notify s dur p) = sv_title p"
  by (simp_all add: send_def err_notify_def)

lemma src_ok_frame [simp]:
  "src_ok (emit x p) = src_ok p" "src_ok (update_id i f p) = src_ok p"
  "src_ok (send m u d t p) = src_ok p" "src_ok (err_notify s dur p) = src_ok p"
  by (simp_all cong: src_ok_cong add: src_ok_def)

lemma unselect_line_ok: "src_ok p \<Longrightarrow> src_ok (unselect_line p)"
  by (auto simp: src_ok_def unselect_line_def mark_line_def list.pred_map comp_def
      elim: list.pred_mono_strong split: option.splits)

lemma unselect_line_none: "sv_selected (unselect_line p) = None"
  by (auto simp: unselect_line_def split: option.splits)

lemma unselect_line_keeps [simp]: "sv_gen (unselect_line p) = sv_gen p" "sv_title (unselect_line p) = sv_title p"
  by (auto simp: unselect_line_def mark_line_def split: option.splits)

lemma mark_line_ok:
  "sv_selected q = None \<Longrightarrow> src_ok q \<Longrightarrow> src_ok ((mark_line g n True q)\<lparr>sv_selected := Some (g, n)\<rparr>)"
  by (cases "g = sv_gen q") (auto simp: src_ok_def mark_line_def list.pred_map comp_def elim: list.pred_mono_strong)

lemma select_span_ok: "src_ok p \<Longrightarrow> src_ok (select_span s p)"
  by (simp add: select_span_def Let_def mark_line_ok unselect_line_ok unselect_line_none split: option.splits prod.splits)

lemma select_line_ok: "src_ok p \<Longrightarrow> src_ok (select_line n p)"
  by (simp add: select_line_def select_span_ok)

lemma preserveState_ok [simp]:
  "src_ok (preserveState l f p) = src_ok p" "sv_title (preserveState l f p) = sv_title p"
  "sv_content (preserveState l f p) = sv_content p" "sv_gen (preserveState l f p) = sv_gen p"
  "sv_selected (preserveState l f p) = sv_selected p"
  by (simp_all add: preserveState_def Let_def src_ok_def)

lemma get_source_ok: "src_ok p \<Longrightarrow> src_ok (get_source l f b p)"
  by (auto simp: get_source_def Let_def select_line_ok clear_container_def src_ok_def[of "_\<lparr>sv_content := _, sv_gen := _\<rparr>"] empty_fragment_def)

lemma refresh_ok: "src_ok (refresh p) = src_ok p"
  by (auto simp: refresh_def Let_def src_ok_def split: option.splits)

lemma refresh_keeps:
  "sv_content (refresh p) = sv_content p" "sv_title (refresh p) = sv_title p" "out (refresh p) = out p"
  by (auto simp: refresh_def Let_def split: option.splits)

lemma get_source_success_ok:
  assumes "list_all (\<lambda>l. \<not> sl_selected l) (fr_lines resp)"
  shows "src_ok (get_source_success l f resp p)"
proof -
  have "src_ok (q\<lparr>sv_content := resp, sv_gen := g\<rparr>)" if "sv_selected q = None" for q :: "'a source_page_scheme" and g
    using assms that by (simp add: src_ok_def list_all_iff)
  then show ?thesis by (simp add: get_source_success_def Let_def refresh_ok select_line_ok)
qed

lemma data_name_click_ok [simp]: "src_ok (data_name_click n p) = src_ok p"
  by (simp add: data_name_click_def src_ok_def)

lemma source_step_ok:
  assumes cb: "\<And>p. src_ok p \<Longrightarrow> src_ok (cb p)" and "fresh_event ev" and "src_ok p"
  shows "src_ok (source_step cb ev p)"
proof (cases ev)
  case (Popstate s)
  then show ?thesis using assms by (auto simp: source_step_def popstate_def get_source_ok split: option.splits)
next
  case (Cov_loaded s r)
  have "src_ok (q\<lparr>sv_data_html := h, sv_data_names := a, sv_data_values := b\<rparr>) = src_ok q"
    for q :: "'a source_page_scheme" and h a b by (simp add: src_ok_def)
  then show ?thesis using Cov_loaded select_span_ok[OF assms(3)]
    by (auto simp: source_step_def cov_data_success_def Let_def split: prod.splits list.splits)
next
  case (Line_mouse b n)
  then show ?thesis using assms(3)
    by (auto simp: source_step_def line_mouse_def src_ok_def list.pred_map comp_def elim: list.pred_mono_strong)
next
  case (Ref_to c l i)
  then show ?thesis using assms by (simp add: source_step_def ref_to_click_def Let_def get_source_ok)
next
  case (Cov_data n)
  then show ?thesis using unselect_line_ok[OF assms(3)] assms(3)
    by (simp add: source_step_def cov_data_click_def split: option.splits)
next
  case (Cov_failed t)
  then show ?thesis using assms(3) by (simp add: source_step_def cov_data_fail_def src_ok_def)
next
  case (Show_refs n)
  then show ?thesis using assms(3) by (simp add: source_step_def show_references_def src_ok_def)
next
  case (Show_decls n)
  then show ?thesis using assms(3) by (simp add: source_step_def show_declarations_def src_ok_def)
next
  case (Mark t)
  then show ?thesis using assms(3)
    by (simp add: source_step_def markSelection_def Let_def split: list.splits)
qed (use assms in \<open>simp_all add: source_step_def get_source_ok get_source_success_ok ref_link_click_def\<close>)

section \<open>The address of the shown source\<close>

definition source_keys :: "string set" where
  "source_keys = {''source'', ''sourceline''}"

text \<open>
  C12. The address pushed to the browser history for a line of a file leads back to it: on a page
  opened at this address the parameters \<open>source\<close> and \<open>sourceline\<close> read as the file name, whatever
  characters it has, and the line number.
\<close>

theorem history_address_restores:
  assumes "url_base base" and "CHR ''#'' \<notin> set base" and "href p = mk_url base ps"
    and "\<forall>q \<in> set ps. safe_pair q" and "keys_apart (source_keys \<union> fst ` set ps)"
  shows "getUrlParameter (location_search (href (preserveState line filename p))) ''source'' = Inr (JStr filename)
    \<and> getUrlParameter (location_search (href (preserveState line filename p))) ''sourceline'' = Inr (JStr (show_int line))"
proof -
  let ?kvs = "[(''source'', encodeURIComponent filename), (''sourceline'', show_int line)]"
  have names: "safe_text ''source''" "safe_text ''sourceline''"
    by (simp_all add: safe_text_def query_safe_def is_line_end_def is_ws_def)
  have n: "safe_text (show_int line)" using safe_encode[of "show_int line"] by (simp add: encode_show_int)
  have safe: "\<forall>q \<in> set (ps @ ?kvs). safe_pair q"
    using assms(4) names n safe_encode by (auto simp: safe_pair_def)
  have u: "href (preserveState line filename p) = mk_url base (foldl set_param ps ?kvs)"
  proof -
    have "keys_apart (fst ` set (ps @ ?kvs))"
      by (rule keys_apart_mono[OF assms(5)]) (auto simp: source_keys_def)
    from get_url_params_fold[OF assms(1) safe this] show ?thesis
      by (simp add: preserveState_def Let_def assms(3) emit_def)
  qed
  have ok: "\<forall>q \<in> set (foldl set_param ps ?kvs). safe_pair q"
    using safe by (simp, intro safe_set_param) simp_all
  have "decodeURIComponent (show_int line) = Inr (show_int line)"
    using decode_encode[of "show_int line"] by (simp add: encode_show_int)
  moreover have "foldl set_param ps ?kvs \<noteq> []" by (simp add: set_param_nonempty)
  note g = getUrlParameter_mk_url[OF assms(1,2) ok this]
  ultimately show ?thesis unfolding u g by (simp add: map_of_set_param)
qed

definition demo_source :: source_page where
  "demo_source = \<lparr>doc = [], out = [], href = ''/reports/unsafe/1?view=7'', sv_content = empty_fragment, sv_gen = 0,
     sv_title = ''a.c'', sv_selected = None, sv_cov_data_url = None, sv_url = ''/src/'', sv_legend = None,
     sv_data_html = [], sv_data_names = [], sv_data_values = [], sv_refs_line = None, sv_decl_line = None,
     sv_line_not_found = ''Line not found'', sv_no_text = ''Select something first''\<rparr>"

theorem history_address_restores_witness:
  "getUrlParameter (location_search (href (preserveState 12 ''drivers/a&b.c'' demo_source))) ''source'' = Inr (JStr ''drivers/a&b.c'')"
proof -
  have "url_base ''/reports/unsafe/1''" "\<forall>q \<in> set [(''view'', ''7'')]. safe_pair q"
    by (simp_all add: url_base_def safe_pair_def safe_text_def query_safe_def is_line_end_def is_ws_def)
  moreover have "keys_apart (source_keys \<union> fst ` set [(''view'', ''7'')])"
    by (simp add: keys_apart_def source_keys_def suffix_def)
  ultimately show ?thesis
    using history_address_restores[of "''/reports/unsafe/1''" demo_source "[(''view'', ''7'')]" 12 "''drivers/a&b.c''"]
    by (simp add: demo_source_def mk_url_def pair_text_def)
qed

text \<open>
  C30. When a requested file arrives, its title and content are shown with the requested line, and only
  this line, highlighted; a file without this line is shown with a notification.
\<close>

theorem loaded_source_shows_line:
  assumes "list_all (\<lambda>l. \<not> sl_selected l) (fr_lines resp)" and "\<not> fr_not_found resp"
  shows "let q = get_source_success line file resp p in
    sv_title q = file \<and> map sl_num (fr_lines (sv_content q)) = map sl_num (fr_lines resp)
    \<and> map sl_num (filter sl_selected (fr_lines (sv_content q))) = filter (\<lambda>n. n = line) (map sl_num (fr_lines resp))
    \<and> out q = out p @ [Widget ''title'' ''popup'' [JStr file]]
        @ (if line \<in> sl_num ` set (fr_lines resp) then [] else [Notify ''error'' (sv_line_not_found p) None])"
proof -
  have fresh: "filter sl_selected (fr_lines resp) = []"
    using assms(1) by (simp add: filter_empty_conv list_all_iff)
  have sel: "map sl_num (filter sl_selected (map (\<lambda>l. if sl_num l = line then l\<lparr>sl_selected := True\<rparr> else l) ls))
      = filter (\<lambda>n. n = line) (map sl_num ls)" if "list_all (\<lambda>l. \<not> sl_selected l) ls" for ls
    using that by (induction ls) auto
  have nums: "map sl_num (map (\<lambda>l. if sl_num l = line then l\<lparr>sl_selected := True\<rparr> else l) ls) = map sl_num ls" for ls
    by (induction ls) auto
  have none: "line \<notin> sl_num ` set ls \<Longrightarrow> filter (\<lambda>n. n = line) (map sl_num ls) = []" for ls
    by (induction ls) auto
  have fp: "sv_line_not_found (update_id i f q) = sv_line_not_found q" for i f and q :: "'a source_page_scheme"
    by (simp add: update_id_def)
  show ?thesis
    using assms(2) sel[OF assms(1)] nums fresh none[of "fr_lines resp"]
    by (auto simp: get_source_success_def Let_def refresh_keeps select_line_def find_line_def select_span_def
        unselect_line_def mark_line_def fp)
qed

definition demo_fragment :: fragment where
  "demo_fragment = \<lparr>fr_lines = [\<lparr>sl_num = 1, sl_selected = False, sl_popup = False, sl_func_cov = None, sl_line_cov = None\<rparr>, \<lparr>sl_num = 2, sl_selected = False, sl_popup = False, sl_func_cov = None, sl_line_cov = None\<rparr>],
     fr_not_found = False, fr_cov_url = None, fr_legend = None, fr_files = []\<rparr>"

theorem loaded_source_shows_line_witness:
  "map sl_num (filter sl_selected (fr_lines (sv_content (get_source_success 2 ''b.c'' demo_fragment demo_source)))) = [2]"
  using loaded_source_shows_line[of demo_fragment 2 "''b.c''" demo_source]
  by (simp add: demo_fragment_def Let_def)

end
