(* ===== verification/Error_Trace.thy ===== *)
theory Error_Trace
  imports Source_View
begin

text \<open>
  The error trace window of \<open>reports/static/reports/js/ETV.js\<close>: nodes of the trace with their scopes,
  opening and closing of scopes, the eye that shows statements, selection of a line with its source
  code and assumptions. A node is addressed by its position in the trace. The opening and closing
  functions recur over nested scopes and take fuel: \<open>None\<close> stands for recursion that is too deep.
\<close>

section \<open>The trace\<close>

datatype node_type = Function_call | Action | Exit | Declarations | Declaration | Statement | Note

text \<open>
  \<open>n_scope\<close> is the number in the class \<open>scope-N\<close>, \<open>n_body\<close> the attribute \<open>data-scope\<close>. The eye icon is
  absent or has the class \<open>hide\<close> (\<open>Some True\<close>) or \<open>unhide\<close>; the enter link is absent, \<open>down\<close>
  (\<open>Some True\<close>) or \<open>right\<close>. \<open>n_hides\<close> tells a note whose text is a link to the code it stands for
  (\<open>ETV_ShowCommentCode\<close>, \<open>data-hide\<close>).
\<close>

record node =
  n_type :: node_type
  n_scope :: nat
  n_body :: "nat option"
  n_opened :: bool
  n_commented :: bool
  n_hides :: bool
  n_level :: int
  n_hidden :: bool
  n_eye :: "bool option"
  n_pink :: bool
  n_link :: "bool option"
  n_display_hidden :: bool
  n_source_hidden :: bool
  n_line :: "(jsval \<times> jsval) option"
  n_selected :: bool
  n_note_selected :: bool
  n_old_assumes :: "string list option"
  n_new_assumes :: "string list option"

type_synonym trace = "node list"

definition opens :: "node \<Rightarrow> bool" where
  "opens n = (n_type n \<in> {Function_call, Action})"

definition upd_node :: "nat \<Rightarrow> (node \<Rightarrow> node) \<Rightarrow> trace \<Rightarrow> trace" where
  "upd_node i f ns = ns[i := f (ns ! i)]"

definition upd_scope :: "nat option \<Rightarrow> (node \<Rightarrow> bool) \<Rightarrow> (node \<Rightarrow> node) \<Rightarrow> trace \<Rightarrow> trace" where
  "upd_scope b P f ns = map (\<lambda>n. if b = Some (n_scope n) \<and> P n then f n else n) ns"

definition kids :: "nat option \<Rightarrow> trace \<Rightarrow> nat list" where
  "kids b ns = filter (\<lambda>j. b = Some (n_scope (ns ! j))) [0..<length ns]"

definition n_show :: "node \<Rightarrow> node" where "n_show n = n\<lparr>n_hidden := False\<rparr>"
definition n_hide :: "node \<Rightarrow> node" where "n_hide n = n\<lparr>n_hidden := True\<rparr>"

section \<open>Statements of a scope\<close>

definition open_eye :: "node \<Rightarrow> node" where
  "open_eye n = n\<lparr>n_eye := map_option (\<lambda>_. True) (n_eye n), n_display_hidden := True, n_source_hidden := False\<rparr>"

definition close_eye :: "node \<Rightarrow> node" where
  "close_eye n = n\<lparr>n_eye := map_option (\<lambda>_. False) (n_eye n), n_display_hidden := False, n_source_hidden := True\<rparr>"

definition show_display :: "nat \<Rightarrow> trace \<Rightarrow> trace" where
  "show_display i ns0 =
     (let ns = upd_node i open_eye ns0; n = ns ! i in
      if opens n \<and> n_opened n then
        upd_scope (n_body n) (\<lambda>m. n_type m = Note) n_show
          (upd_scope (n_body n) (\<lambda>m. n_type m \<in> {Statement, Declaration} \<and> \<not> n_commented m) n_show ns)
      else if n_type n = Declarations then upd_scope (n_body n) (\<lambda>m. \<not> n_commented m) n_show ns
      else ns)"

text \<open>The loop of \<open>hide_display\<close>; the flag is \<open>prev_note_shown\<close>.\<close>

fun hide_statements :: "nat option \<Rightarrow> bool \<Rightarrow> trace \<Rightarrow> trace" where
  "hide_statements b prev [] = []"
| "hide_statements b prev (n # ns) =
     (if b = Some (n_scope n) then
        (if n_type n \<in> {Statement, Declaration}
         then (if prev then n else n_hide n) # hide_statements b False ns
         else if n_type n = Note
         then (if n_level n > 1 then n_hide n # hide_statements b False ns else n # hide_statements b True ns)
         else n # hide_statements b False ns)
      else n # hide_statements b prev ns)"

definition hide_display :: "nat \<Rightarrow> trace \<Rightarrow> trace" where
  "hide_display i ns0 =
     (let ns = upd_node i close_eye ns0; n = ns ! i in
      if opens n \<and> n_opened n then hide_statements (n_body n) False ns
      else if n_type n = Declarations then upd_scope (n_body n) (\<lambda>_. True) n_hide ns
      else ns)"

section \<open>Opening and closing scopes\<close>

definition open_scope :: "node \<Rightarrow> node" where
  "open_scope n = (if \<not> n_opened n then n\<lparr>n_opened := True, n_link := map_option (\<lambda>_. True) (n_link n)\<rparr> else n)"

definition close_scope :: "node \<Rightarrow> node" where
  "close_scope n = (if n_opened n then n\<lparr>n_opened := False, n_link := map_option (\<lambda>_. False) (n_link n)\<rparr> else n)"

text \<open>A call or an action of an opened scope is shown, unless only its note is to be shown.\<close>

definition show_kid :: "nat \<Rightarrow> trace \<Rightarrow> trace" where
  "show_kid j ns = (if \<not> n_commented (ns ! j) \<or> n_opened (ns ! j) then upd_node j n_show ns else ns)"

fun show_scope :: "nat \<Rightarrow> nat \<Rightarrow> trace \<Rightarrow> trace option"
  and show_kids :: "nat \<Rightarrow> nat list \<Rightarrow> trace \<Rightarrow> trace option" where
  "show_scope 0 i ns = None"
| "show_scope (Suc fuel) i ns =
     (let ns1 = upd_node i open_scope ns in
      map_option (show_display i) (show_kids fuel (kids (n_body (ns1 ! i)) ns1) ns1))"
| "show_kids fuel [] ns = Some ns"
| "show_kids fuel (j # js) ns =
     (let n = ns ! j in
      if opens n then
        (case (if n_opened n then show_scope fuel j (show_kid j ns) else Some (show_kid j ns)) of
           None \<Rightarrow> None
         | Some ns2 \<Rightarrow> show_kids fuel js ns2)
      else if n_type n \<in> {Exit, Declarations} then show_kids fuel js (upd_node j n_show ns)
      else show_kids fuel js ns)"

fun hide_scope :: "nat \<Rightarrow> bool \<Rightarrow> bool \<Rightarrow> nat \<Rightarrow> trace \<Rightarrow> trace option"
  and hide_kids :: "nat \<Rightarrow> bool \<Rightarrow> nat list \<Rightarrow> trace \<Rightarrow> trace option" where
  "hide_scope 0 shift_pressed change_state i ns = None"
| "hide_scope (Suc fuel) shift_pressed change_state i ns =
     (let ns1 = hide_display i ns;
          ns2 = (if change_state then upd_node i close_scope ns1 else ns1) in
      hide_kids fuel shift_pressed (kids (n_body (ns2 ! i)) ns2) ns2)"
| "hide_kids fuel shift_pressed [] ns = Some ns"
| "hide_kids fuel shift_pressed (j # js) ns =
     (let ns1 = upd_node j n_hide ns; n = ns1 ! j in
      if opens n then
        (case hide_scope fuel shift_pressed shift_pressed j ns1 of
           None \<Rightarrow> None
         | Some ns2 \<Rightarrow> hide_kids fuel shift_pressed js ns2)
      else if n_type n = Declarations \<and> n_eye n = Some True
      then hide_kids fuel shift_pressed js (hide_display j ns1)
      else hide_kids fuel shift_pressed js ns1)"

fun show_scope_shift :: "nat \<Rightarrow> nat \<Rightarrow> trace \<Rightarrow> trace option"
  and show_kids_shift :: "nat \<Rightarrow> nat list \<Rightarrow> trace \<Rightarrow> trace option" where
  "show_scope_shift 0 i ns = None"
| "show_scope_shift (Suc fuel) i ns =
     (let ns1 = upd_node i open_scope ns in
      map_option (show_display i) (show_kids_shift fuel (kids (n_body (ns1 ! i)) ns1) ns1))"
| "show_kids_shift fuel [] ns = Some ns"
| "show_kids_shift fuel (j # js) ns =
     (let n = ns ! j in
      if opens n then
        (case show_scope_shift fuel j (upd_node j n_show ns) of
           None \<Rightarrow> None
         | Some ns2 \<Rightarrow> show_kids_shift fuel js ns2)
      else if n_type n = Exit then show_kids_shift fuel js (upd_node j n_show ns)
      else show_kids_shift fuel js ns)"

text \<open>Scopes are numbered as they are met, so the depth of nesting is below the largest number.\<close>

definition scope_bound :: "trace \<Rightarrow> nat" where
  "scope_bound ns = Suc (fold max (map n_scope ns) 0)"

definition etv_fuel :: "trace \<Rightarrow> nat" where
  "etv_fuel ns = Suc (scope_bound ns)"

section \<open>Clicks in the trace\<close>

definition enter_click :: "bool \<Rightarrow> nat \<Rightarrow> trace \<Rightarrow> trace option" where
  "enter_click shiftKey i ns =
     (if n_opened (ns ! i) then hide_scope (etv_fuel ns) shiftKey True i ns
      else if shiftKey then show_scope_shift (etv_fuel ns) i ns
      else show_scope (etv_fuel ns) i ns)"

text \<open>\<open>$('span[data-scope="N"]').first()\<close>: the first node with this body.\<close>

definition exit_click :: "bool \<Rightarrow> nat \<Rightarrow> trace \<Rightarrow> trace option" where
  "exit_click shiftKey scope ns =
     (case filter (\<lambda>i. n_body (ns ! i) = Some scope) [0..<length ns] of
        [] \<Rightarrow> Some ns
      | i # _ \<Rightarrow> hide_scope (etv_fuel ns) shiftKey True i ns)"

definition eye_click :: "nat \<Rightarrow> trace \<Rightarrow> trace" where
  "eye_click i ns = (if n_eye (ns ! i) = Some True then hide_display i ns else show_display i ns)"

definition link_click :: "nat \<Rightarrow> trace \<Rightarrow> trace option" where
  "link_click i ns = (if n_link (ns ! i) \<noteq> None then enter_click False i ns else Some ns)"

section \<open>Selecting a line\<close>

record etv_page = source_page +
  et_nodes :: trace
  et_assumptions :: "(string \<times> string) list"
  et_data :: "(bool \<times> string) list"
  et_with_data :: bool

definition unselect_nodes :: "trace \<Rightarrow> trace" where
  "unselect_nodes = map (\<lambda>n. n\<lparr>n_pink := False, n_selected := False, n_note_selected := False\<rparr>)"

definition unselect_etv_line :: "'a etv_page_scheme \<Rightarrow> 'a etv_page_scheme" where
  "unselect_etv_line p = p\<lparr>et_nodes := unselect_nodes (et_nodes p), et_data := [],
     sv_data_html := [], sv_data_names := [], sv_data_values := []\<rparr>"

definition select_node :: "nat \<Rightarrow> trace \<Rightarrow> trace" where
  "select_node i ns =
     upd_node i (\<lambda>n. n\<lparr>n_selected := True\<rparr>)
       (map (\<lambda>n. if n_body n = Some (n_scope (ns ! i)) then n\<lparr>n_pink := True\<rparr> else n) ns)"

definition assume_texts :: "bool \<Rightarrow> string list option \<Rightarrow> 'a etv_page_scheme \<Rightarrow> (bool \<times> string) list" where
  "assume_texts fresh ids p =
     (case ids of None \<Rightarrow> []
      | Some vs \<Rightarrow> concat (map (\<lambda>v. case map_of (et_assumptions p) v of None \<Rightarrow> [] | Some t \<Rightarrow> [(fresh, t)]) vs))"

definition line_click :: "nat \<Rightarrow> 'a etv_page_scheme \<Rightarrow> 'a etv_page_scheme" where
  "line_click i p0 =
     (let p1 = unselect_etv_line p0; p2 = p1\<lparr>et_nodes := select_node i (et_nodes p1)\<rparr>; n = et_nodes p2 ! i;
          p3 = (case n_line n of
                  Some (JNum l, file) \<Rightarrow>
                    if truthy file \<and> l \<noteq> 0 then get_source l (to_str file) True p2 else p2
                | _ \<Rightarrow> p2) in
      if et_with_data p3
      then p3\<lparr>et_data := et_data p3 @ assume_texts False (n_old_assumes n) p3 @ assume_texts True (n_new_assumes n) p3\<rparr>
      else p3)"

definition node_line_click :: "nat \<Rightarrow> 'a etv_page_scheme \<Rightarrow> 'a etv_page_scheme" where
  "node_line_click i p = (if n_line (et_nodes p ! i) \<noteq> None then line_click i p else p)"

definition on_nodes :: "(trace \<Rightarrow> trace option) \<Rightarrow> 'a etv_page_scheme \<Rightarrow> 'a etv_page_scheme option" where
  "on_nodes f p = map_option (\<lambda>ns. p\<lparr>et_nodes := ns\<rparr>) (f (et_nodes p))"

definition action_click :: "nat \<Rightarrow> 'a etv_page_scheme \<Rightarrow> 'a etv_page_scheme option" where
  "action_click i p = map_option (node_line_click i) (on_nodes (link_click i) p)"

definition show_comment_click :: "nat \<Rightarrow> 'a etv_page_scheme \<Rightarrow> 'a etv_page_scheme option" where
  "show_comment_click i p =
     (let j = Suc i in
      if j \<ge> length (et_nodes p) then Some p
      else if n_hidden (et_nodes p ! j)
      then map_option (node_line_click j) (on_nodes (\<lambda>ns. link_click j (upd_node j n_show ns)) p)
      else on_nodes (\<lambda>ns. map_option (upd_node j n_hide)
             (if n_opened (ns ! j) then link_click j ns else Some ns)) p)"

definition note_click :: "nat \<Rightarrow> 'a etv_page_scheme \<Rightarrow> 'a etv_page_scheme" where
  "note_click i p =
     (let p1 = (if Suc i < length (et_nodes p) then node_line_click (Suc i) p else p) in
      p1\<lparr>et_nodes := upd_node i (\<lambda>n. n\<lparr>n_note_selected := True\<rparr>) (et_nodes p1)\<rparr>)"

text \<open>What the page does when it is opened: the source named by the address or the first visible line.
  A line that is missing in the address or is no number is read as line 0 here.\<close>

definition etv_ready :: "'a etv_page_scheme \<Rightarrow> js_error + 'a etv_page_scheme" where
  "etv_ready p =
     bindE (getUrlParameter (location_search (href p)) ''source'') (\<lambda>file_name.
       bindE (getUrlParameter (location_search (href p)) ''sourceline'') (\<lambda>file_line.
         if truthy file_name then
           (let line = (case parseInt_val file_line of JNum n \<Rightarrow> n | _ \<Rightarrow> 0);
                p1 = get_source line (to_str file_name) True p in
            Inr (emit (ReplaceState (JArr [file_name, file_line]) (href p1)) p1))
         else Inr (case filter (\<lambda>i. let n = et_nodes p ! i in
                       \<not> n_hidden n \<and> (case n_line n of Some (JNum l, _) \<Rightarrow> l \<noteq> 0 | _ \<Rightarrow> False)) [0..<length (et_nodes p)] of
                     [] \<Rightarrow> p
                   | i # _ \<Rightarrow> line_click i p)))"

definition highlight_selection_click :: "string \<Rightarrow> 'a etv_page_scheme \<Rightarrow> 'a etv_page_scheme" where
  "highlight_selection_click selection p =
     (case markSelection selection (emit (Widget ''.ETV_LC'' ''unmark'' []) p) of
        (Some w, p1) \<Rightarrow> emit (Widget ''.ETV_LC'' ''mark'' [JStr w]) p1
      | (None, p1) \<Rightarrow> p1)"

section \<open>What the operations keep\<close>

definition stat :: "node \<Rightarrow> node_type \<times> nat \<times> nat option \<times> bool \<times> bool \<times> bool \<times> bool" where
  "stat n = (n_type n, n_scope n, n_body n, n_commented n, n_hides n, n_link n = None, n_eye n = None)"

definition same_stat :: "trace \<Rightarrow> trace \<Rightarrow> bool" where
  "same_stat ns ns' = (map stat ns' = map stat ns)"

lemma same_stat_refl [simp]: "same_stat ns ns"
  by (simp add: same_stat_def)

lemma same_stat_trans [trans]: "same_stat a b \<Longrightarrow> same_stat b c \<Longrightarrow> same_stat a c"
  by (simp add: same_stat_def)

lemma same_stat_length: "same_stat ns ns' \<Longrightarrow> length ns' = length ns"
  unfolding same_stat_def by (metis length_map)

lemma same_stat_nth:
  assumes "same_stat ns ns'" "i < length ns"
  shows "n_type (ns' ! i) = n_type (ns ! i)" "n_scope (ns' ! i) = n_scope (ns ! i)"
    "n_body (ns' ! i) = n_body (ns ! i)" "n_commented (ns' ! i) = n_commented (ns ! i)"
    "opens (ns' ! i) = opens (ns ! i)" "(n_link (ns' ! i) = None) = (n_link (ns ! i) = None)"
    "n_hides (ns' ! i) = n_hides (ns ! i)" "(n_eye (ns' ! i) = None) = (n_eye (ns ! i) = None)"
proof -
  have "stat (ns' ! i) = stat (ns ! i)"
    using assms same_stat_length[OF assms(1)] unfolding same_stat_def by (metis nth_map)
  then show "n_type (ns' ! i) = n_type (ns ! i)" "n_scope (ns' ! i) = n_scope (ns ! i)"
    "n_body (ns' ! i) = n_body (ns ! i)" "n_commented (ns' ! i) = n_commented (ns ! i)"
    "opens (ns' ! i) = opens (ns ! i)" "(n_link (ns' ! i) = None) = (n_link (ns ! i) = None)"
    "n_hides (ns' ! i) = n_hides (ns ! i)" "(n_eye (ns' ! i) = None) = (n_eye (ns ! i) = None)"
    by (auto simp: stat_def opens_def)
qed

lemma stat_ops [simp]:
  "stat (n_show n) = stat n" "stat (n_hide n) = stat n" "stat (open_eye n) = stat n"
  "stat (close_eye n) = stat n" "stat (open_scope n) = stat n" "stat (close_scope n) = stat n"
  by (simp_all add: stat_def n_show_def n_hide_def open_eye_def close_eye_def open_scope_def close_scope_def)

lemma map_stat_upd_node: "(\<And>n. stat (f n) = stat n) \<Longrightarrow> map stat (upd_node i f ns) = map stat ns"
  unfolding upd_node_def by (cases "i < length ns") (auto simp: map_update list_update_same_conv list_update_beyond)

lemma map_stat_upd_scope: "(\<And>n. stat (f n) = stat n) \<Longrightarrow> map stat (upd_scope b P f ns) = map stat ns"
  by (simp add: upd_scope_def)

lemma map_stat_hide_statements: "map stat (hide_statements b prev ns) = map stat ns"
  by (induction b prev ns rule: hide_statements.induct) auto

lemmas map_stat_ops = map_stat_upd_node map_stat_upd_scope map_stat_hide_statements

lemma same_stat_display [simp]: "same_stat ns (show_display i ns)" "same_stat ns (hide_display i ns)"
  by (simp_all add: same_stat_def show_display_def hide_display_def Let_def map_stat_ops)

lemma same_stat_upd [simp]:
  "same_stat ns (upd_node i n_show ns)" "same_stat ns (upd_node i n_hide ns)"
  "same_stat ns (upd_node i open_scope ns)" "same_stat ns (upd_node i close_scope ns)"
  by (simp_all add: same_stat_def map_stat_ops)

lemma show_same_stat:
  "show_scope fuel i ns = Some ns' \<Longrightarrow> same_stat ns ns'"
  "show_kids fuel js ns = Some ns' \<Longrightarrow> same_stat ns ns'"
proof (induction fuel i ns and fuel js ns arbitrary: ns' and ns' rule: show_scope_show_kids.induct)
  case (2 fuel i ns)
  then obtain z where z: "show_kids fuel (kids (n_body (upd_node i open_scope ns ! i)) (upd_node i open_scope ns)) (upd_node i open_scope ns) = Some z"
    "ns' = show_display i z" by (auto simp: Let_def)
  have "same_stat ns z" using 2(1)[OF refl z(1)] same_stat_upd(3) same_stat_trans by blast
  then show ?case using z(2) same_stat_display(1) same_stat_trans by blast
next
  case (4 fuel j js ns)
  show ?case
  proof (cases "opens (ns ! j)")
    case True
    let ?ns1 = "show_kid j ns"
    have s1: "same_stat ns ?ns1" by (simp add: show_kid_def)
    obtain ns2 where ns2: "(if n_opened (ns ! j) then show_scope fuel j ?ns1 else Some ?ns1) = Some ns2"
      "show_kids fuel js ns2 = Some ns'" using 4(5) True by (auto simp: Let_def split: option.splits)
    have "same_stat ?ns1 ns2" using ns2(1) 4(1)[OF refl True] by (auto split: if_splits)
    moreover have "same_stat ns2 ns'" using 4(2)[OF refl True ns2(1) ns2(2)] .
    ultimately show ?thesis using s1 same_stat_trans by blast
  next
    case False
    then show ?thesis using 4(3,4)[OF refl False] 4(5)
      by (auto simp: Let_def intro: same_stat_trans[OF same_stat_upd(1)] split: if_splits)
  qed
qed auto

lemma shift_same_stat:
  "show_scope_shift fuel i ns = Some ns' \<Longrightarrow> same_stat ns ns'"
  "show_kids_shift fuel js ns = Some ns' \<Longrightarrow> same_stat ns ns'"
proof (induction fuel i ns and fuel js ns arbitrary: ns' and ns' rule: show_scope_shift_show_kids_shift.induct)
  case (2 fuel i ns)
  then obtain z where z: "show_kids_shift fuel (kids (n_body (upd_node i open_scope ns ! i)) (upd_node i open_scope ns)) (upd_node i open_scope ns) = Some z"
    "ns' = show_display i z" by (auto simp: Let_def)
  have "same_stat ns z" using 2(1)[OF refl z(1)] same_stat_upd(3) same_stat_trans by blast
  then show ?case using z(2) same_stat_display(1) same_stat_trans by blast
next
  case (4 fuel j js ns)
  show ?case
  proof (cases "opens (ns ! j)")
    case True
    then obtain ns2 where ns2: "show_scope_shift fuel j (upd_node j n_show ns) = Some ns2"
      "show_kids_shift fuel js ns2 = Some ns'" using 4(5) by (auto simp: Let_def split: option.splits)
    have "same_stat (upd_node j n_show ns) ns2" using 4(1)[OF refl True ns2(1)] .
    moreover have "same_stat ns2 ns'" using 4(2)[OF refl True ns2(1) ns2(2)] .
    ultimately show ?thesis using same_stat_upd(1) same_stat_trans by blast
  next
    case False
    then show ?thesis using 4(3,4)[OF refl False] 4(5)
      by (auto simp: Let_def intro: same_stat_trans[OF same_stat_upd(1)] split: if_splits)
  qed
qed auto

text \<open>Closing is a descent as well; that it keeps the static part needs no assumption on the trace.\<close>

lemma hide_same_stat:
  "hide_scope fuel sh ch i ns = Some ns' \<Longrightarrow> same_stat ns ns'"
  "hide_kids fuel sh js ns = Some ns' \<Longrightarrow> same_stat ns ns'"
proof (induction fuel sh ch i ns and fuel sh js ns arbitrary: ns' and ns' rule: hide_scope_hide_kids.induct)
  case (2 fuel sh ch i ns)
  let ?n2 = "if ch then upd_node i close_scope (hide_display i ns) else hide_display i ns"
  have "hide_kids fuel sh (kids (n_body (?n2 ! i)) ?n2) ?n2 = Some ns'" using 2(2) by (simp add: Let_def)
  then have "same_stat ?n2 ns'" using 2(1)[OF refl refl] by blast
  moreover have "same_stat ns ?n2" using same_stat_trans same_stat_display(2) same_stat_upd(4) by (metis (full_types))
  ultimately show ?case using same_stat_trans by blast
next
  case (4 fuel sh j js ns)
  let ?n1 = "upd_node j n_hide ns"
  show ?case
  proof (cases "opens (?n1 ! j)")
    case True
    then obtain m where m: "hide_scope fuel sh sh j ?n1 = Some m" "hide_kids fuel sh js m = Some ns'"
      using 4(5) by (auto simp: Let_def split: option.splits)
    have "same_stat ?n1 m" "same_stat m ns'" using 4(1)[OF refl refl True m(1)] 4(2)[OF refl refl True m] by auto
    then show ?thesis using same_stat_upd(2) same_stat_trans by blast
  next
    case False
    then show ?thesis using 4(3,4)[OF refl refl False] 4(5)
      by (auto simp: Let_def intro: same_stat_trans[OF same_stat_upd(2)] same_stat_trans[OF same_stat_upd(2) same_stat_trans[OF same_stat_display(2)]] split: if_splits)
  qed
qed auto

section \<open>Nothing is visible in a closed scope\<close>

text \<open>Functions, actions and blocks of declarations own the scope that is their body.\<close>

definition owner :: "node \<Rightarrow> bool" where
  "owner n = (opens n \<or> n_type n = Declarations)"

definition uniq :: "trace \<Rightarrow> bool" where
  "uniq ns = (\<forall>i < length ns. \<forall>j < length ns. owner (ns ! i) \<and> owner (ns ! j)
     \<and> n_body (ns ! i) = n_body (ns ! j) \<and> n_body (ns ! i) \<noteq> None \<longrightarrow> i = j)"

text \<open>Scope \<open>t\<close> is the body of a node in scope \<open>s\<close>; a node is inside another one through any number of such steps.\<close>

definition nests :: "trace \<Rightarrow> nat \<Rightarrow> nat \<Rightarrow> bool" where
  "nests ns s t = (\<exists>k < length ns. owner (ns ! k) \<and> n_scope (ns ! k) = s \<and> n_body (ns ! k) = Some t)"

definition inside :: "trace \<Rightarrow> nat \<Rightarrow> nat \<Rightarrow> bool" where
  "inside ns i x = (x < length ns \<and> (\<exists>b. n_body (ns ! i) = Some b \<and> (nests ns)\<^sup>*\<^sup>* b (n_scope (ns ! x))))"

text \<open>Declarations of a block that a note stands for: the link of the note shows them whether the block is open or not.\<close>

definition in_block :: "trace \<Rightarrow> nat \<Rightarrow> bool" where
  "in_block ns x = (\<exists>d < length ns. n_type (ns ! d) = Declarations \<and> n_body (ns ! d) = Some (n_scope (ns ! x)))"

definition loose :: "trace \<Rightarrow> nat \<Rightarrow> bool" where
  "loose ns x = (n_commented (ns ! x) \<and> in_block ns x)"

text \<open>Nothing inside a closed function or action is visible, at any depth; nothing of a block whose eye is closed is.\<close>

definition vis_ok :: "trace \<Rightarrow> bool" where
  "vis_ok ns = (\<forall>i < length ns. \<forall>x. opens (ns ! i) \<and> \<not> n_opened (ns ! i) \<and> inside ns i x \<longrightarrow> n_hidden (ns ! x) \<or> loose ns x)"

definition blocks_ok :: "trace \<Rightarrow> bool" where
  "blocks_ok ns = (\<forall>d < length ns. \<forall>x < length ns. n_type (ns ! d) = Declarations \<and> n_eye (ns ! d) \<noteq> Some True
     \<and> n_body (ns ! d) = Some (n_scope (ns ! x)) \<longrightarrow> n_hidden (ns ! x) \<or> n_commented (ns ! x))"

text \<open>Scopes are numbered as they are met, blocks hold no other owners, and a note stands for the node after it.\<close>

definition wf_trace :: "trace \<Rightarrow> bool" where
  "wf_trace ns = (uniq ns
     \<and> (\<forall>i < length ns. owner (ns ! i) \<longrightarrow> (\<exists>b. n_body (ns ! i) = Some b \<and> n_scope (ns ! i) < b))
     \<and> (\<forall>i < length ns. n_link (ns ! i) \<noteq> None \<longrightarrow> opens (ns ! i))
     \<and> (\<forall>i < length ns. n_type (ns ! i) = Declarations \<longrightarrow> n_eye (ns ! i) \<noteq> None)
     \<and> (\<forall>i < length ns. in_block ns i \<longrightarrow> \<not> owner (ns ! i))
     \<and> (\<forall>i < length ns. n_type (ns ! i) = Note \<longrightarrow> \<not> n_commented (ns ! i))
     \<and> (\<forall>i < length ns. n_type (ns ! i) = Note \<and> n_hides (ns ! i) \<and> Suc i < length ns \<longrightarrow>
          n_commented (ns ! Suc i) \<and> (n_scope (ns ! Suc i) = n_scope (ns ! i)
          \<or> (\<forall>k < length ns. opens (ns ! k) \<longrightarrow> n_body (ns ! k) \<noteq> Some (n_scope (ns ! Suc i))))))"

definition live :: "nat \<Rightarrow> trace \<Rightarrow> bool" where
  "live s ns = (\<forall>i < length ns. \<forall>b. opens (ns ! i) \<and> n_body (ns ! i) = Some b \<and> (nests ns)\<^sup>*\<^sup>* b s \<longrightarrow> n_opened (ns ! i))"

definition mono_open :: "trace \<Rightarrow> trace \<Rightarrow> bool" where
  "mono_open ns ns' = (\<forall>k < length ns. n_opened (ns ! k) \<longrightarrow> n_opened (ns' ! k))"

lemma kids_same: "same_stat ns m \<Longrightarrow> i < length ns \<Longrightarrow> kids (n_body (m ! i)) m = kids (n_body (ns ! i)) ns"
  unfolding kids_def by (rule filter_cong) (simp_all add: same_stat_length same_stat_nth)

lemma mono_open_refl [simp]: "mono_open ns ns"
  by (simp add: mono_open_def)

lemma mono_open_trans: "mono_open a b \<Longrightarrow> mono_open b c \<Longrightarrow> same_stat a b \<Longrightarrow> mono_open a c"
  by (simp add: mono_open_def same_stat_length)

lemma owner_same: "same_stat ns m \<Longrightarrow> i < length ns \<Longrightarrow> owner (m ! i) = owner (ns ! i)"
  by (simp add: owner_def same_stat_nth)

lemma uniq_same: "same_stat ns ns' \<Longrightarrow> uniq ns' = uniq ns"
  by (auto simp: uniq_def owner_def same_stat_length same_stat_nth)

lemma uniqD:
  "uniq ns \<Longrightarrow> i < length ns \<Longrightarrow> j < length ns \<Longrightarrow> owner (ns ! i) \<Longrightarrow> owner (ns ! j) \<Longrightarrow>
    n_body (ns ! i) = Some b \<Longrightarrow> n_body (ns ! j) = Some b \<Longrightarrow> i = j"
  by (simp add: uniq_def)

lemma nests_same: "same_stat ns m \<Longrightarrow> nests m = nests ns"
  by (intro ext) (auto simp: nests_def same_stat_length same_stat_nth owner_same)

lemma inside_same: "same_stat ns m \<Longrightarrow> i < length ns \<Longrightarrow> inside m i x = inside ns i x"
  by (auto simp: inside_def nests_same same_stat_length same_stat_nth)

lemma loose_same: "same_stat ns m \<Longrightarrow> x < length ns \<Longrightarrow> loose m x = loose ns x"
  by (auto simp: loose_def in_block_def same_stat_length same_stat_nth)

lemma in_block_same: "same_stat ns m \<Longrightarrow> x < length ns \<Longrightarrow> in_block m x = in_block ns x"
  by (auto simp: in_block_def same_stat_length same_stat_nth)

lemma wf_trace_same:
  assumes "same_stat ns m" shows "wf_trace m = wf_trace ns"
  unfolding wf_trace_def uniq_same[OF assms]
  by (simp add: same_stat_length[OF assms] same_stat_nth[OF assms] owner_same[OF assms] in_block_same[OF assms] cong: conj_cong)

lemma wf_traceD:
  assumes "wf_trace ns" "i < length ns"
  shows "uniq ns" "owner (ns ! i) \<Longrightarrow> \<exists>b. n_body (ns ! i) = Some b \<and> n_scope (ns ! i) < b" "n_link (ns ! i) \<noteq> None \<Longrightarrow> opens (ns ! i)"
    "n_type (ns ! i) = Declarations \<Longrightarrow> n_eye (ns ! i) \<noteq> None" "in_block ns i \<Longrightarrow> \<not> owner (ns ! i)"
    "n_type (ns ! i) = Note \<Longrightarrow> \<not> n_commented (ns ! i)"
  using assms by (auto simp: wf_trace_def)

lemma inside_less: "inside ns i x \<Longrightarrow> x < length ns"
  by (simp add: inside_def)

lemma below_le:
  assumes "wf_trace ns" "(nests ns)\<^sup>*\<^sup>* b s" shows "b \<le> s"
  using assms(2)
proof (induction rule: rtranclp_induct)
  case (step s t)
  then obtain k where "k < length ns" "owner (ns ! k)" "n_scope (ns ! k) = s" "n_body (ns ! k) = Some t" by (auto simp: nests_def)
  then show ?case using wf_traceD(2)[OF assms(1)] step.IH by fastforce
qed simp

lemma not_inside_itself: "wf_trace ns \<Longrightarrow> i < length ns \<Longrightarrow> owner (ns ! i) \<Longrightarrow> \<not> inside ns i i"
  using below_le[of ns] wf_traceD(2)[of ns i] by (fastforce simp: inside_def)

lemma vis_ok_live: "vis_ok ns = (\<forall>x < length ns. \<not> n_hidden (ns ! x) \<and> \<not> loose ns x \<longrightarrow> live (n_scope (ns ! x)) ns)"
  by (auto simp: vis_ok_def live_def inside_def)

lemma live_mono:
  "same_stat ns ns' \<Longrightarrow> mono_open ns ns' \<Longrightarrow> live s ns \<Longrightarrow> live s ns'"
  by (simp add: live_def mono_open_def same_stat_length same_stat_nth nests_same)

lemma grow_vis_ok:
  assumes "same_stat ns ns'" "mono_open ns ns'" "vis_ok ns"
    and "\<And>j. j < length ns \<Longrightarrow> \<not> n_hidden (ns' ! j) \<Longrightarrow> n_hidden (ns ! j) \<Longrightarrow> loose ns j \<or> live (n_scope (ns ! j)) ns"
  shows "vis_ok ns'"
  unfolding vis_ok_live
proof (intro allI impI)
  fix j assume j: "j < length ns'" "\<not> n_hidden (ns' ! j) \<and> \<not> loose ns' j"
  then have l: "j < length ns" using same_stat_length[OF assms(1)] by simp
  have "\<not> loose ns j" using j loose_same[OF assms(1) l] by simp
  then have "live (n_scope (ns ! j)) ns"
    using assms(3) assms(4)[of j] l j(2) by (cases "n_hidden (ns ! j)") (auto simp: vis_ok_live)
  then show "live (n_scope (ns' ! j)) ns'"
    using live_mono[OF assms(1,2)] same_stat_nth(2)[OF assms(1) l] by simp
qed

lemma upd_node_nth: "j < length ns \<Longrightarrow> upd_node i f ns ! j = (if i = j then f (ns ! j) else ns ! j)"
  by (simp add: upd_node_def nth_list_update)

lemma upd_node_length [simp]: "length (upd_node i f ns) = length ns"
  by (simp add: upd_node_def)

lemma upd_scope_nth:
  "j < length ns \<Longrightarrow> upd_scope b P f ns ! j = (if b = Some (n_scope (ns ! j)) \<and> P (ns ! j) then f (ns ! j) else ns ! j)"
  by (simp add: upd_scope_def)

lemma upd_scope_length [simp]: "length (upd_scope b P f ns) = length ns"
  by (simp add: upd_scope_def)

lemma node_fields [simp]:
  "n_hidden (n_show n) = False" "n_opened (n_show n) = n_opened n" "n_scope (n_show n) = n_scope n"
  "n_hidden (n_hide n) = True" "n_opened (n_hide n) = n_opened n" "n_scope (n_hide n) = n_scope n"
  "n_hidden (open_eye n) = n_hidden n" "n_opened (open_eye n) = n_opened n" "n_scope (open_eye n) = n_scope n"
  "n_hidden (close_eye n) = n_hidden n" "n_opened (close_eye n) = n_opened n" "n_scope (close_eye n) = n_scope n"
  "n_hidden (open_scope n) = n_hidden n" "n_opened (open_scope n) = True"
  "n_hidden (close_scope n) = n_hidden n" "n_opened (close_scope n) = False"
  "n_eye (n_show n) = n_eye n" "n_eye (n_hide n) = n_eye n" "n_eye (open_scope n) = n_eye n" "n_eye (close_scope n) = n_eye n"
  "n_eye (open_eye n) = map_option (\<lambda>_. True) (n_eye n)" "n_eye (close_eye n) = map_option (\<lambda>_. False) (n_eye n)"
  by (simp_all add: n_show_def n_hide_def open_eye_def close_eye_def open_scope_def close_scope_def)

lemma node_types [simp]:
  "n_type (open_eye n) = n_type n" "n_body (open_eye n) = n_body n" "opens (open_eye n) = opens n"
  "n_type (close_eye n) = n_type n" "n_body (close_eye n) = n_body n" "opens (close_eye n) = opens n"
  "n_type (n_show n) = n_type n" "n_body (n_show n) = n_body n" "opens (n_show n) = opens n"
  "n_type (n_hide n) = n_type n" "n_body (n_hide n) = n_body n" "opens (n_hide n) = opens n"
  "n_type (open_scope n) = n_type n" "n_body (open_scope n) = n_body n" "opens (open_scope n) = opens n"
  "n_type (close_scope n) = n_type n" "n_body (close_scope n) = n_body n" "opens (close_scope n) = opens n"
  by (simp_all add: open_eye_def close_eye_def n_show_def n_hide_def open_scope_def close_scope_def opens_def)

lemma show_display_nth:
  assumes "j < length ns" "i < length ns"
  shows "n_opened (show_display i ns ! j) = n_opened (ns ! j)"
    and "n_hidden (show_display i ns ! j) = n_hidden (ns ! j) \<or>
      (n_body (ns ! i) = Some (n_scope (ns ! j)) \<and> (opens (ns ! i) \<and> n_opened (ns ! i) \<or> n_type (ns ! i) = Declarations))"
  using assms by (auto simp: show_display_def Let_def upd_scope_nth upd_node_nth)

lemma upd_scope_eye: "j < length ns \<Longrightarrow> n_eye (upd_scope b P n_show ns ! j) = n_eye (ns ! j)"
  "j < length ns \<Longrightarrow> n_eye (upd_scope b P n_hide ns ! j) = n_eye (ns ! j)"
  by (simp_all add: upd_scope_nth)

lemma show_display_eye:
  "j < length ns \<Longrightarrow> n_eye (show_display i ns ! j) = (if j = i then map_option (\<lambda>_. True) (n_eye (ns ! j)) else n_eye (ns ! j))"
  by (simp add: show_display_def Let_def upd_scope_eye upd_node_nth)

text \<open>The body of an open function, or of a block, of a live scope is live.\<close>

lemma body_live:
  assumes "uniq ns" "i < length ns" "live (n_scope (ns ! i)) ns"
    and "opens (ns ! i) \<and> n_opened (ns ! i) \<or> n_type (ns ! i) = Declarations" and "n_body (ns ! i) = Some s"
  shows "live s ns"
  unfolding live_def
proof (intro allI impI)
  fix k b assume k: "k < length ns" "opens (ns ! k) \<and> n_body (ns ! k) = Some b \<and> (nests ns)\<^sup>*\<^sup>* b s"
  have o: "owner (ns ! i)" "owner (ns ! k)" using assms(4) k by (auto simp: owner_def)
  have only: "k' = i" if "k' < length ns" "owner (ns ! k')" "n_body (ns ! k') = Some s" for k'
    by (rule uniqD[OF assms(1) that(1) assms(2) that(2) o(1) that(3) assms(5)])
  have "(nests ns)\<^sup>*\<^sup>* b s" using k by simp
  then show "n_opened (ns ! k)"
  proof (cases rule: rtranclp.cases)
    case rtrancl_refl
    then have "k = i" using only k o by simp
    then show ?thesis using assms(4) k by (auto simp: opens_def)
  next
    case (rtrancl_into_rtrancl s')
    then obtain k' where "k' < length ns" "owner (ns ! k')" "n_scope (ns ! k') = s'" "n_body (ns ! k') = Some s"
      unfolding nests_def by blast
    then have "s' = n_scope (ns ! i)" using only by blast
    then show ?thesis using assms(3) k rtrancl_into_rtrancl(1) unfolding live_def by blast
  qed
qed

lemma not_in_block:
  assumes "uniq ns" "i < length ns" "opens (ns ! i)" "n_body (ns ! i) = Some (n_scope (ns ! x))"
  shows "\<not> in_block ns x"
proof
  assume "in_block ns x"
  then obtain d where d: "d < length ns" "n_type (ns ! d) = Declarations" "n_body (ns ! d) = Some (n_scope (ns ! x))"
    by (auto simp: in_block_def)
  have "owner (ns ! i)" "owner (ns ! d)" using assms(3) d(2) by (auto simp: owner_def)
  then have "d = i" using uniqD[OF assms(1) d(1) assms(2) _ _ d(3) assms(4)] by simp
  then show False using assms(3) d(2) by (simp add: opens_def)
qed

lemma show_display_vis:
  assumes "vis_ok ns" "uniq ns" "i < length ns" "owner (ns ! i) \<Longrightarrow> live (n_scope (ns ! i)) ns"
  shows "vis_ok (show_display i ns)" "mono_open ns (show_display i ns)"
proof -
  show m: "mono_open ns (show_display i ns)"
    using show_display_nth(1)[OF _ assms(3)] by (simp add: mono_open_def)
  show "vis_ok (show_display i ns)"
  proof (rule grow_vis_ok[OF same_stat_display(1) m assms(1)])
    fix j assume "j < length ns" "\<not> n_hidden (show_display i ns ! j)" "n_hidden (ns ! j)"
    then show "loose ns j \<or> live (n_scope (ns ! j)) ns"
      using show_display_nth(2)[OF _ assms(3), of j] body_live[OF assms(2,3)] assms(4) by (auto simp: owner_def)
  qed
qed

text \<open>A step keeps the blocks if the eyes that end closed were closed before and nothing of them appears, or if all of them is hidden.\<close>

lemma blocks_step:
  assumes "same_stat ns m" "blocks_ok ns"
    and "\<And>d x. d < length ns \<Longrightarrow> x < length ns \<Longrightarrow> n_type (ns ! d) = Declarations \<Longrightarrow> n_body (ns ! d) = Some (n_scope (ns ! x)) \<Longrightarrow>
      n_eye (m ! d) \<noteq> Some True \<Longrightarrow>
      n_hidden (m ! x) \<or> n_commented (ns ! x) \<or> (n_eye (ns ! d) \<noteq> Some True \<and> \<not> n_hidden (ns ! x))"
  shows "blocks_ok m"
  unfolding blocks_ok_def
proof (intro allI impI)
  fix d x assume a: "d < length m" "x < length m" "n_type (m ! d) = Declarations \<and> n_eye (m ! d) \<noteq> Some True \<and> n_body (m ! d) = Some (n_scope (m ! x))"
  have l: "d < length ns" "x < length ns" using a same_stat_length[OF assms(1)] by simp_all
  note nth = same_stat_nth[OF assms(1) l(1)] same_stat_nth[OF assms(1) l(2)]
  have d: "n_type (ns ! d) = Declarations" "n_body (ns ! d) = Some (n_scope (ns ! x))" "n_eye (m ! d) \<noteq> Some True" using a nth by simp_all
  have "n_eye (ns ! d) \<noteq> Some True \<Longrightarrow> n_hidden (ns ! x) \<or> n_commented (ns ! x)" using assms(2) l d unfolding blocks_ok_def by blast
  then show "n_hidden (m ! x) \<or> n_commented (m ! x)" using assms(3)[OF l d] nth by metis
qed

lemma show_display_blocks:
  assumes "blocks_ok ns" "uniq ns" "i < length ns" "n_type (ns ! i) = Declarations \<Longrightarrow> n_eye (ns ! i) \<noteq> None"
  shows "blocks_ok (show_display i ns)"
proof (rule blocks_step[OF same_stat_display(1) assms(1)])
  fix d x assume l: "d < length ns" "x < length ns" and d: "n_type (ns ! d) = Declarations" "n_body (ns ! d) = Some (n_scope (ns ! x))"
    and e: "n_eye (show_display i ns ! d) \<noteq> Some True"
  have n: "d \<noteq> i" "n_eye (ns ! d) \<noteq> Some True" using e show_display_eye[OF l(1), of i] assms(4) d(1) by (auto split: if_splits)
  have "owner (ns ! i) \<Longrightarrow> n_body (ns ! i) \<noteq> Some (n_scope (ns ! x))"
    using uniqD[OF assms(2) l(1) assms(3) _ _ d(2)] n(1) d(1) by (auto simp: owner_def)
  then have "n_hidden (show_display i ns ! x) = n_hidden (ns ! x)" using show_display_nth(2)[OF l(2) assms(3)] by (auto simp: owner_def)
  then show "n_hidden (show_display i ns ! x) \<or> n_commented (ns ! x) \<or> (n_eye (ns ! d) \<noteq> Some True \<and> \<not> n_hidden (ns ! x))"
    using n(2) by blast
qed

lemma show_node_vis:
  assumes "vis_ok ns" "j < length ns" "loose ns j \<or> live (n_scope (ns ! j)) ns"
  shows "vis_ok (upd_node j n_show ns)" "mono_open ns (upd_node j n_show ns)"
proof -
  show m: "mono_open ns (upd_node j n_show ns)" by (simp add: mono_open_def upd_node_nth)
  show "vis_ok (upd_node j n_show ns)"
    by (rule grow_vis_ok[OF same_stat_upd(1) m assms(1)]) (use assms in \<open>auto simp: upd_node_nth split: if_splits\<close>)
qed

lemma show_node_blocks:
  assumes "blocks_ok ns" "j < length ns" "n_commented (ns ! j) \<or> \<not> in_block ns j"
  shows "blocks_ok (upd_node j n_show ns)"
proof (rule blocks_step[OF same_stat_upd(1) assms(1)])
  fix d x assume l: "d < length ns" "x < length ns" and d: "n_type (ns ! d) = Declarations" "n_body (ns ! d) = Some (n_scope (ns ! x))"
    and e: "n_eye (upd_node j n_show ns ! d) \<noteq> Some True"
  have "in_block ns x" using l d unfolding in_block_def by blast
  then show "n_hidden (upd_node j n_show ns ! x) \<or> n_commented (ns ! x) \<or> (n_eye (ns ! d) \<noteq> Some True \<and> \<not> n_hidden (ns ! x))"
    using assms(3) e l by (cases "x = j") (auto simp: upd_node_nth split: if_splits)
qed

lemma open_scope_blocks: "blocks_ok ns \<Longrightarrow> blocks_ok (upd_node i open_scope ns)"
  by (erule blocks_step[OF same_stat_upd(3)]) (auto simp: upd_node_nth split: if_splits)

lemma open_scope_vis:
  assumes "vis_ok ns"
  shows "vis_ok (upd_node i open_scope ns)" "mono_open ns (upd_node i open_scope ns)"
proof -
  show m: "mono_open ns (upd_node i open_scope ns)" by (simp add: mono_open_def upd_node_nth)
  show "vis_ok (upd_node i open_scope ns)"
    by (rule grow_vis_ok[OF same_stat_upd(3) m assms(1)]) (auto simp: upd_node_nth split: if_splits)
qed

text \<open>A step that shows nodes; and when the nodes of a list, or a whole scope, may be shown.\<close>

definition shown_ok :: "trace \<Rightarrow> bool" where
  "shown_ok ns = (vis_ok ns \<and> blocks_ok ns)"

definition vis_step :: "trace \<Rightarrow> trace \<Rightarrow> bool" where
  "vis_step ns m = (same_stat ns m \<and> mono_open ns m \<and> shown_ok m)"

definition kids_ready :: "nat list \<Rightarrow> trace \<Rightarrow> bool" where
  "kids_ready js ns = (shown_ok ns \<and> uniq ns \<and> (\<forall>j \<in> set js. j < length ns \<and> live (n_scope (ns ! j)) ns \<and> \<not> in_block ns j))"

definition scope_ready :: "nat \<Rightarrow> trace \<Rightarrow> bool" where
  "scope_ready i ns = (shown_ok ns \<and> uniq ns \<and> i < length ns \<and> opens (ns ! i) \<and> live (n_scope (ns ! i)) ns)"

lemma vis_step_trans: "vis_step a b \<Longrightarrow> vis_step b c \<Longrightarrow> vis_step a c"
  unfolding vis_step_def by (meson mono_open_trans same_stat_trans)

lemma vis_step_refl: "shown_ok ns \<Longrightarrow> vis_step ns ns"
  by (simp add: vis_step_def)

lemma kids_ready_step: "kids_ready (j # js) ns \<Longrightarrow> vis_step ns m \<Longrightarrow> kids_ready js m"
proof -
  assume r: "kids_ready (j # js) ns" and v: "vis_step ns m"
  have st: "same_stat ns m" "mono_open ns m" using v by (simp_all add: vis_step_def)
  have "x < length m \<and> live (n_scope (m ! x)) m \<and> \<not> in_block m x" if "x \<in> set js" for x
    using that r live_mono[OF st] in_block_same[OF st(1)]
    by (simp add: kids_ready_def same_stat_length[OF st(1)] same_stat_nth[OF st(1)])
  then show ?thesis using r v uniq_same[OF st(1)] by (simp add: kids_ready_def vis_step_def)
qed

lemma scope_ready_step: "scope_ready i ns \<Longrightarrow> vis_step ns m \<Longrightarrow> scope_ready i m"
proof -
  assume r: "scope_ready i ns" and v: "vis_step ns m"
  have st: "same_stat ns m" "mono_open ns m" using v by (simp_all add: vis_step_def)
  show ?thesis
    using r v live_mono[OF st]
    by (simp add: scope_ready_def vis_step_def uniq_same[OF st(1)] same_stat_length[OF st(1)] same_stat_nth[OF st(1)])
qed

lemma kids_ready_scope: "kids_ready (j # js) ns \<Longrightarrow> opens (ns ! j) \<Longrightarrow> scope_ready j ns"
  by (simp add: kids_ready_def scope_ready_def)

lemma vis_step_show: "kids_ready (j # js) ns \<Longrightarrow> vis_step ns (upd_node j n_show ns)"
  by (simp add: vis_step_def kids_ready_def shown_ok_def show_node_vis show_node_blocks)

lemma vis_step_kid: "kids_ready (j # js) ns \<Longrightarrow> vis_step ns (show_kid j ns)"
  using vis_step_show vis_step_refl by (auto simp: show_kid_def kids_ready_def)

lemma vis_step_display: "scope_ready i ns \<Longrightarrow> vis_step ns (show_display i ns)"
  by (auto simp: vis_step_def scope_ready_def shown_ok_def opens_def intro!: show_display_vis show_display_blocks)

lemma vis_step_open: "scope_ready i ns \<Longrightarrow> vis_step ns (upd_node i open_scope ns)"
  by (simp add: vis_step_def scope_ready_def shown_ok_def open_scope_vis open_scope_blocks)

lemma kids_ready_open:
  assumes "scope_ready i ns"
  shows "kids_ready (kids (n_body (upd_node i open_scope ns ! i)) (upd_node i open_scope ns)) (upd_node i open_scope ns)"
proof -
  let ?m = "upd_node i open_scope ns"
  have r: "scope_ready i ?m" using scope_ready_step[OF assms vis_step_open[OF assms]] .
  have "n_opened (?m ! i)" using assms by (simp add: upd_node_nth scope_ready_def)
  then have "live (n_scope (?m ! j)) ?m \<and> \<not> in_block ?m j" if "n_body (?m ! i) = Some (n_scope (?m ! j))" for j
    using that r body_live[of ?m i] not_in_block[of ?m i j] by (auto simp: scope_ready_def)
  then show ?thesis using r by (auto simp: kids_def kids_ready_def scope_ready_def)
qed

text \<open>Opening a scope, with the nodes inside shown by \<open>k\<close>, given that \<open>k\<close> is such a step.\<close>

lemma scope_opened_step:
  assumes "scope_ready i ns"
    and "kids_ready js (upd_node i open_scope ns) \<Longrightarrow> vis_step (upd_node i open_scope ns) z"
    and "js = kids (n_body (upd_node i open_scope ns ! i)) (upd_node i open_scope ns)"
  shows "vis_step ns (show_display i z)"
proof -
  have "vis_step ns z" using assms kids_ready_open vis_step_open vis_step_trans by blast
  then show ?thesis using vis_step_display scope_ready_step[OF assms(1)] vis_step_trans by blast
qed

lemma show_vis:
  "show_scope fuel i ns = Some ns' \<Longrightarrow> scope_ready i ns \<Longrightarrow> vis_step ns ns'"
  "show_kids fuel js ns = Some ns' \<Longrightarrow> kids_ready js ns \<Longrightarrow> vis_step ns ns'"
proof (induction fuel i ns and fuel js ns arbitrary: ns' and ns' rule: show_scope_show_kids.induct)
  case (2 fuel i ns)
  then show ?case by (auto simp: Let_def intro!: scope_opened_step)
next
  case (3 fuel ns)
  then show ?case by (simp add: vis_step_refl kids_ready_def)
next
  case (4 fuel j js ns)
  note ready = 4(6)
  show ?case
  proof (cases "opens (ns ! j)")
    case True
    obtain m where m: "(if n_opened (ns ! j) then show_scope fuel j (show_kid j ns) else Some (show_kid j ns)) = Some m"
      "show_kids fuel js m = Some ns'" using 4(5) True by (auto simp: Let_def split: option.splits)
    have "vis_step (show_kid j ns) m"
      using m(1) 4(1)[OF refl True] scope_ready_step[OF kids_ready_scope[OF ready True] vis_step_kid[OF ready]]
      by (auto simp: vis_step_refl scope_ready_def split: if_splits)
    then have "vis_step ns m" using vis_step_kid[OF ready] vis_step_trans by blast
    then show ?thesis
      using 4(2)[OF refl True m kids_ready_step[OF ready]] vis_step_trans by blast
  next
    case False
    show ?thesis
    proof (cases "n_type (ns ! j) \<in> {Exit, Declarations}")
      case True
      then have m: "show_kids fuel js (upd_node j n_show ns) = Some ns'" using 4(5) False by (simp add: Let_def)
      show ?thesis
        using 4(3)[OF refl False True m kids_ready_step[OF ready]] vis_step_show[OF ready] vis_step_trans by blast
    next
      case t: False
      then have m: "show_kids fuel js ns = Some ns'" using 4(5) False by (simp add: Let_def)
      have "vis_step ns ns" using ready by (simp add: vis_step_refl kids_ready_def)
      then show ?thesis using 4(4)[OF refl False t m kids_ready_step[OF ready]] by blast
    qed
  qed
qed auto

lemma shift_vis:
  "show_scope_shift fuel i ns = Some ns' \<Longrightarrow> scope_ready i ns \<Longrightarrow> vis_step ns ns'"
  "show_kids_shift fuel js ns = Some ns' \<Longrightarrow> kids_ready js ns \<Longrightarrow> vis_step ns ns'"
proof (induction fuel i ns and fuel js ns arbitrary: ns' and ns' rule: show_scope_shift_show_kids_shift.induct)
  case (2 fuel i ns)
  then show ?case by (auto simp: Let_def intro!: scope_opened_step)
next
  case (3 fuel ns)
  then show ?case by (simp add: vis_step_refl kids_ready_def)
next
  case (4 fuel j js ns)
  note ready = 4(6)
  show ?case
  proof (cases "opens (ns ! j)")
    case True
    obtain m where m: "show_scope_shift fuel j (upd_node j n_show ns) = Some m"
      "show_kids_shift fuel js m = Some ns'" using 4(5) True by (auto simp: Let_def split: option.splits)
    have "vis_step ns m"
      using 4(1)[OF refl True m(1)] scope_ready_step[OF kids_ready_scope[OF ready True] vis_step_show[OF ready]]
        vis_step_show[OF ready] vis_step_trans by blast
    then show ?thesis
      using 4(2)[OF refl True m kids_ready_step[OF ready]] vis_step_trans by blast
  next
    case False
    show ?thesis
    proof (cases "n_type (ns ! j) = Exit")
      case True
      then have m: "show_kids_shift fuel js (upd_node j n_show ns) = Some ns'" using 4(5) False by (simp add: Let_def)
      show ?thesis
        using 4(3)[OF refl False True m kids_ready_step[OF ready]] vis_step_show[OF ready] vis_step_trans by blast
    next
      case t: False
      then have m: "show_kids_shift fuel js ns = Some ns'" using 4(5) False by (simp add: Let_def)
      have "vis_step ns ns" using ready by (simp add: vis_step_refl kids_ready_def)
      then show ?thesis using 4(4)[OF refl False t m kids_ready_step[OF ready]] by blast
    qed
  qed
qed auto

section \<open>Closing scopes\<close>

text \<open>A step that closes: nothing appears or opens, and all that is inside what was open and is now closed is hidden.\<close>

definition down :: "trace \<Rightarrow> trace \<Rightarrow> bool" where
  "down ns m = (same_stat ns m \<and> (\<forall>j < length ns. (n_hidden (ns ! j) \<longrightarrow> n_hidden (m ! j))
     \<and> (n_opened (m ! j) \<longrightarrow> n_opened (ns ! j)) \<and> (n_eye (m ! j) = Some True \<longrightarrow> n_eye (ns ! j) = Some True)))"

definition cleared :: "nat \<Rightarrow> trace \<Rightarrow> bool" where
  "cleared i m = (\<forall>x. inside m i x \<longrightarrow> n_hidden (m ! x) \<or> loose m x)"

definition closing :: "trace \<Rightarrow> trace \<Rightarrow> bool" where
  "closing ns m = (down ns m \<and> (\<forall>k < length ns. n_opened (ns ! k) \<and> \<not> n_opened (m ! k) \<longrightarrow> cleared k m))"

text \<open>A node that is hidden, and whose eye is closed when it is a block.\<close>

definition shut :: "node \<Rightarrow> bool" where
  "shut n = (n_hidden n \<and> (n_type n = Declarations \<longrightarrow> n_eye n \<noteq> Some True))"

lemma down_stat: "down ns m \<Longrightarrow> same_stat ns m"
  by (simp add: down_def)

lemma closing_stat: "closing ns m \<Longrightarrow> same_stat ns m"
  by (simp add: closing_def down_def)

lemma closing_down: "closing ns m \<Longrightarrow> down ns m"
  by (simp add: closing_def)

lemma down_nth:
  "down ns m \<Longrightarrow> j < length ns \<Longrightarrow> n_hidden (ns ! j) \<Longrightarrow> n_hidden (m ! j)"
  "down ns m \<Longrightarrow> j < length ns \<Longrightarrow> n_opened (m ! j) \<Longrightarrow> n_opened (ns ! j)"
  "down ns m \<Longrightarrow> j < length ns \<Longrightarrow> n_eye (m ! j) = Some True \<Longrightarrow> n_eye (ns ! j) = Some True"
  by (simp_all add: down_def)

lemma down_trans:
  assumes "down a b" "down b c" shows "down a c"
proof -
  have l: "length b = length a" using same_stat_length[OF down_stat[OF assms(1)]] .
  have "same_stat a c" using same_stat_trans[OF down_stat[OF assms(1)] down_stat[OF assms(2)]] .
  then show ?thesis using down_nth[OF assms(1)] down_nth[OF assms(2)] by (simp add: down_def l)
qed

lemma down_cleared:
  assumes "down ns m" "i < length ns" "cleared i ns" shows "cleared i m"
  unfolding cleared_def
proof (intro allI impI)
  fix x assume "inside m i x"
  then have x: "inside ns i x" using inside_same[OF down_stat[OF assms(1)] assms(2)] by simp
  then show "n_hidden (m ! x) \<or> loose m x"
    using assms(3) down_nth(1)[OF assms(1) inside_less[OF x]] loose_same[OF down_stat[OF assms(1)] inside_less[OF x]]
    unfolding cleared_def by blast
qed

lemma down_shut: "down ns m \<Longrightarrow> j < length ns \<Longrightarrow> shut (ns ! j) \<Longrightarrow> shut (m ! j)"
  using down_nth(1,3)[of ns m j] same_stat_nth(1)[OF down_stat, of ns m j] by (auto simp: shut_def)

lemma closing_refl [simp]: "closing ns ns"
  by (simp add: closing_def down_def)

lemma closing_trans:
  assumes "closing a b" "closing b c" shows "closing a c"
proof -
  have l: "length b = length a" using same_stat_length[OF closing_stat[OF assms(1)]] .
  have "cleared k c" if k: "k < length a" "n_opened (a ! k)" "\<not> n_opened (c ! k)" for k
  proof (cases "n_opened (b ! k)")
    case True
    then show ?thesis using assms(2) k l by (simp add: closing_def)
  next
    case False
    then have "cleared k b" using assms(1) k by (simp add: closing_def)
    then show ?thesis using down_cleared[OF closing_down[OF assms(2)]] k(1) l by simp
  qed
  then show ?thesis using down_trans[OF closing_down[OF assms(1)] closing_down[OF assms(2)]] by (simp add: closing_def)
qed

lemma closing_vis_ok:
  assumes "closing ns m" "vis_ok ns" shows "vis_ok m"
  unfolding vis_ok_def
proof (intro allI impI)
  fix i x assume a: "i < length m" "opens (m ! i) \<and> \<not> n_opened (m ! i) \<and> inside m i x"
  have l: "i < length ns" using a(1) same_stat_length[OF closing_stat[OF assms(1)]] by simp
  show "n_hidden (m ! x) \<or> loose m x"
  proof (cases "n_opened (ns ! i)")
    case True
    then have "cleared i m" using assms(1) l a(2) by (simp add: closing_def)
    then show ?thesis using a(2) by (simp add: cleared_def)
  next
    case False
    then have "cleared i ns" using assms(2) l a(2) same_stat_nth(5)[OF closing_stat[OF assms(1)] l]
      by (simp add: vis_ok_def cleared_def)
    then show ?thesis using down_cleared[OF closing_down[OF assms(1)] l] a(2) by (simp add: cleared_def)
  qed
qed

lemma hide_statements_nth:
  "j < length ns \<Longrightarrow> n_opened (hide_statements b pr ns ! j) = n_opened (ns ! j)
    \<and> (n_hidden (ns ! j) \<longrightarrow> n_hidden (hide_statements b pr ns ! j))
    \<and> (b \<noteq> Some (n_scope (ns ! j)) \<longrightarrow> hide_statements b pr ns ! j = ns ! j)"
  by (induction b pr ns arbitrary: j rule: hide_statements.induct) (auto simp: nth_Cons split: nat.splits)

lemma hide_statements_eye: "j < length ns \<Longrightarrow> n_eye (hide_statements b pr ns ! j) = n_eye (ns ! j)"
  by (induction b pr ns arbitrary: j rule: hide_statements.induct) (auto simp: nth_Cons split: nat.splits)

lemma hide_display_nth:
  assumes "j < length ns" "i < length ns"
  shows "n_opened (hide_display i ns ! j) = n_opened (ns ! j)"
    and "n_hidden (ns ! j) \<Longrightarrow> n_hidden (hide_display i ns ! j)"
  using assms hide_statements_nth[of j "upd_node i close_eye ns" "n_body (ns ! i)" False]
  by (auto simp: hide_display_def Let_def upd_scope_nth upd_node_nth)

lemma hide_display_else:
  assumes "j < length ns" "i < length ns" "i \<noteq> j" "n_body (ns ! i) \<noteq> Some (n_scope (ns ! j))"
  shows "hide_display i ns ! j = ns ! j"
  using assms hide_statements_nth[of j "upd_node i close_eye ns" "n_body (ns ! i)" False]
  by (simp add: hide_display_def Let_def upd_scope_nth upd_node_nth)

lemma hide_display_eye:
  "j < length ns \<Longrightarrow> n_eye (hide_display i ns ! j) = (if j = i then map_option (\<lambda>_. False) (n_eye (ns ! j)) else n_eye (ns ! j))"
  by (simp add: hide_display_def Let_def upd_scope_eye hide_statements_eye upd_node_nth)

lemma hide_display_block:
  assumes "x < length ns" "i < length ns" "n_type (ns ! i) = Declarations" "n_body (ns ! i) = Some (n_scope (ns ! x))"
  shows "n_hidden (hide_display i ns ! x)"
  using assms by (simp add: hide_display_def Let_def upd_scope_nth upd_node_nth opens_def)

lemma hide_display_own:
  "i < length ns \<Longrightarrow> n_body (ns ! i) \<noteq> Some (n_scope (ns ! i)) \<Longrightarrow> n_hidden (hide_display i ns ! i) = n_hidden (ns ! i)"
  using hide_statements_nth[of i "upd_node i close_eye ns" "n_body (ns ! i)" False]
  by (simp add: hide_display_def Let_def upd_scope_nth upd_node_nth)

lemma closing_hide_display: "i < length ns \<Longrightarrow> closing ns (hide_display i ns)"
  by (auto simp: closing_def down_def hide_display_nth hide_display_eye split: if_splits)

lemma closing_hide_node: "closing ns (upd_node j n_hide ns)"
  by (auto simp: closing_def down_def upd_node_nth)

text \<open>The blocks stay in order.\<close>

lemma hide_display_blocks:
  assumes "blocks_ok ns" "i < length ns" shows "blocks_ok (hide_display i ns)"
proof (rule blocks_step[OF same_stat_display(2) assms(1)])
  fix d x assume l: "d < length ns" "x < length ns" and d: "n_type (ns ! d) = Declarations" "n_body (ns ! d) = Some (n_scope (ns ! x))"
    and e: "n_eye (hide_display i ns ! d) \<noteq> Some True"
  show "n_hidden (hide_display i ns ! x) \<or> n_commented (ns ! x) \<or> (n_eye (ns ! d) \<noteq> Some True \<and> \<not> n_hidden (ns ! x))"
  proof (cases "d = i")
    case True
    then show ?thesis using hide_display_block[OF l(2,1) d] by simp
  next
    case False
    then show ?thesis using e hide_display_eye[OF l(1)] hide_display_nth(2)[OF l(2) assms(2)] by auto
  qed
qed

lemma upd_blocks:
  assumes "blocks_ok ns" shows "blocks_ok (upd_node i n_hide ns)" "blocks_ok (upd_node i close_scope ns)"
  by (rule blocks_step[OF same_stat_upd(2) assms], auto simp: upd_node_nth split: if_splits)
    (rule blocks_step[OF same_stat_upd(4) assms], auto simp: upd_node_nth split: if_splits)

text \<open>Closing one node is such a step once what is inside it has been hidden.\<close>

lemma closing_close_scope:
  assumes "i < length ns" "closing (upd_node i close_scope ns) m" "cleared i m"
  shows "closing ns m"
proof -
  let ?n = "upd_node i close_scope ns"
  have "down ns ?n" by (auto simp: down_def upd_node_nth)
  then have d: "down ns m" using assms(2) down_trans by (auto simp: closing_def)
  have "cleared k m" if "k < length ns" "n_opened (ns ! k)" "\<not> n_opened (m ! k)" for k
    using that assms by (cases "k = i") (auto simp: closing_def upd_node_nth)
  with d show ?thesis by (simp add: closing_def)
qed

text \<open>What is inside a node is hidden once its kids are hidden, and what is inside them.\<close>

lemma kids_cleared:
  assumes "wf_trace m" "blocks_ok m" "i < length m"
    and "\<forall>j \<in> set (kids (n_body (m ! i)) m). shut (m ! j) \<and> (opens (m ! j) \<longrightarrow> cleared j m)"
  shows "cleared i m"
  unfolding cleared_def
proof (intro allI impI)
  fix x assume "inside m i x"
  then obtain b where b: "x < length m" "n_body (m ! i) = Some b" "(nests m)\<^sup>*\<^sup>* b (n_scope (m ! x))" by (auto simp: inside_def)
  have kid: "shut (m ! j) \<and> (opens (m ! j) \<longrightarrow> cleared j m)" if "j < length m" "n_scope (m ! j) = b" for j
    using that assms(4) b(2) by (simp add: kids_def)
  from b(3) show "n_hidden (m ! x) \<or> loose m x"
  proof (cases rule: converse_rtranclpE)
    case base
    then show ?thesis using kid b(1) by (simp add: shut_def)
  next
    case (step c)
    then obtain k where k: "k < length m" "owner (m ! k)" "n_scope (m ! k) = b" "n_body (m ! k) = Some c" by (auto simp: nests_def)
    show ?thesis
    proof (cases "opens (m ! k)")
      case True
      then show ?thesis using kid[OF k(1,3)] k(4) step(2) b(1) by (auto simp: cleared_def inside_def)
    next
      case False
      then have d: "n_type (m ! k) = Declarations" using k(2) by (simp add: owner_def)
      have "\<not> nests m c t" for t
        using wf_traceD(5)[OF assms(1)] k(1,4) d by (auto simp: nests_def in_block_def)
      then have c: "c = n_scope (m ! x)" using step(2) by (meson converse_rtranclpE)
      then have "n_hidden (m ! x) \<or> n_commented (m ! x)"
        using assms(2) k(1,4) b(1) d kid[OF k(1,3)] unfolding blocks_ok_def shut_def by blast
      then show ?thesis using k(1,4) d c by (auto simp: loose_def in_block_def)
    qed
  qed
qed

lemma hide_kids_ConsE:
  assumes "hide_kids fuel sh (j # js) ns = Some ns'"
  obtains (o) m where "opens (upd_node j n_hide ns ! j)" "hide_scope fuel sh sh j (upd_node j n_hide ns) = Some m"
      "hide_kids fuel sh js m = Some ns'"
    | (d) "\<not> opens (upd_node j n_hide ns ! j)"
      "n_type (upd_node j n_hide ns ! j) = Declarations \<and> n_eye (upd_node j n_hide ns ! j) = Some True"
      "hide_kids fuel sh js (hide_display j (upd_node j n_hide ns)) = Some ns'"
    | (r) "\<not> opens (upd_node j n_hide ns ! j)"
      "\<not> (n_type (upd_node j n_hide ns ! j) = Declarations \<and> n_eye (upd_node j n_hide ns ! j) = Some True)"
      "hide_kids fuel sh js (upd_node j n_hide ns) = Some ns'"
  using assms by (auto simp: Let_def split: option.splits if_splits)

lemma hide_closing:
  "hide_scope fuel sh ch i ns = Some ns' \<Longrightarrow> wf_trace ns \<Longrightarrow> blocks_ok ns \<Longrightarrow> i < length ns \<Longrightarrow>
    closing ns ns' \<and> blocks_ok ns' \<and> cleared i ns'"
  "hide_kids fuel sh js ns = Some ns' \<Longrightarrow> wf_trace ns \<Longrightarrow> blocks_ok ns \<Longrightarrow> \<forall>j \<in> set js. j < length ns \<Longrightarrow>
    closing ns ns' \<and> blocks_ok ns' \<and> (\<forall>j \<in> set js. shut (ns' ! j) \<and> (opens (ns' ! j) \<longrightarrow> cleared j ns'))"
proof (induction fuel sh ch i ns and fuel sh js ns arbitrary: ns' and ns' rule: hide_scope_hide_kids.induct)
  case (2 fuel sh ch i ns)
  let ?n1 = "hide_display i ns"
  let ?n2 = "if ch then upd_node i close_scope ?n1 else ?n1"
  have st: "same_stat ns ?n1" "same_stat ns ?n2"
    using same_stat_trans same_stat_display(2) same_stat_upd(4) by (metis (full_types))+
  have len: "length ?n1 = length ns" "length ?n2 = length ns" using st same_stat_length by blast+
  have k: "hide_kids fuel sh (kids (n_body (?n2 ! i)) ?n2) ?n2 = Some ns'" using 2(2) by (simp add: Let_def)
  have w: "wf_trace ?n2" "blocks_ok ?n2"
    using 2(3) wf_trace_same[OF st(2)] hide_display_blocks[OF 2(4,5)] upd_blocks(2) by simp_all
  have kl: "\<forall>j \<in> set (kids (n_body (?n2 ! i)) ?n2). j < length ?n2" by (simp add: kids_def)
  have IH: "closing ?n2 ns'" "blocks_ok ns'" "\<forall>j \<in> set (kids (n_body (?n2 ! i)) ?n2). shut (ns' ! j) \<and> (opens (ns' ! j) \<longrightarrow> cleared j ns')"
    using 2(1)[OF refl refl k w kl] by blast+
  have s: "same_stat ?n2 ns'" "i < length ?n2" using closing_stat[OF IH(1)] 2(5) len(2) by simp_all
  have "kids (n_body (ns' ! i)) ns' = kids (n_body (?n2 ! i)) ?n2" using s by (rule kids_same)
  then have c: "cleared i ns'"
    using kids_cleared[of ns' i] IH(2,3) w(1) wf_trace_same[OF s(1)] s(2) same_stat_length[OF s(1)] by simp
  have "closing ?n1 ns'" using IH(1) closing_close_scope[of i ?n1 ns'] c len(1) 2(5) by (cases ch) simp_all
  then show ?case using c IH(2) closing_trans[OF closing_hide_display[OF 2(5)]] by blast
next
  case (4 fuel sh j js ns)
  let ?n1 = "upd_node j n_hide ns"
  have j: "j < length ns" "j < length ?n1" "wf_trace ?n1" "blocks_ok ?n1" "n_hidden (?n1 ! j)"
    using 4(6-8) wf_trace_same[OF same_stat_upd(2)] upd_blocks(1) by (simp_all add: upd_node_nth)
  have cont: "closing ns ns' \<and> blocks_ok ns' \<and> (\<forall>x \<in> set (j # js). shut (ns' ! x) \<and> (opens (ns' ! x) \<longrightarrow> cleared x ns'))"
    if m: "closing ?n1 m" "blocks_ok m" "shut (m ! j)" "opens (m ! j) \<Longrightarrow> cleared j m"
      and IH: "wf_trace m \<Longrightarrow> blocks_ok m \<Longrightarrow> \<forall>x \<in> set js. x < length m \<Longrightarrow>
        closing m ns' \<and> blocks_ok ns' \<and> (\<forall>x \<in> set js. shut (ns' ! x) \<and> (opens (ns' ! x) \<longrightarrow> cleared x ns'))" for m
  proof -
    have l: "length m = length ns" "wf_trace m"
      using same_stat_length[OF closing_stat[OF m(1)]] wf_trace_same[OF closing_stat[OF m(1)]] j(3) by simp_all
    then have c: "closing m ns'" "blocks_ok ns'" "\<forall>x \<in> set js. shut (ns' ! x) \<and> (opens (ns' ! x) \<longrightarrow> cleared x ns')"
      using IH m(2) 4(8) by simp_all
    have "shut (ns' ! j)" "opens (ns' ! j) \<Longrightarrow> cleared j ns'"
      using down_shut[OF closing_down[OF c(1)]] down_cleared[OF closing_down[OF c(1)]] m(3,4) j(1) l(1) same_stat_nth(5)[OF closing_stat[OF c(1)]] by simp_all
    then show ?thesis using c closing_trans[OF closing_hide_node closing_trans[OF m(1) c(1)]] by simp
  qed
  from 4(5) show ?case
  proof (cases rule: hide_kids_ConsE)
    case (o m)
    have c: "closing ?n1 m" "blocks_ok m" "cleared j m" using 4(1)[OF refl refl o(1,2) j(3,4,2)] by simp_all
    have "shut (m ! j)"
      using down_nth(1)[OF closing_down[OF c(1)] j(2,5)] o(1) same_stat_nth(1)[OF closing_stat[OF c(1)] j(2)] by (auto simp: shut_def opens_def)
    then show ?thesis using cont[OF c(1,2) _ c(3) 4(2)[OF refl refl o]] by blast
  next
    case d
    have c: "closing ?n1 (hide_display j ?n1)" "blocks_ok (hide_display j ?n1)"
      using closing_hide_display[OF j(2)] hide_display_blocks[OF j(4,2)] by simp_all
    have "shut (hide_display j ?n1 ! j)" "\<not> opens (hide_display j ?n1 ! j)"
      using hide_display_nth(2)[OF j(2,2,5)] hide_display_eye[OF j(2)] d(1) same_stat_nth(5)[OF same_stat_display(2) j(2)] by (auto simp: shut_def)
    then show ?thesis using cont[OF c _ _ 4(3)[OF refl refl d]] by blast
  next
    case r
    have "shut (?n1 ! j)" using r(2) j(5) by (auto simp: shut_def)
    then show ?thesis using cont[OF closing_refl j(4) _ _ 4(4)[OF refl refl r]] r(1) by blast
  qed
qed auto

section \<open>The recursion ends\<close>

lemma scope_bound_greater: "j < length ns \<Longrightarrow> n_scope (ns ! j) < scope_bound ns"
proof -
  have ge: "a \<le> fold max xs a" for xs and a :: nat
  proof (induction xs arbitrary: a)
    case (Cons x xs)
    from Cons[of "max x a"] show ?case by simp
  qed simp
  have "x \<in> set xs \<Longrightarrow> x \<le> fold max xs a" for x xs and a :: nat
  proof (induction xs arbitrary: a)
    case (Cons y xs)
    then show ?case using ge[of "max y a" xs] by auto
  qed simp
  then show "j < length ns \<Longrightarrow> ?thesis" by (simp add: scope_bound_def less_Suc_eq_le)
qed

definition depth :: "trace \<Rightarrow> nat \<Rightarrow> nat" where
  "depth ns i = (case n_body (ns ! i) of None \<Rightarrow> 0 | Some b \<Rightarrow> scope_bound ns - b)"

lemma depth_same: "same_stat ns m \<Longrightarrow> i < length ns \<Longrightarrow> depth m i = depth ns i"
proof -
  assume a: "same_stat ns m" "i < length ns"
  have "map (fst \<circ> snd) (map stat m) = map (fst \<circ> snd) (map stat ns)"
    using a(1) by (simp only: same_stat_def)
  then have "map n_scope m = map n_scope ns" by (simp add: stat_def comp_def)
  then have "scope_bound m = scope_bound ns" by (simp add: scope_bound_def)
  then show ?thesis using same_stat_nth(3)[OF a] by (simp add: depth_def split: option.split)
qed

lemma depth_kids:
  assumes "wf_trace ns" "i < length ns" "j \<in> set (kids (n_body (ns ! i)) ns)"
  shows "j < length ns" "opens (ns ! j) \<Longrightarrow> depth ns j < depth ns i"
proof -
  show j: "j < length ns" using assms(3) by (simp add: kids_def)
  have b: "n_body (ns ! i) = Some (n_scope (ns ! j))" using assms(3) by (simp add: kids_def)
  assume "opens (ns ! j)"
  then obtain c where "n_body (ns ! j) = Some c" "n_scope (ns ! j) < c"
    using wf_traceD(2)[OF assms(1) j] by (auto simp: owner_def)
  then show "depth ns j < depth ns i" using b scope_bound_greater[OF j] by (simp add: depth_def)
qed

text \<open>The nodes of a list are less deep than the fuel.\<close>

definition fuel_ok :: "nat \<Rightarrow> nat list \<Rightarrow> trace \<Rightarrow> bool" where
  "fuel_ok fuel js ns = (wf_trace ns \<and> (\<forall>j \<in> set js. j < length ns \<and> (opens (ns ! j) \<longrightarrow> depth ns j < fuel)))"

lemma fuel_ok_step: "fuel_ok fuel (j # js) ns \<Longrightarrow> same_stat ns m \<Longrightarrow> fuel_ok fuel js m"
  by (auto simp: fuel_ok_def wf_trace_same same_stat_length same_stat_nth depth_same)

lemma fuel_ok_kids:
  assumes "wf_trace ns" "i < length ns" "depth ns i < Suc fuel" "same_stat ns m"
  shows "fuel_ok fuel (kids (n_body (m ! i)) m) m"
proof -
  have w: "wf_trace m" "i < length m" "depth m i < Suc fuel"
    using assms by (auto simp: wf_trace_same same_stat_length depth_same)
  show ?thesis using depth_kids[OF w(1,2)] w by (fastforce simp: fuel_ok_def)
qed

lemma hide_returns:
  "wf_trace ns \<Longrightarrow> i < length ns \<Longrightarrow> depth ns i < fuel \<Longrightarrow> hide_scope fuel sh ch i ns \<noteq> None"
  "fuel_ok fuel js ns \<Longrightarrow> hide_kids fuel sh js ns \<noteq> None"
proof (induction fuel sh ch i ns and fuel sh js ns rule: hide_scope_hide_kids.induct)
  case (2 fuel sh ch i ns)
  have "same_stat ns (if ch then upd_node i close_scope (hide_display i ns) else hide_display i ns)"
    using same_stat_trans same_stat_display(2) same_stat_upd(4) by (metis (full_types))
  from fuel_ok_kids[OF 2(2,3,4) this] 2(1)[OF refl refl] show ?case by (simp add: Let_def)
next
  case (4 fuel sh j js ns)
  let ?n1 = "upd_node j n_hide ns"
  have f: "fuel_ok fuel js m" if "same_stat ?n1 m" for m
    using fuel_ok_step[OF 4(5)] same_stat_trans[OF same_stat_upd(2) that] by blast
  have j: "j < length ns" "opens (?n1 ! j) \<Longrightarrow> depth ?n1 j < fuel" "wf_trace ?n1"
    using 4(5) depth_same[OF same_stat_upd(2)] wf_trace_same[OF same_stat_upd(2)]
    by (auto simp: fuel_ok_def upd_node_nth)
  show ?case
  proof (cases "opens (?n1 ! j)")
    case True
    then obtain m where m: "hide_scope fuel sh sh j ?n1 = Some m" using 4(1)[OF refl refl True] j by auto
    have "same_stat ?n1 m" using hide_same_stat(1)[OF m] .
    then show ?thesis using 4(2)[OF refl refl True m f] m True by (simp add: Let_def)
  next
    case False
    then show ?thesis using 4(3,4)[OF refl refl False] f by (simp add: Let_def)
  qed
qed (simp_all)

lemma show_returns:
  "wf_trace ns \<Longrightarrow> i < length ns \<Longrightarrow> depth ns i < fuel \<Longrightarrow> show_scope fuel i ns \<noteq> None"
  "fuel_ok fuel js ns \<Longrightarrow> show_kids fuel js ns \<noteq> None"
proof (induction fuel i ns and fuel js ns rule: show_scope_show_kids.induct)
  case (2 fuel i ns)
  from fuel_ok_kids[OF 2(2,3,4) same_stat_upd(3)] 2(1)[OF refl] show ?case by (simp add: Let_def)
next
  case (4 fuel j js ns)
  have k: "same_stat ns (show_kid j ns)" by (simp add: show_kid_def)
  have j: "j < length ns" "opens (ns ! j) \<Longrightarrow> depth (show_kid j ns) j < fuel" "wf_trace (show_kid j ns)"
    using 4(5) depth_same[OF k] wf_trace_same[OF k] by (auto simp: fuel_ok_def)
  show ?case
  proof (cases "opens (ns ! j)")
    case True
    have "show_scope fuel j (show_kid j ns) \<noteq> None" if "n_opened (ns ! j)"
      using 4(1)[OF refl True that] j True same_stat_length[OF k] by simp
    then obtain m where m: "(if n_opened (ns ! j) then show_scope fuel j (show_kid j ns) else Some (show_kid j ns)) = Some m"
      by (cases "n_opened (ns ! j)") auto
    then have "same_stat ns m" using show_same_stat(1) same_stat_trans[OF k] k by (auto split: if_splits)
    then show ?thesis using 4(2)[OF refl True m fuel_ok_step[OF 4(5)]] m True by (simp add: Let_def)
  next
    case False
    then show ?thesis using 4(3,4)[OF refl False] fuel_ok_step[OF 4(5)] by (simp add: Let_def)
  qed
qed simp_all

lemma shift_returns:
  "wf_trace ns \<Longrightarrow> i < length ns \<Longrightarrow> depth ns i < fuel \<Longrightarrow> show_scope_shift fuel i ns \<noteq> None"
  "fuel_ok fuel js ns \<Longrightarrow> show_kids_shift fuel js ns \<noteq> None"
proof (induction fuel i ns and fuel js ns rule: show_scope_shift_show_kids_shift.induct)
  case (2 fuel i ns)
  from fuel_ok_kids[OF 2(2,3,4) same_stat_upd(3)] 2(1)[OF refl] show ?case by (simp add: Let_def)
next
  case (4 fuel j js ns)
  let ?n1 = "upd_node j n_show ns"
  have j: "j < length ns" "opens (ns ! j) \<Longrightarrow> depth ?n1 j < fuel" "wf_trace ?n1"
    using 4(5) depth_same[OF same_stat_upd(1)] wf_trace_same[OF same_stat_upd(1)] by (auto simp: fuel_ok_def)
  show ?case
  proof (cases "opens (ns ! j)")
    case True
    obtain m where m: "show_scope_shift fuel j ?n1 = Some m" using 4(1)[OF refl True] j True by auto
    then have "same_stat ns m" using shift_same_stat(1)[OF m] same_stat_trans[OF same_stat_upd(1)] by blast
    then show ?thesis using 4(2)[OF refl True m fuel_ok_step[OF 4(5)]] m True by (simp add: Let_def)
  next
    case False
    then show ?thesis using 4(3,4)[OF refl False] fuel_ok_step[OF 4(5)] by (simp add: Let_def)
  qed
qed simp_all

section \<open>Clicks keep the trace consistent\<close>

definition trace_ok :: "trace \<Rightarrow> bool" where
  "trace_ok ns = (wf_trace ns \<and> shown_ok ns)"

lemma etv_fuel_enough: "depth ns i < etv_fuel ns"
  by (auto simp: depth_def etv_fuel_def split: option.splits)

lemma trace_ok_step: "trace_ok ns \<Longrightarrow> same_stat ns m \<Longrightarrow> shown_ok m \<Longrightarrow> trace_ok m"
  by (simp add: trace_ok_def wf_trace_same)

lemma trace_okD:
  assumes "trace_ok ns" shows "wf_trace ns" "uniq ns" "vis_ok ns" "blocks_ok ns" "shown_ok ns"
  using assms by (simp_all add: trace_ok_def shown_ok_def wf_trace_def)

lemma hide_scope_ok:
  assumes "trace_ok ns" "i < length ns"
  shows "\<exists>m. hide_scope (etv_fuel ns) sh ch i ns = Some m \<and> trace_ok m \<and> same_stat ns m"
proof -
  obtain m where m: "hide_scope (etv_fuel ns) sh ch i ns = Some m"
    using hide_returns(1)[OF trace_okD(1)[OF assms(1)] assms(2) etv_fuel_enough] by auto
  have c: "closing ns m" "blocks_ok m" using hide_closing(1)[OF m trace_okD(1,4)[OF assms(1)] assms(2)] by simp_all
  then have "shown_ok m" using closing_vis_ok[OF c(1) trace_okD(3)[OF assms(1)]] by (simp add: shown_ok_def)
  then show ?thesis using m closing_stat[OF c(1)] trace_ok_step[OF assms(1)] by blast
qed

text \<open>The scope of a visible node that owns another scope is live: such a node is no declaration of a block.\<close>

lemma visible_owner_live:
  assumes "trace_ok ns" "i < length ns" "\<not> n_hidden (ns ! i)" "owner (ns ! i)"
  shows "live (n_scope (ns ! i)) ns"
proof -
  have "\<not> loose ns i" using wf_traceD(5)[OF trace_okD(1)[OF assms(1)] assms(2)] assms(4) by (auto simp: loose_def)
  then show ?thesis using trace_okD(3)[OF assms(1)] assms(2,3) by (simp add: vis_ok_live)
qed

lemma enter_click_ok:
  assumes "trace_ok ns" "i < length ns" "opens (ns ! i)" "\<not> n_hidden (ns ! i)"
  shows "\<exists>m. enter_click sh i ns = Some m \<and> trace_ok m \<and> same_stat ns m"
proof -
  have "live (n_scope (ns ! i)) ns" using visible_owner_live[OF assms(1,2,4)] assms(3) by (simp add: owner_def)
  then have r: "scope_ready i ns" using assms trace_okD(2,5)[OF assms(1)] by (simp add: scope_ready_def)
  note w = trace_okD(1)[OF assms(1)]
  obtain a where a: "show_scope (etv_fuel ns) i ns = Some a"
    using show_returns(1)[OF w assms(2) etv_fuel_enough] by auto
  obtain b where b: "show_scope_shift (etv_fuel ns) i ns = Some b"
    using shift_returns(1)[OF w assms(2) etv_fuel_enough] by auto
  have "vis_step ns a" "vis_step ns b" using show_vis(1)[OF a r] shift_vis(1)[OF b r] by auto
  then have "trace_ok a \<and> same_stat ns a" "trace_ok b \<and> same_stat ns b"
    using trace_ok_step[OF assms(1)] by (auto simp: vis_step_def)
  then show ?thesis using hide_scope_ok[OF assms(1,2), of sh True] a b by (auto simp: enter_click_def)
qed

lemma exit_click_ok:
  assumes "trace_ok ns" shows "\<exists>m. exit_click sh sc ns = Some m \<and> trace_ok m \<and> same_stat ns m"
proof (cases "filter (\<lambda>i. n_body (ns ! i) = Some sc) [0..<length ns]")
  case Nil
  then show ?thesis using assms by (simp add: exit_click_def)
next
  case (Cons i js)
  then have "i \<in> set (filter (\<lambda>i. n_body (ns ! i) = Some sc) [0..<length ns])" by simp
  then have "i < length ns" by simp
  then show ?thesis using hide_scope_ok[OF assms] Cons by (simp add: exit_click_def)
qed

lemma eye_click_ok:
  assumes "trace_ok ns" "i < length ns" "\<not> n_hidden (ns ! i)"
  shows "trace_ok (eye_click i ns)" "same_stat ns (eye_click i ns)"
proof -
  note t = trace_okD[OF assms(1)]
  have "shown_ok (show_display i ns)"
    using show_display_vis(1)[OF t(3,2) assms(2) visible_owner_live[OF assms]]
      show_display_blocks[OF t(4,2) assms(2) wf_traceD(4)[OF t(1) assms(2)]] by (simp add: shown_ok_def)
  moreover have "shown_ok (hide_display i ns)"
    using closing_vis_ok[OF closing_hide_display[OF assms(2)] t(3)] hide_display_blocks[OF t(4) assms(2)] by (simp add: shown_ok_def)
  ultimately show "trace_ok (eye_click i ns)" "same_stat ns (eye_click i ns)"
    using trace_ok_step[OF assms(1)] by (simp_all add: eye_click_def)
qed

lemma link_click_ok:
  assumes "trace_ok ns" "i < length ns" "\<not> n_hidden (ns ! i)"
  shows "\<exists>m. link_click i ns = Some m \<and> trace_ok m \<and> same_stat ns m"
  using enter_click_ok[OF assms(1,2) _ assms(3)] wf_traceD(3)[OF trace_okD(1)[OF assms(1)] assms(2)] assms(1)
  by (auto simp: link_click_def)

text \<open>Selecting a line changes nothing the scopes depend on.\<close>

lemma marks_ok:
  assumes "trace_ok ns" "length m = length ns"
    and "\<And>j. j < length ns \<Longrightarrow> stat (m ! j) = stat (ns ! j) \<and> n_hidden (m ! j) = n_hidden (ns ! j)
      \<and> n_opened (m ! j) = n_opened (ns ! j) \<and> n_eye (m ! j) = n_eye (ns ! j)"
  shows "trace_ok m" "same_stat ns m"
proof -
  show st: "same_stat ns m" using assms(2,3) by (simp add: same_stat_def list_eq_iff_nth_eq)
  have "mono_open ns m" using assms(3) by (simp add: mono_open_def)
  then have "vis_ok m" using assms trace_okD(3) by (intro grow_vis_ok[OF st]) auto
  moreover have "blocks_ok m" using assms(3) by (intro blocks_step[OF st trace_okD(4)[OF assms(1)]]) auto
  ultimately show "trace_ok m" using trace_ok_step[OF assms(1) st] by (simp add: shown_ok_def)
qed

lemma et_nodes_frame [simp]:
  "et_nodes (emit x p) = et_nodes p" "et_nodes (err_notify s dur p) = et_nodes p"
  "et_nodes (update_id i f p) = et_nodes p" "et_nodes (send m u d t p) = et_nodes p"
  "et_nodes (mark_line g n b p) = et_nodes p" "et_nodes (clear_container p) = et_nodes p"
  by (simp_all add: emit_def err_notify_def update_id_def send_def mark_line_def clear_container_def)

lemma et_nodes_source [simp]:
  "et_nodes (unselect_line p) = et_nodes p" "et_nodes (preserveState l f p) = et_nodes p"
  by (simp_all add: unselect_line_def preserveState_def Let_def split: option.splits)

lemma et_nodes_get_source [simp]: "et_nodes (get_source l f b p) = et_nodes p"
  by (simp add: get_source_def select_line_def select_span_def Let_def split: option.splits prod.splits)

lemma et_nodes_line_click: "et_nodes (line_click i p) = select_node i (unselect_nodes (et_nodes p))"
  by (auto simp: line_click_def unselect_etv_line_def Let_def split: option.splits prod.splits jsval.splits)

lemma select_ok:
  assumes "trace_ok ns"
  shows "trace_ok (select_node i (unselect_nodes ns))" "same_stat ns (select_node i (unselect_nodes ns))"
proof -
  let ?m = "select_node i (unselect_nodes ns)"
  have l: "length ?m = length ns" by (simp add: select_node_def unselect_nodes_def)
  have "stat (?m ! j) = stat (ns ! j) \<and> n_hidden (?m ! j) = n_hidden (ns ! j) \<and> n_opened (?m ! j) = n_opened (ns ! j)
      \<and> n_eye (?m ! j) = n_eye (ns ! j)" if "j < length ns" for j
    using that by (simp add: select_node_def unselect_nodes_def upd_node_nth stat_def)
  from marks_ok[OF assms l this] show "trace_ok ?m" "same_stat ns ?m" by auto
qed

lemma node_line_click_ok:
  assumes "trace_ok (et_nodes p)"
  shows "trace_ok (et_nodes (node_line_click i p))" "same_stat (et_nodes p) (et_nodes (node_line_click i p))"
  using assms select_ok[OF assms] by (auto simp: node_line_click_def et_nodes_line_click)

datatype etv_event =
    Enter_link bool nat
  | Exit_link bool nat
  | Open_eye nat
  | Line_link nat
  | Action_text nat
  | Show_comment nat
  | Note_line nat
  | Source_event source_event

text \<open>The links a visible node offers.\<close>

fun clickable :: "etv_event \<Rightarrow> trace \<Rightarrow> bool" where
  "clickable (Enter_link _ i) ns = (i < length ns \<and> \<not> n_hidden (ns ! i) \<and> n_link (ns ! i) \<noteq> None)"
| "clickable (Exit_link _ _) ns = True"
| "clickable (Open_eye i) ns = (i < length ns \<and> \<not> n_hidden (ns ! i) \<and> n_eye (ns ! i) \<noteq> None)"
| "clickable (Line_link i) ns = (i < length ns \<and> \<not> n_hidden (ns ! i) \<and> n_line (ns ! i) \<noteq> None)"
| "clickable (Action_text i) ns = (i < length ns \<and> \<not> n_hidden (ns ! i) \<and> opens (ns ! i))"
| "clickable (Show_comment i) ns = (i < length ns \<and> \<not> n_hidden (ns ! i) \<and> n_type (ns ! i) = Note \<and> n_hides (ns ! i))"
| "clickable (Note_line i) ns = (i < length ns \<and> \<not> n_hidden (ns ! i) \<and> n_type (ns ! i) = Note)"
| "clickable (Source_event ev) ns = fresh_event ev"

fun etv_handle :: "etv_event \<Rightarrow> 'a etv_page_scheme \<Rightarrow> 'a etv_page_scheme option" where
  "etv_handle (Enter_link sh i) p = on_nodes (enter_click sh i) p"
| "etv_handle (Exit_link sh sc) p = on_nodes (exit_click sh sc) p"
| "etv_handle (Open_eye i) p = on_nodes (\<lambda>ns. Some (eye_click i ns)) p"
| "etv_handle (Line_link i) p = Some (line_click i p)"
| "etv_handle (Action_text i) p = action_click i p"
| "etv_handle (Show_comment i) p = show_comment_click i p"
| "etv_handle (Note_line i) p = Some (note_click i p)"
| "etv_handle (Source_event ev) p = Some (source_step unselect_etv_line ev p)"

fun etv_run :: "etv_event list \<Rightarrow> 'a etv_page_scheme \<Rightarrow> 'a etv_page_scheme option" where
  "etv_run [] p = Some p"
| "etv_run (ev # evs) p =
     (if clickable ev (et_nodes p)
      then (case etv_handle ev p of None \<Rightarrow> None | Some q \<Rightarrow> etv_run evs q)
      else etv_run evs p)"

lemma on_nodes_ok:
  assumes "\<exists>m. f (et_nodes p) = Some m \<and> trace_ok m \<and> same_stat (et_nodes p) m"
  shows "\<exists>q. on_nodes f p = Some q \<and> trace_ok (et_nodes q) \<and> same_stat (et_nodes p) (et_nodes q)"
  using assms by (auto simp: on_nodes_def)

lemma action_click_ok:
  assumes "trace_ok (et_nodes p)" "i < length (et_nodes p)" "\<not> n_hidden (et_nodes p ! i)"
  shows "\<exists>q. action_click i p = Some q \<and> trace_ok (et_nodes q)"
proof -
  obtain q where q: "on_nodes (link_click i) p = Some q" "trace_ok (et_nodes q)"
    using on_nodes_ok[of "link_click i" p] link_click_ok[OF assms] by blast
  then show ?thesis using node_line_click_ok(1)[OF q(2)] by (simp add: action_click_def)
qed

text \<open>The node after a visible note may be shown.\<close>

lemma after_note:
  assumes "trace_ok ns" "Suc i < length ns" "clickable (Show_comment i) ns"
  shows "n_commented (ns ! Suc i)" "loose ns (Suc i) \<or> live (n_scope (ns ! Suc i)) ns"
proof -
  let ?s = "n_scope (ns ! Suc i)"
  note w = trace_okD(1)[OF assms(1)]
  have i: "i < length ns" "\<not> n_hidden (ns ! i)" "n_type (ns ! i) = Note" "n_hides (ns ! i)" using assms(3) by simp_all
  have n: "n_commented (ns ! Suc i) \<and> (?s = n_scope (ns ! i) \<or> (\<forall>k < length ns. opens (ns ! k) \<longrightarrow> n_body (ns ! k) \<noteq> Some ?s))"
    using w i assms(2) by (simp add: wf_trace_def)
  then show c: "n_commented (ns ! Suc i)" by simp
  have "live (n_scope (ns ! i)) ns"
    using wf_traceD(6)[OF w i(1,3)] trace_okD(3)[OF assms(1)] i(1,2) by (simp add: vis_ok_live loose_def)
  moreover have "in_block ns (Suc i) \<or> live ?s ns" if o: "\<forall>k < length ns. opens (ns ! k) \<longrightarrow> n_body (ns ! k) \<noteq> Some ?s"
  proof -
    have "in_block ns (Suc i)" if "nests ns t ?s" for t using that o by (auto simp: nests_def in_block_def owner_def)
    moreover have "live ?s ns" if "\<And>t. \<not> nests ns t ?s" using that o by (auto simp: live_def elim: rtranclp.cases)
    ultimately show ?thesis by blast
  qed
  ultimately show "loose ns (Suc i) \<or> live ?s ns" using n by (auto simp: loose_def)
qed

lemma show_comment_ok:
  assumes "trace_ok (et_nodes p)" "clickable (Show_comment i) (et_nodes p)"
  shows "\<exists>q. show_comment_click i p = Some q \<and> trace_ok (et_nodes q)"
proof (cases "Suc i < length (et_nodes p)")
  case j: True
  let ?ns = "et_nodes p"
  note t = trace_okD[OF assms(1)]
  show ?thesis
  proof (cases "n_hidden (?ns ! Suc i)")
    case True
    let ?m = "upd_node (Suc i) n_show ?ns"
    have "shown_ok ?m" using show_node_vis(1)[OF t(3) j after_note(2)[OF assms(1) j assms(2)]]
        show_node_blocks[OF t(4) j] after_note(1)[OF assms(1) j assms(2)] by (simp add: shown_ok_def)
    then have "trace_ok ?m" using trace_ok_step[OF assms(1) same_stat_upd(1)] by blast
    from link_click_ok[OF this, of "Suc i"] j
    obtain m where m: "link_click (Suc i) ?m = Some m" "trace_ok m" by (auto simp: upd_node_nth)
    then show ?thesis using node_line_click_ok(1)[of "p\<lparr>et_nodes := m\<rparr>" "Suc i"] j True
      by (simp add: show_comment_click_def on_nodes_def Let_def)
  next
    case False
    obtain m where m: "(if n_opened (?ns ! Suc i) then link_click (Suc i) ?ns else Some ?ns) = Some m" "trace_ok m"
      using link_click_ok[OF assms(1) j False] assms(1) by (cases "n_opened (?ns ! Suc i)") auto
    have "shown_ok (upd_node (Suc i) n_hide m)"
      using closing_vis_ok[OF closing_hide_node] upd_blocks(1) trace_okD[OF m(2)] by (simp add: shown_ok_def)
    then have "trace_ok (upd_node (Suc i) n_hide m)" using trace_ok_step[OF m(2) same_stat_upd(2)] by blast
    then show ?thesis using m j False by (simp add: show_comment_click_def on_nodes_def Let_def)
  qed
qed (use assms in \<open>simp add: show_comment_click_def\<close>)

lemma note_click_ok:
  assumes "trace_ok (et_nodes p)"
  shows "trace_ok (et_nodes (note_click i p))"
proof -
  let ?q = "if Suc i < length (et_nodes p) then node_line_click (Suc i) p else p"
  have q: "trace_ok (et_nodes ?q)" using assms node_line_click_ok(1)[OF assms] by simp
  have "stat (upd_node i (\<lambda>n. n\<lparr>n_note_selected := True\<rparr>) ns ! j) = stat (ns ! j)
      \<and> n_hidden (upd_node i (\<lambda>n. n\<lparr>n_note_selected := True\<rparr>) ns ! j) = n_hidden (ns ! j)
      \<and> n_opened (upd_node i (\<lambda>n. n\<lparr>n_note_selected := True\<rparr>) ns ! j) = n_opened (ns ! j)
      \<and> n_eye (upd_node i (\<lambda>n. n\<lparr>n_note_selected := True\<rparr>) ns ! j) = n_eye (ns ! j)" if "j < length ns" for j ns
    using that by (simp add: upd_node_nth stat_def)
  from marks_ok(1)[OF q _ this] show ?thesis by (simp add: note_click_def Let_def)
qed

lemma et_nodes_source_step:
  "et_nodes (source_step unselect_etv_line ev p) \<in> {et_nodes p, unselect_nodes (et_nodes p)}"
proof -
  have "et_nodes (select_span s p) = et_nodes p" for s and p :: "'a etv_page_scheme"
    by (simp add: select_span_def Let_def split: option.splits prod.splits)
  moreover have "et_nodes (data_name_click n p) = et_nodes p" for n and p :: "'a etv_page_scheme"
    by (simp add: data_name_click_def)
  moreover have "et_nodes (refresh p) = et_nodes p" for p :: "'a etv_page_scheme"
    by (simp add: refresh_def Let_def split: option.splits)
  ultimately show ?thesis
    by (cases ev) (auto simp: source_step_def get_source_success_def select_line_def popstate_def ref_link_click_def
        ref_to_click_def unselect_etv_line_def show_references_def show_declarations_def line_mouse_def cov_data_click_def
        cov_data_success_def cov_data_fail_def markSelection_def Let_def split: option.splits list.splits prod.splits)
qed

lemma source_event_ok:
  assumes "trace_ok (et_nodes p)" shows "trace_ok (et_nodes (source_step unselect_etv_line ev p))"
proof -
  have "trace_ok (unselect_nodes (et_nodes p))"
    by (rule marks_ok(1)[OF assms]) (simp_all add: unselect_nodes_def stat_def)
  then show ?thesis using assms et_nodes_source_step[of ev p] by auto
qed

lemma etv_handle_ok:
  assumes "trace_ok (et_nodes p)" "clickable ev (et_nodes p)"
  shows "\<exists>q. etv_handle ev p = Some q \<and> trace_ok (et_nodes q)"
proof (cases ev)
  case (Enter_link sh i)
  then have "opens (et_nodes p ! i)" using assms(2) wf_traceD(3)[OF trace_okD(1)[OF assms(1)], of i] by simp
  then show ?thesis
    using on_nodes_ok[of "enter_click sh i" p] enter_click_ok[OF assms(1), of i sh] Enter_link assms(2) by auto
next
  case (Exit_link sh sc)
  then show ?thesis using on_nodes_ok[of "exit_click sh sc" p] exit_click_ok[OF assms(1), of sh sc] by auto
next
  case (Open_eye i)
  then show ?thesis using eye_click_ok[OF assms(1)] assms(2) by (simp add: on_nodes_def)
next
  case (Line_link i)
  then show ?thesis using select_ok(1)[OF assms(1)] by (simp add: et_nodes_line_click)
next
  case (Action_text i)
  then show ?thesis using action_click_ok[OF assms(1)] assms(2) by auto
next
  case (Show_comment i)
  then show ?thesis using show_comment_ok[OF assms(1)] assms(2) by simp
next
  case (Note_line i)
  then show ?thesis using note_click_ok[OF assms(1)] by simp
next
  case (Source_event e)
  then show ?thesis using source_event_ok[OF assms(1)] by simp
qed

lemma etv_run_ok: "trace_ok (et_nodes p) \<Longrightarrow> \<exists>q. etv_run evs p = Some q \<and> trace_ok (et_nodes q)"
proof (induction evs arbitrary: p)
  case (Cons ev evs)
  then show ?case using etv_handle_ok[OF Cons.prems, of ev] by (cases "clickable ev (et_nodes p)") auto
qed simp

text \<open>
  C1. However the user clicks through an error trace, every click is handled: the recursion over
  nested scopes ends. Afterwards no node is visible inside a function or an action that is closed,
  at whatever depth it is nested there, and no node of a block of declarations whose eye is closed;
  the only exception are declarations of a block that a note stands for, which the link of the note shows.
\<close>

theorem etv_clicks_keep_scopes:
  assumes "wf_trace (et_nodes p)" and "vis_ok (et_nodes p)" and "blocks_ok (et_nodes p)"
  shows "\<exists>q. etv_run evs p = Some q \<and> wf_trace (et_nodes q) \<and> vis_ok (et_nodes q) \<and> blocks_ok (et_nodes q)"
  using etv_run_ok[of p evs] assms by (auto simp: trace_ok_def shown_ok_def)

definition mk_node :: "node_type \<Rightarrow> nat \<Rightarrow> nat option \<Rightarrow> node" where
  "mk_node t s b = \<lparr>n_type = t, n_scope = s, n_body = b, n_opened = False, n_commented = False, n_hides = False, n_level = 0,
     n_hidden = False, n_eye = None, n_pink = False, n_link = None, n_display_hidden = False,
     n_source_hidden = False, n_line = None, n_selected = False, n_note_selected = False,
     n_old_assumes = None, n_new_assumes = None\<rparr>"

text \<open>A function with a block of two declarations, one of them behind a note, and a nested function.\<close>

definition demo_trace :: trace where
  "demo_trace =
     [(mk_node Function_call 0 (Some 1))\<lparr>n_opened := True, n_link := Some True\<rparr>,
      (mk_node Declarations 1 (Some 2))\<lparr>n_eye := Some False\<rparr>,
      (mk_node Declaration 2 None)\<lparr>n_hidden := True\<rparr>,
      (mk_node Note 1 None)\<lparr>n_hides := True\<rparr>,
      (mk_node Declaration 2 None)\<lparr>n_commented := True, n_hidden := True\<rparr>,
      (mk_node Function_call 1 (Some 3))\<lparr>n_opened := True, n_link := Some True\<rparr>,
      mk_node Statement 3 None,
      mk_node Exit 1 (Some 1)]"

definition demo_etv :: etv_page where
  "demo_etv = source_page.extend demo_source \<lparr>et_nodes = demo_trace, et_assumptions = [], et_data = [], et_with_data = True\<rparr>"

lemma demo_etv_nodes: "et_nodes demo_etv = demo_trace"
  by (simp add: demo_etv_def source_page.defs)

lemma demo_trace_wf: "wf_trace demo_trace"
  by (simp add: demo_trace_def mk_node_def wf_trace_def in_block_def uniq_def owner_def opens_def All_less_Suc Ex_less_Suc numeral_eq_Suc) blast

lemma demo_trace_blocks: "blocks_ok demo_trace"
  by (simp add: demo_trace_def mk_node_def blocks_ok_def All_less_Suc numeral_eq_Suc)

lemma demo_trace_vis: "vis_ok demo_trace"
  by (simp add: demo_trace_def mk_node_def vis_ok_def opens_def All_less_Suc numeral_eq_Suc)

theorem etv_clicks_keep_scopes_witness:
  "\<exists>q. etv_run [Show_comment 3, Enter_link False 0, Enter_link True 0] demo_etv = Some q \<and> vis_ok (et_nodes q)"
  using etv_clicks_keep_scopes[of demo_etv "[Show_comment 3, Enter_link False 0, Enter_link True 0]"]
    demo_trace_wf demo_trace_blocks demo_trace_vis demo_etv_nodes by auto

section \<open>What closing a scope hides\<close>

text \<open>\<open>x\<close> is not reached from the nodes \<open>js\<close>.\<close>

definition apart :: "trace \<Rightarrow> nat list \<Rightarrow> nat \<Rightarrow> bool" where
  "apart ns js x = (x < length ns \<and> (\<forall>k \<in> set js. k < length ns \<and> k \<noteq> x \<and> (owner (ns ! k) \<longrightarrow> \<not> inside ns k x)))"

lemma inside_kid: "x < length ns \<Longrightarrow> n_body (ns ! i) = Some (n_scope (ns ! x)) \<Longrightarrow> inside ns i x"
  by (simp add: inside_def)

lemma inside_nested:
  assumes "k < length ns" "owner (ns ! k)" "n_body (ns ! i) = Some (n_scope (ns ! k))" "inside ns k x"
  shows "inside ns i x"
proof -
  obtain c where c: "n_body (ns ! k) = Some c" "(nests ns)\<^sup>*\<^sup>* c (n_scope (ns ! x))" using assms(4) by (auto simp: inside_def)
  then have "nests ns (n_scope (ns ! k)) c" using assms(1,2) by (auto simp: nests_def)
  then show ?thesis using c(2) assms(3,4) by (auto simp: inside_def intro: converse_rtranclp_into_rtranclp)
qed

lemma hide_display_frame:
  "i < length ns \<Longrightarrow> x < length ns \<Longrightarrow> i \<noteq> x \<Longrightarrow> \<not> inside ns i x \<Longrightarrow> hide_display i ns ! x = ns ! x"
  using inside_kid hide_display_else by blast

lemma apart_step: "apart ns (j # js) x \<Longrightarrow> same_stat ns m \<Longrightarrow> apart m js x"
  by (simp add: apart_def inside_same same_stat_length owner_same)

lemma apart_kids: "\<not> inside ns i x \<Longrightarrow> x < length ns \<Longrightarrow> apart ns (kids (n_body (ns ! i)) ns) x"
  using inside_kid[of x ns i] inside_nested[of _ ns i x] by (auto simp: apart_def kids_def)

lemma hide_frame:
  "hide_scope fuel sh ch i ns = Some ns' \<Longrightarrow> i < length ns \<Longrightarrow> x < length ns \<Longrightarrow> \<not> inside ns i x \<Longrightarrow>
    (i \<noteq> x \<longrightarrow> ns' ! x = ns ! x) \<and> (i = x \<longrightarrow> n_hidden (ns' ! x) = n_hidden (ns ! x))"
  "hide_kids fuel sh js ns = Some ns' \<Longrightarrow> apart ns js x \<Longrightarrow> ns' ! x = ns ! x"
proof (induction fuel sh ch i ns and fuel sh js ns arbitrary: ns' and ns' rule: hide_scope_hide_kids.induct)
  case (2 fuel sh ch i ns)
  let ?n1 = "hide_display i ns"
  let ?n2 = "if ch then upd_node i close_scope ?n1 else ?n1"
  have st: "same_stat ns ?n2" using same_stat_trans same_stat_display(2) same_stat_upd(4) by (metis (full_types))
  have k: "hide_kids fuel sh (kids (n_body (?n2 ! i)) ?n2) ?n2 = Some ns'" using 2(2) by (simp add: Let_def)
  have "apart ?n2 (kids (n_body (?n2 ! i)) ?n2) x"
    using 2(3,4,5) inside_same[OF st] same_stat_length[OF st] by (intro apart_kids) auto
  then have "ns' ! x = ?n2 ! x" using 2(1)[OF refl refl k] by blast
  moreover have "n_hidden (?n1 ! i) = n_hidden (ns ! i)" if "i = x"
    using that 2(3,5) inside_kid[of i ns i] hide_display_own by blast
  moreover have "length ?n1 = length ns" using same_stat_length[OF same_stat_display(2)] .
  ultimately show ?case using hide_display_frame[OF 2(3,4) _ 2(5)] 2(3,4) by (auto simp: upd_node_nth)
next
  case (4 fuel sh j js ns)
  let ?n1 = "upd_node j n_hide ns"
  have a: "x < length ns" "j < length ns" "j \<noteq> x" "owner (?n1 ! j) \<Longrightarrow> \<not> inside ?n1 j x"
    using 4(6) inside_same[OF same_stat_upd(2)] owner_same[OF same_stat_upd(2)] by (auto simp: apart_def)
  have n1: "?n1 ! x = ns ! x" using a by (simp add: upd_node_nth)
  have ap: "apart m js x" if "same_stat ?n1 m" for m
    using apart_step[OF 4(6)] same_stat_trans[OF same_stat_upd(2) that] by blast
  from 4(5) show ?case
  proof (cases rule: hide_kids_ConsE)
    case (o m)
    have "owner (?n1 ! j)" using o(1) by (simp add: owner_def)
    then show ?thesis using 4(1)[OF refl refl o(1,2)] 4(2)[OF refl refl o ap[OF hide_same_stat(1)[OF o(2)]]] a n1 by simp
  next
    case d
    have "owner (?n1 ! j)" using d(2) by (simp add: owner_def)
    then have "hide_display j ?n1 ! x = ?n1 ! x" using a by (intro hide_display_frame) simp_all
    then show ?thesis using 4(3)[OF refl refl d ap] n1 by simp
  next
    case r
    show ?thesis using 4(4)[OF refl refl r ap] n1 by simp
  qed
qed auto

text \<open>The node itself is closed; without \<open>shift\<close> the nested ones keep whether they are open.\<close>

lemma hide_closes:
  assumes "hide_scope fuel sh True i ns = Some m" "wf_trace ns" "blocks_ok ns" "i < length ns"
  shows "\<not> n_opened (m ! i)"
proof (cases fuel)
  case (Suc f)
  let ?n2 = "upd_node i close_scope (hide_display i ns)"
  have st: "same_stat ns ?n2" using same_stat_trans same_stat_display(2) same_stat_upd(4) by blast
  have l: "i < length ?n2" "\<not> n_opened (?n2 ! i)" using same_stat_length[OF st] assms(4) by (simp_all add: upd_node_nth)
  have k: "hide_kids f sh (kids (n_body (?n2 ! i)) ?n2) ?n2 = Some m" using assms(1) Suc by (simp add: Let_def)
  have "closing ?n2 m"
    using hide_closing(2)[OF k] wf_trace_same[OF st] assms(2) upd_blocks(2)[OF hide_display_blocks[OF assms(3,4)]] by (simp add: kids_def)
  then show ?thesis using down_nth(2)[OF closing_down l(1)] l(2) by blast
qed (use assms in simp)

lemma hide_keeps_opened:
  "hide_scope fuel sh ch i ns = Some ns' \<Longrightarrow> \<not> sh \<Longrightarrow> i < length ns \<Longrightarrow> x < length ns \<Longrightarrow> x \<noteq> i \<or> \<not> ch \<Longrightarrow>
    n_opened (ns' ! x) = n_opened (ns ! x)"
  "hide_kids fuel sh js ns = Some ns' \<Longrightarrow> \<not> sh \<Longrightarrow> \<forall>j \<in> set js. j < length ns \<Longrightarrow> x < length ns \<Longrightarrow>
    n_opened (ns' ! x) = n_opened (ns ! x)"
proof (induction fuel sh ch i ns and fuel sh js ns arbitrary: ns' and ns' rule: hide_scope_hide_kids.induct)
  case (2 fuel sh ch i ns)
  let ?n1 = "hide_display i ns"
  let ?n2 = "if ch then upd_node i close_scope ?n1 else ?n1"
  have l: "length ?n1 = length ns" "length ?n2 = length ns" using same_stat_length[OF same_stat_display(2)] by auto
  have k: "hide_kids fuel sh (kids (n_body (?n2 ! i)) ?n2) ?n2 = Some ns'" using 2(2) by (simp add: Let_def)
  have "n_opened (ns' ! x) = n_opened (?n2 ! x)" using 2(1)[OF refl refl k 2(3)] 2(5) l(2) by (simp add: kids_def)
  then show ?case using 2(4-6) l hide_display_nth(1)[of x ns i] by (auto simp: upd_node_nth)
next
  case (4 fuel sh j js ns)
  let ?n1 = "upd_node j n_hide ns"
  have n1: "n_opened (?n1 ! x) = n_opened (ns ! x)" "j < length ?n1" "x < length ?n1" using 4(7,8) by (simp_all add: upd_node_nth)
  from 4(5) show ?case
  proof (cases rule: hide_kids_ConsE)
    case (o m)
    then show ?thesis
      using 4(1)[OF refl refl o(1,2)] 4(2)[OF refl refl o] 4(6-8) n1 same_stat_length[OF hide_same_stat(1)[OF o(2)]] by simp
  next
    case d
    then show ?thesis using 4(3)[OF refl refl d] 4(6-8) n1 hide_display_nth(1)[OF n1(3,2)] same_stat_length[OF same_stat_display(2)[of ?n1 j]] by simp
  next
    case r
    then show ?thesis using 4(4)[OF refl refl r] 4(6-8) n1 by simp
  qed
qed auto

text \<open>
  C24. Closing a function or an action ends. It hides every node inside it, through all nested
  functions, actions and blocks of declarations, except declarations of a block that a note stands
  for. Its own node becomes closed and stays as visible as it was, every node outside keeps all of
  its attributes, and without the shift key the functions inside stay as open as they were.
\<close>

theorem closing_hides_exactly_the_inside:
  assumes "wf_trace ns" and "blocks_ok ns" and "i < length ns" and "opens (ns ! i)"
  shows "\<exists>m. hide_scope (etv_fuel ns) shift True i ns = Some m
    \<and> (\<forall>x. inside ns i x \<longrightarrow> n_hidden (m ! x) \<or> loose ns x)
    \<and> \<not> n_opened (m ! i) \<and> n_hidden (m ! i) = n_hidden (ns ! i)
    \<and> (\<forall>x < length ns. x \<noteq> i \<and> \<not> inside ns i x \<longrightarrow> m ! x = ns ! x)
    \<and> (\<not> shift \<longrightarrow> (\<forall>x < length ns. x \<noteq> i \<longrightarrow> n_opened (m ! x) = n_opened (ns ! x)))"
proof -
  obtain m where m: "hide_scope (etv_fuel ns) shift True i ns = Some m"
    using hide_returns(1)[OF assms(1,3) etv_fuel_enough] by auto
  have st: "same_stat ns m" by (rule hide_same_stat(1)[OF m])
  have "cleared i m" using hide_closing(1)[OF m assms(1-3)] by simp
  then have "\<forall>x. inside ns i x \<longrightarrow> n_hidden (m ! x) \<or> loose ns x"
    using inside_same[OF st assms(3)] loose_same[OF st] inside_less by (auto simp: cleared_def)
  moreover have "\<not> inside ns i i" using not_inside_itself[OF assms(1,3)] assms(4) by (simp add: owner_def)
  ultimately show ?thesis
    using m hide_frame(1)[OF m assms(3)] hide_closes[OF m assms(1-3)] hide_keeps_opened(1)[OF m _ assms(3)] assms(3) by auto
qed

theorem closing_hides_exactly_the_inside_witness:
  "\<exists>m. hide_scope (etv_fuel demo_trace) False True 0 demo_trace = Some m \<and> n_hidden (m ! 6) \<and> \<not> n_hidden (m ! 0) \<and> n_opened (m ! 5)"
proof -
  have b: "length demo_trace = 8" "n_body (demo_trace ! 0) = Some 1" "n_body (demo_trace ! 5) = Some 3" "n_scope (demo_trace ! 5) = 1"
    "n_scope (demo_trace ! 6) = 3" "opens (demo_trace ! 0)" "opens (demo_trace ! 5)" "\<not> n_hidden (demo_trace ! 0)"
    "n_opened (demo_trace ! 5)" "\<not> n_commented (demo_trace ! 6)"
    by (simp_all add: demo_trace_def mk_node_def opens_def)
  have "inside demo_trace 0 6"
    using inside_nested[of 5 demo_trace 0 6] inside_kid[of 6 demo_trace 5] b by (simp add: owner_def)
  then show ?thesis
    using closing_hides_exactly_the_inside[of demo_trace 0 False] demo_trace_wf demo_trace_blocks b by (auto simp: loose_def)
qed

section \<open>Declarations behind a note\<close>

text \<open>Declaration \<open>x\<close> is visible although the eye of its block \<open>d\<close> is closed.\<close>

definition stray :: "trace \<Rightarrow> nat \<Rightarrow> nat \<Rightarrow> bool" where
  "stray ns d x = (d < length ns \<and> x < length ns \<and> n_type (ns ! d) = Declarations \<and> n_eye (ns ! d) \<noteq> Some True
     \<and> n_body (ns ! d) = Some (n_scope (ns ! x)) \<and> \<not> n_hidden (ns ! x))"

lemma stray_step:
  assumes "stray ns d x" "down ns m" "m ! x = ns ! x" shows "stray m d x"
  using assms same_stat_nth[OF down_stat[OF assms(2)], of d] same_stat_length[OF down_stat[OF assms(2)]] down_nth(3)[OF assms(2), of d]
  by (auto simp: stray_def)

lemma stray_other:
  assumes "wf_trace ns" "stray ns d x" "i < length ns" "owner (ns ! i)" "i \<noteq> d"
  shows "i \<noteq> x" "n_body (ns ! i) \<noteq> Some (n_scope (ns ! x))"
proof -
  have d: "d < length ns" "x < length ns" "n_type (ns ! d) = Declarations" "n_body (ns ! d) = Some (n_scope (ns ! x))"
    using assms(2) by (simp_all add: stray_def)
  then have "in_block ns x" by (auto simp: in_block_def)
  then show "i \<noteq> x" using wf_traceD(5)[OF assms(1) d(2)] assms(4) by blast
  show "n_body (ns ! i) \<noteq> Some (n_scope (ns ! x))"
    using uniqD[OF wf_traceD(1)[OF assms(1) d(1)] assms(3) d(1) assms(4) _ _ d(4)] d(3) assms(5) by (auto simp: owner_def)
qed

lemma stray_hide_display:
  assumes "wf_trace ns" "stray ns d x" "i < length ns" "owner (ns ! i)" "i \<noteq> d"
  shows "stray (hide_display i ns) d x"
  using stray_step[OF assms(2) closing_down[OF closing_hide_display[OF assms(3)]]]
    hide_display_else[OF _ assms(3) stray_other[OF assms]] assms(2) by (simp add: stray_def)

lemma stray_hide:
  "hide_scope fuel sh ch i ns = Some ns' \<Longrightarrow> wf_trace ns \<Longrightarrow> stray ns d x \<Longrightarrow> i < length ns \<Longrightarrow> opens (ns ! i) \<Longrightarrow> stray ns' d x"
  "hide_kids fuel sh js ns = Some ns' \<Longrightarrow> wf_trace ns \<Longrightarrow> stray ns d x \<Longrightarrow> \<forall>j \<in> set js. j < length ns \<and> j \<noteq> x \<Longrightarrow> stray ns' d x"
proof (induction fuel sh ch i ns and fuel sh js ns arbitrary: ns' and ns' rule: hide_scope_hide_kids.induct)
  case (2 fuel sh ch i ns)
  let ?n1 = "hide_display i ns"
  let ?n2 = "if ch then upd_node i close_scope ?n1 else ?n1"
  have st: "same_stat ns ?n2" using same_stat_trans same_stat_display(2) same_stat_upd(4) by (metis (full_types))
  have i: "owner (ns ! i)" "i \<noteq> d" using 2(4,6) by (auto simp: owner_def opens_def stray_def)
  have s1: "stray ?n1 d x" by (rule stray_hide_display[OF 2(3,4,5) i])
  have "down ?n1 (upd_node i close_scope ?n1)" by (auto simp: down_def upd_node_nth)
  then have s2: "stray ?n2 d x"
    using s1 stray_step[OF s1] stray_other(1)[OF 2(3,4,5) i] by (auto simp: stray_def upd_node_nth)
  have k: "hide_kids fuel sh (kids (n_body (?n2 ! i)) ?n2) ?n2 = Some ns'" using 2(2) by (simp add: Let_def)
  have "\<forall>j \<in> set (kids (n_body (?n2 ! i)) ?n2). j < length ?n2 \<and> j \<noteq> x"
    unfolding kids_same[OF st 2(5)] using same_stat_length[OF st] stray_other(2)[OF 2(3,4,5) i] by (auto simp: kids_def)
  then show ?case using 2(1)[OF refl refl k] 2(3) wf_trace_same[OF st] s2 by blast
next
  case (4 fuel sh j js ns)
  let ?n1 = "upd_node j n_hide ns"
  have j: "j < length ?n1" "wf_trace ?n1" using 4(6,8) wf_trace_same[OF same_stat_upd(2)] by simp_all
  have "?n1 ! x = ns ! x" using 4(7,8) by (simp add: stray_def upd_node_nth)
  then have s1: "stray ?n1 d x" using stray_step[OF 4(7) closing_down[OF closing_hide_node]] by blast
  have go: "wf_trace m \<and> (\<forall>y \<in> set js. y < length m \<and> y \<noteq> x)" if "same_stat ?n1 m" for m
    using that 4(8) j(2) wf_trace_same[OF that] same_stat_length[OF that] by simp
  from 4(5) show ?case
  proof (cases rule: hide_kids_ConsE)
    case (o m)
    then show ?thesis using 4(1)[OF refl refl o(1,2) j(2) s1 j(1) o(1)] 4(2)[OF refl refl o] go[OF hide_same_stat(1)[OF o(2)]] by blast
  next
    case e: d
    have "stray (hide_display j ?n1) d x"
      using stray_hide_display[OF j(2) s1 j(1)] e(2) s1 by (auto simp: owner_def stray_def)
    then show ?thesis using 4(3)[OF refl refl e] go[OF same_stat_display(2)] by blast
  next
    case r
    then show ?thesis using 4(4)[OF refl refl r] go[of ?n1] s1 by simp
  qed
qed auto

text \<open>
  C31. A declaration that the link of a note has shown, in a block whose eye is closed, stays
  visible when the function around the block is closed: the nodes of a block are hidden only if its
  eye is open.
\<close>

theorem closing_leaves_the_declaration:
  assumes "wf_trace ns" and "blocks_ok ns" and "f < length ns" and "opens (ns ! f)" and "n_opened (ns ! f)"
    and "n_body (ns ! f) = Some (n_scope (ns ! d))" and "stray ns d x"
  shows "\<exists>m. enter_click shift f ns = Some m \<and> \<not> n_opened (m ! f) \<and> inside ns f x \<and> \<not> n_hidden (m ! x)"
proof -
  obtain m where m: "hide_scope (etv_fuel ns) shift True f ns = Some m"
    using hide_returns(1)[OF assms(1,3) etv_fuel_enough] by auto
  have "stray m d x" by (rule stray_hide(1)[OF m assms(1,7,3,4)])
  moreover have "inside ns f x"
    using inside_nested[of d ns f x] inside_kid[of x ns d] assms(6,7) by (simp add: stray_def owner_def)
  ultimately show ?thesis using m assms(5) hide_closes[OF m assms(1-3)] by (simp add: enter_click_def stray_def)
qed

theorem closing_leaves_the_declaration_witness:
  "\<exists>q m. etv_run [Show_comment 3] demo_etv = Some q \<and> enter_click False 0 (et_nodes q) = Some m \<and> \<not> n_opened (m ! 0) \<and> \<not> n_hidden (m ! 4)"
proof -
  let ?ns = "upd_node 4 n_show demo_trace"
  let ?q = "demo_etv\<lparr>et_nodes := ?ns\<rparr>"
  have "etv_run [Show_comment 3] demo_etv = Some ?q"
    by (simp add: demo_etv_nodes show_comment_click_def on_nodes_def link_click_def node_line_click_def Let_def demo_trace_def mk_node_def upd_node_def n_show_def)
  moreover have "wf_trace ?ns" using wf_trace_same[OF same_stat_upd(1)] demo_trace_wf by blast
  moreover have "blocks_ok ?ns"
    using show_node_blocks[OF demo_trace_blocks, of 4] by (simp add: demo_trace_def mk_node_def)
  moreover have "stray ?ns 1 4" "0 < length ?ns" "opens (?ns ! 0)" "n_opened (?ns ! 0)" "n_body (?ns ! 0) = Some (n_scope (?ns ! 1))"
    by (simp_all add: stray_def demo_trace_def mk_node_def upd_node_def n_show_def opens_def)
  ultimately show ?thesis using closing_leaves_the_declaration[of ?ns 0 1 4 False] by auto
qed

end
