(* ===== verification/JS_Tree.thy ===== *)
theory JS_Tree
  imports JS_Runtime
begin

text \<open>
  The tree widget's model (\<open>bridge/static/bridge/jstree/jstree.min.js\<close>): a dictionary of nodes in which
  every node stores its parent, the path to the root, its children and all its descendants. The
  operations the pages call keep the four in step by hand; the invariant says that they are the
  views of one tree. The nodes are loaded when they are created, new nodes go to the last place.
\<close>

section \<open>Nodes\<close>

record 'd jnode =
  j_id :: string
  j_text :: string
  j_type :: string
  j_parent :: "string option"
  j_parents :: "string list"
  j_children :: "string list"
  j_children_d :: "string list"
  j_data :: 'd

type_synonym 'd jmodel = "string \<Rightarrow> 'd jnode option"

text \<open>
  \<open>jt_types\<close>: the configured node types with their \<open>valid_children\<close>, \<open>None\<close> when any child is valid.
\<close>

record 'd jstree =
  jt_model :: "'d jmodel"
  jt_selected :: "string list"
  jt_types :: "(string \<times> string list option) list"

definition jroot :: string where "jroot = ''#''"

definition jupd :: "string \<Rightarrow> ('d jnode \<Rightarrow> 'd jnode) \<Rightarrow> 'd jmodel \<Rightarrow> 'd jmodel" where
  "jupd i f m = m(i := map_option f (m i))"

definition jupds :: "string list \<Rightarrow> ('d jnode \<Rightarrow> 'd jnode) \<Rightarrow> 'd jmodel \<Rightarrow> 'd jmodel" where
  "jupds is f m = foldl (\<lambda>m i. jupd i f m) m is"

text \<open>A key with a leading hash is also tried without it.\<close>

definition get_node :: "'d jstree \<Rightarrow> string \<Rightarrow> 'd jnode option" where
  "get_node t i =
     (case jt_model t i of
        Some n \<Rightarrow> Some n
      | None \<Rightarrow> if starts_with i ''#'' then jt_model t (drop 1 i) else None)"

definition valid_child :: "'d jstree \<Rightarrow> 'd jnode \<Rightarrow> string \<Rightarrow> bool" where
  "valid_child t par ty =
     (case map_of (jt_types t) (j_type par) of Some (Some tys) \<Rightarrow> ty \<in> set tys | _ \<Rightarrow> True)"

definition known_type :: "'d jstree \<Rightarrow> string \<Rightarrow> string" where
  "known_type t ty = (if map_of (jt_types t) ty = None then ''default'' else ty)"

section \<open>Operations\<close>

definition add_desc :: "string list \<Rightarrow> 'd jnode \<Rightarrow> 'd jnode" where
  "add_desc is n = n\<lparr>j_children_d := j_children_d n @ is\<rparr>"

definition del_desc :: "string list \<Rightarrow> 'd jnode \<Rightarrow> 'd jnode" where
  "del_desc is n = n\<lparr>j_children_d := filter (\<lambda>i. i \<notin> set is) (j_children_d n)\<rparr>"

definition create_node ::
    "string \<Rightarrow> string \<Rightarrow> string \<Rightarrow> string \<Rightarrow> 'd \<Rightarrow> 'd jstree \<Rightarrow> (string \<times> 'd jstree) option" where
  "create_node par i text ty d t =
     (case get_node t par of
        None \<Rightarrow> None
      | Some c \<Rightarrow>
          if \<not> valid_child t c ty then None
          else
            (let n = \<lparr>j_id = i, j_text = text, j_type = known_type t ty, j_parent = Some (j_id c),
                   j_parents = j_id c # j_parents c, j_children = [], j_children_d = [], j_data = d\<rparr>;
                 m1 = (jt_model t)(i \<mapsto> n);
                 m2 = (if i = j_id c then m1
                       else jupd (j_id c) (\<lambda>x. (add_desc [i] x)\<lparr>j_children := j_children x @ [i]\<rparr>) m1);
                 m3 = jupds (j_parents c) (add_desc [i]) m2 in
             Some (i, t\<lparr>jt_model := m3\<rparr>)))"

definition jt_set_text :: "string \<Rightarrow> string \<Rightarrow> 'd jstree \<Rightarrow> 'd jstree" where
  "jt_set_text i s t = (case get_node t i of None \<Rightarrow> t
     | Some n \<Rightarrow> t\<lparr>jt_model := jupd (j_id n) (\<lambda>x. x\<lparr>j_text := s\<rparr>) (jt_model t)\<rparr>)"

definition rename_node :: "string \<Rightarrow> string \<Rightarrow> 'd jstree \<Rightarrow> (string \<times> 'd jstree) option" where
  "rename_node i s t = (case get_node t i of None \<Rightarrow> None
     | Some n \<Rightarrow> if j_id n = jroot then None else Some (j_id n, jt_set_text (j_id n) s t))"

definition set_type :: "string \<Rightarrow> string \<Rightarrow> 'd jstree \<Rightarrow> 'd jstree" where
  "set_type i ty t = (case get_node t i of None \<Rightarrow> t
     | Some n \<Rightarrow> if map_of (jt_types t) ty = None then t
       else t\<lparr>jt_model := jupd (j_id n) (\<lambda>x. x\<lparr>j_type := ty\<rparr>) (jt_model t)\<rparr>)"

text \<open>Scripts write to the \<open>data\<close> of a node directly.\<close>

definition set_node_data :: "string \<Rightarrow> ('d \<Rightarrow> 'd) \<Rightarrow> 'd jstree \<Rightarrow> 'd jstree" where
  "set_node_data i f t = t\<lparr>jt_model := jupd i (\<lambda>x. x\<lparr>j_data := f (j_data x)\<rparr>) (jt_model t)\<rparr>"

definition delete_node :: "string \<Rightarrow> 'd jstree \<Rightarrow> 'd jstree option" where
  "delete_node i t =
     (case get_node t i of
        None \<Rightarrow> None
      | Some b \<Rightarrow>
          if j_id b = jroot then None
          else
            (let g = j_children_d b @ [j_id b];
                 m1 = (case j_parent b of None \<Rightarrow> jt_model t
                       | Some e \<Rightarrow> jupd e (\<lambda>x. x\<lparr>j_children := remove1 (j_id b) (j_children x)\<rparr>) (jt_model t));
                 m2 = jupds (j_parents b) (del_desc g) m1 in
             Some (t\<lparr>jt_model := (\<lambda>k. if k \<in> set g then None else m2 k),
                     jt_selected := filter (\<lambda>k. k \<notin> set g) (jt_selected t)\<rparr>)))"

definition move_node :: "string \<Rightarrow> string \<Rightarrow> 'd jstree \<Rightarrow> 'd jstree option" where
  "move_node i par t =
     (case (get_node t par, get_node t i) of
        (Some n, Some c) \<Rightarrow>
          if j_id c = jroot \<or> j_id c = j_id n \<or> j_id n \<in> set (j_children_d c)
             \<or> (j_id c \<notin> set (j_children n) \<and> \<not> valid_child t n (j_type c)) then None
          else if j_parent c = Some (j_id n) then
            Some (t\<lparr>jt_model := jupd (j_id n) (\<lambda>x. x\<lparr>j_children := remove1 (j_id c) (j_children x) @ [j_id c]\<rparr>) (jt_model t)\<rparr>)
          else
            (let r = j_children_d c @ [j_id c];
                 m1 = jupds (j_parents c) (del_desc r) (jt_model t);
                 m2 = (case j_parent c of None \<Rightarrow> m1
                       | Some l \<Rightarrow> jupd l (\<lambda>x. x\<lparr>j_children := remove1 (j_id c) (j_children x)\<rparr>) m1);
                 m3 = jupds (j_parents n) (add_desc r) m2;
                 m4 = jupd (j_id n) (\<lambda>x. (add_desc (j_id c # j_children_d c) x)\<lparr>j_children := j_children x @ [j_id c]\<rparr>) m3;
                 ps = j_id n # j_parents n;
                 m5 = jupd (j_id c) (\<lambda>x. x\<lparr>j_parent := Some (j_id n), j_parents := ps\<rparr>) m4;
                 m6 = jupds (j_children_d c)
                        (\<lambda>x. x\<lparr>j_parents := take (length (j_parents x) - length (j_parents c)) (j_parents x) @ ps\<rparr>) m5 in
             Some (t\<lparr>jt_model := m6\<rparr>))
      | _ \<Rightarrow> None)"

definition deselect_all :: "'d jstree \<Rightarrow> 'd jstree" where
  "deselect_all t = t\<lparr>jt_selected := []\<rparr>"

text \<open>\<open>select_node\<close>: the node whose selection is announced, if any, and the tree.\<close>

definition jt_select_node :: "string \<Rightarrow> 'd jstree \<Rightarrow> 'd jnode option \<times> 'd jstree" where
  "jt_select_node i t =
     (case get_node t i of
        None \<Rightarrow> (None, t)
      | Some n \<Rightarrow> if j_id n = jroot \<or> j_id n \<in> set (jt_selected t) then (None, t)
        else (Some n, t\<lparr>jt_selected := jt_selected t @ [j_id n]\<rparr>))"

text \<open>A tree with the given nodes under the root, without children, as \<open>initialize\<close> of the pages builds it.\<close>

definition init_tree :: "(string \<times> string list option) list \<Rightarrow> (string \<times> string \<times> string \<times> 'd) list \<Rightarrow> 'd \<Rightarrow> 'd jstree" where
  "init_tree types nodes d0 =
     foldl (\<lambda>t (i, text, ty, d). case create_node jroot i text ty d t of None \<Rightarrow> t | Some (_, t') \<Rightarrow> t')
       \<lparr>jt_model = [jroot \<mapsto> \<lparr>j_id = jroot, j_text = [], j_type = jroot, j_parent = None, j_parents = [],
          j_children = [], j_children_d = [], j_data = d0\<rparr>], jt_selected = [], jt_types = types\<rparr> nodes"

section \<open>The dictionary as one tree\<close>

text \<open>
  The tree behind a dictionary: the path to the root of every node. The children and descendants of
  a node are determined by the paths.
\<close>

type_synonym paths = "string \<Rightarrow> string list option"

definition paths_of :: "'d jmodel \<Rightarrow> paths" where
  "paths_of m k = map_option j_parents (m k)"

definition ok_paths :: "paths \<Rightarrow> bool" where
  "ok_paths A = (A jroot = Some [] \<and>
     (\<forall>k ps. A k = Some ps \<and> k \<noteq> jroot \<longrightarrow> (\<exists>p qs. ps = p # qs \<and> A p = Some qs \<and> k \<notin> set ps)))"

definition children_of :: "paths \<Rightarrow> string \<Rightarrow> string set" where
  "children_of A i = {k. \<exists>qs. A k = Some (i # qs)}"

definition desc_of :: "paths \<Rightarrow> string \<Rightarrow> string set" where
  "desc_of A i = {k. \<exists>ps. A k = Some ps \<and> i \<in> set ps}"

definition node_ok :: "paths \<Rightarrow> string \<Rightarrow> 'd jnode \<Rightarrow> bool" where
  "node_ok A k n = (j_id n = k \<and> A k = Some (j_parents n)
     \<and> j_parent n = (case j_parents n of [] \<Rightarrow> None | p # _ \<Rightarrow> Some p)
     \<and> distinct (j_children n) \<and> set (j_children n) = children_of A k
     \<and> distinct (j_children_d n) \<and> set (j_children_d n) = desc_of A k)"

definition jt_ok :: "'d jmodel \<Rightarrow> bool" where
  "jt_ok m = (ok_paths (paths_of m) \<and> (\<forall>k n. m k = Some n \<longrightarrow> node_ok (paths_of m) k n))"

lemma jupd_apply: "jupd i f m k = (if k = i then map_option f (m k) else m k)"
  by (simp add: jupd_def)

lemma jupds_apply: "distinct is \<Longrightarrow> jupds is f m k = (if k \<in> set is then map_option f (m k) else m k)"
proof (induction "is" arbitrary: m)
  case (Cons i xs)
  then show ?case using Cons.IH[of "jupd i f m"] by (auto simp: jupds_def jupd_apply)
qed (simp add: jupds_def)

lemma ok_paths_root: "ok_paths A \<Longrightarrow> A jroot = Some []"
  by (simp add: ok_paths_def)

lemma ok_paths_step:
  "ok_paths A \<Longrightarrow> A k = Some ps \<Longrightarrow> k \<noteq> jroot \<Longrightarrow> \<exists>p qs. ps = p # qs \<and> A p = Some qs \<and> k \<notin> set ps"
  unfolding ok_paths_def by blast

text \<open>A path passes through the paths of the nodes on it.\<close>

lemma path_props:
  assumes "ok_paths A"
  shows "A k = Some ps \<Longrightarrow> distinct ps \<and> k \<notin> set ps \<and> (\<forall>i \<in> set ps. \<exists>pre qs. A i = Some qs \<and> ps = pre @ i # qs)"
proof (induction ps arbitrary: k)
  case (Cons p qs)
  have "k \<noteq> jroot" using Cons.prems ok_paths_root[OF assms] by auto
  then have k: "A p = Some qs" "k \<notin> set (p # qs)" using ok_paths_step[OF assms Cons.prems] by auto
  have "\<exists>pre rs. A i = Some rs \<and> p # qs = pre @ i # rs" if i: "i \<in> set (p # qs)" for i
  proof (cases "i = p")
    case True
    then show ?thesis using k(1) by blast
  next
    case False
    then obtain pre rs where "A i = Some rs" "qs = pre @ i # rs" using Cons.IH[OF k(1)] i by auto
    then show ?thesis by (metis append_Cons)
  qed
  then show ?case using Cons.IH[OF k(1)] k by auto
qed simp

lemma path_last: "ok_paths A \<Longrightarrow> A k = Some ps \<Longrightarrow> last (k # ps) = jroot"
proof (induction ps arbitrary: k)
  case Nil
  then show ?case using ok_paths_step[of A k "[]"] by auto
next
  case (Cons p qs)
  have "k \<noteq> jroot" using Cons.prems ok_paths_root[OF Cons.prems(1)] by auto
  then have "A p = Some qs" using ok_paths_step[OF Cons.prems] by auto
  then show ?case using Cons.IH[OF Cons.prems(1)] by simp
qed

lemma path_parent: "ok_paths A \<Longrightarrow> A l = Some (k # qs) \<Longrightarrow> A k = Some qs"
  using ok_paths_root[of A] ok_paths_step[of A l "k # qs"] by (cases "l = jroot") auto

lemma paths_absent:
  assumes "ok_paths A" "A i = None"
  shows "children_of A i = {}" "desc_of A i = {}"
proof -
  have "i \<notin> set ps" if "A k = Some ps" for k ps
    using path_props[OF assms(1) that] assms(2) by (metis option.distinct(1))
  then show "desc_of A i = {}" "children_of A i = {}" by (force simp: desc_of_def children_of_def)+
qed

lemma path_sub:
  assumes "ok_paths A" "A k = Some ps" "i \<in> set ps" "A i = Some qs"
  shows "\<exists>pre. ps = pre @ i # qs"
  using path_props[OF assms(1,2)] assms(3,4) by force

lemma jt_okD:
  assumes "jt_ok m"
  shows "ok_paths (paths_of m)" and "m k = Some n \<Longrightarrow> node_ok (paths_of m) k n"
  using assms unfolding jt_ok_def by blast+

lemma get_node_id: "jt_ok (jt_model t) \<Longrightarrow> get_node t i = Some n \<Longrightarrow> jt_model t (j_id n) = Some n"
  by (auto simp: get_node_def node_ok_def dest: jt_okD(2) split: option.splits if_splits)

section \<open>Adding, moving and removing in terms of paths\<close>

definition paths_add :: "string \<Rightarrow> string \<Rightarrow> paths \<Rightarrow> paths" where
  "paths_add i p A = A(i := map_option ((#) p) (A p))"

definition paths_del :: "string \<Rightarrow> paths \<Rightarrow> paths" where
  "paths_del i A k = (case A k of None \<Rightarrow> None | Some ps \<Rightarrow> if k = i \<or> i \<in> set ps then None else Some ps)"

text \<open>The part of the paths above the moved node is replaced.\<close>

definition paths_move :: "string \<Rightarrow> string \<Rightarrow> paths \<Rightarrow> paths" where
  "paths_move i p A k = (case (A k, A i, A p) of
       (Some ks, Some is, Some ps) \<Rightarrow>
         if k = i then Some (p # ps)
         else if i \<in> set ks then Some (take (length ks - length is) ks @ p # ps) else Some ks
     | _ \<Rightarrow> A k)"

lemma paths_add_ok:
  assumes "ok_paths A" "A i = None" "A p = Some ps"
  shows "ok_paths (paths_add i p A)" "children_of (paths_add i p A) k = children_of A k \<union> (if k = p then {i} else {})"
    "desc_of (paths_add i p A) k = desc_of A k \<union> (if k = p \<or> k \<in> set ps then {i} else {})"
proof -
  have p: "p \<noteq> i" "i \<notin> set ps" using assms path_props[OF assms(1,3)] by auto
  show "ok_paths (paths_add i p A)" unfolding ok_paths_def
  proof (intro conjI allI impI)
    show "paths_add i p A jroot = Some []" using assms(2,3) ok_paths_root[OF assms(1)] by (auto simp: paths_add_def)
    fix k ks assume k: "paths_add i p A k = Some ks \<and> k \<noteq> jroot"
    show "\<exists>q qs. ks = q # qs \<and> paths_add i p A q = Some qs \<and> k \<notin> set ks"
    proof (cases "k = i")
      case True
      then show ?thesis using k p assms(3) by (auto simp: paths_add_def)
    next
      case False
      then obtain q qs where "ks = q # qs" "A q = Some qs" "k \<notin> set ks"
        using ok_paths_step[OF assms(1), of k ks] k by (auto simp: paths_add_def)
      then show ?thesis using assms(2) by (auto simp: paths_add_def)
    qed
  qed
  show "children_of (paths_add i p A) k = children_of A k \<union> (if k = p then {i} else {})"
    using assms by (auto simp: children_of_def paths_add_def)
  show "desc_of (paths_add i p A) k = desc_of A k \<union> (if k = p \<or> k \<in> set ps then {i} else {})"
    using assms by (auto simp: desc_of_def paths_add_def)
qed

lemma paths_del_ok:
  assumes "ok_paths A" "A i = Some is" "i \<noteq> jroot"
  shows "ok_paths (paths_del i A)"
    and "k \<notin> insert i (desc_of A i) \<Longrightarrow> children_of (paths_del i A) k = children_of A k - {i}"
    and "k \<notin> insert i (desc_of A i) \<Longrightarrow> desc_of (paths_del i A) k = desc_of A k - insert i (desc_of A i)"
proof -
  show "ok_paths (paths_del i A)" unfolding ok_paths_def
  proof (intro conjI allI impI)
    show "paths_del i A jroot = Some []" using assms(3) ok_paths_root[OF assms(1)] by (simp add: paths_del_def)
    fix k ks assume k: "paths_del i A k = Some ks \<and> k \<noteq> jroot"
    then have "A k = Some ks" "k \<noteq> i" "i \<notin> set ks" by (auto simp: paths_del_def split: option.splits if_splits)
    moreover from this obtain q qs where "ks = q # qs" "A q = Some qs" "k \<notin> set ks"
      using ok_paths_step[OF assms(1)] k by blast
    ultimately show "\<exists>q qs. ks = q # qs \<and> paths_del i A q = Some qs \<and> k \<notin> set ks"
      by (auto simp: paths_del_def)
  qed
  assume k: "k \<notin> insert i (desc_of A i)"
  have "i \<notin> set qs" if "A l = Some (k # qs)" for l qs
  proof
    assume i: "i \<in> set qs"
    have "A k = Some qs" by (rule path_parent[OF assms(1) that])
    then show False using i k by (auto simp: desc_of_def)
  qed
  then show "children_of (paths_del i A) k = children_of A k - {i}"
    using k by (auto simp: children_of_def paths_del_def split: option.splits if_splits)
  show "desc_of (paths_del i A) k = desc_of A k - insert i (desc_of A i)"
    using k by (auto simp: desc_of_def paths_del_def split: option.splits if_splits)
qed

text \<open>The subtree of a node, and the facts about it that moving relies on.\<close>

definition subtree :: "paths \<Rightarrow> string \<Rightarrow> string set" where
  "subtree A i = insert i (desc_of A i)"

lemma path_above:
  assumes "ok_paths A" "A i = Some is" "A k = Some ks" "k \<in> subtree A i"
  shows "\<exists>pre. (k # ks) = pre @ i # is \<and> set pre \<subseteq> subtree A i"
proof (cases "k = i")
  case True
  then show ?thesis using assms by auto
next
  case False
  then have "i \<in> set ks" using assms(3,4) by (auto simp: subtree_def desc_of_def)
  then obtain pre where pre: "ks = pre @ i # is" using path_sub[OF assms(1,3) _ assms(2)] by blast
  have "x \<in> subtree A i" if x: "x \<in> set pre" for x
  proof -
    have "x \<in> set ks" using pre x by simp
    then obtain p2 xs where p2: "A x = Some xs" "ks = p2 @ x # xs" using path_props[OF assms(1,3)] by blast
    obtain u v where uv: "pre = u @ x # v" using x by (meson split_list)
    have "distinct (u @ x # v @ i # is)" using path_props[OF assms(1,3)] pre uv by simp
    then have "xs = v @ i # is" using pre uv p2(2) append_Cons_eq_iff[of x u "v @ i # is" p2 xs] by simp
    then show ?thesis using p2(1) by (auto simp: subtree_def desc_of_def)
  qed
  then have "set (k # pre) \<subseteq> subtree A i" using assms(4) by auto
  then show ?thesis using pre by (metis append_Cons)
qed

lemma subtree_apart:
  assumes "ok_paths A" "A i = Some is" "A p = Some ps" "p \<notin> subtree A i"
  shows "set (p # ps) \<inter> subtree A i = {}" "set is \<inter> subtree A i = {}"
proof -
  have "x \<notin> subtree A i" if x: "x \<in> set ps" for x
  proof
    assume "x \<in> subtree A i"
    obtain xs pre where xs: "A x = Some xs" "ps = pre @ x # xs" using path_props[OF assms(1,3)] x by blast
    with \<open>x \<in> subtree A i\<close> have "i \<in> set ps" by (auto simp: subtree_def desc_of_def)
    then show False using assms(3,4) by (auto simp: subtree_def desc_of_def)
  qed
  then show "set (p # ps) \<inter> subtree A i = {}" using assms(4) by auto
  have "x \<notin> subtree A i" if x: "x \<in> set is" for x
  proof
    assume s: "x \<in> subtree A i"
    obtain xs pre where xs: "A x = Some xs" "is = pre @ x # xs" using path_props[OF assms(1,2)] x by blast
    have "x \<noteq> i" "i \<notin> set is" using path_props[OF assms(1,2)] x by auto
    then show False using s xs by (auto simp: subtree_def desc_of_def)
  qed
  then show "set is \<inter> subtree A i = {}" by blast
qed

text \<open>A node outside a subtree and not above its root has no descendant in it.\<close>

lemma desc_disjoint:
  assumes "ok_paths A" "A i = Some is" "k \<notin> subtree A i" "k \<notin> set is"
  shows "desc_of A k \<inter> subtree A i = {}"
proof -
  have "k \<notin> set ls" if l: "A l = Some ls" "l \<in> subtree A i" for l ls
  proof -
    obtain pre where "l # ls = pre @ i # is" "set pre \<subseteq> subtree A i" using path_above[OF assms(1,2) l] by blast
    then have "set (l # ls) \<subseteq> subtree A i \<union> set is" by (auto simp: subtree_def)
    then show ?thesis using assms(3,4) by auto
  qed
  then show ?thesis by (auto simp: desc_of_def)
qed

lemma paths_del_keep: "k \<notin> subtree A i \<Longrightarrow> paths_del i A k = A k"
  by (auto simp: paths_del_def subtree_def desc_of_def split: option.splits)

lemma paths_move_in:
  assumes "ok_paths A" "A i = Some is" "A p = Some ps" "A k = Some ks" "(k # ks) = pre @ i # is"
  shows "\<exists>ks'. paths_move i p A k = Some ks' \<and> k # ks' = pre @ i # p # ps"
proof (cases pre)
  case Nil
  then show ?thesis using assms by (simp add: paths_move_def)
next
  case (Cons a pre')
  then have ks: "a = k" "ks = pre' @ i # is" using assms(5) by auto
  then have "i \<in> set ks" "k \<noteq> i" using path_props[OF assms(1,4)] by auto
  then show ?thesis using assms(2,3,4) ks Cons by (simp add: paths_move_def)
qed

lemma paths_move_out:
  assumes "A i = Some is" "A p = Some ps" "k \<notin> subtree A i"
  shows "paths_move i p A k = A k"
  using assms by (auto simp: paths_move_def subtree_def desc_of_def split: option.splits)

lemma paths_move_ok:
  assumes "ok_paths A" "A i = Some is" "A p = Some ps" "i \<noteq> jroot" "p \<notin> subtree A i"
  shows "ok_paths (paths_move i p A)"
  unfolding ok_paths_def
proof (intro conjI allI impI)
  let ?A = "paths_move i p A"
  note apart = subtree_apart[OF assms(1,2,3,5)]
  have "jroot \<notin> subtree A i" using ok_paths_root[OF assms(1)] assms(4) by (auto simp: subtree_def desc_of_def)
  then show "?A jroot = Some []" using paths_move_out[OF assms(2,3)] ok_paths_root[OF assms(1)] by simp
  fix k ks' assume k: "?A k = Some ks' \<and> k \<noteq> jroot"
  then obtain ks where ks: "A k = Some ks" by (auto simp: paths_move_def split: option.splits)
  obtain q qs where q: "ks = q # qs" "A q = Some qs" "k \<notin> set ks" using ok_paths_step[OF assms(1) ks] k by blast
  show "\<exists>q qs. ks' = q # qs \<and> ?A q = Some qs \<and> k \<notin> set ks'"
  proof (cases "k \<in> subtree A i")
    case True
    obtain pre where pre: "(k # ks) = pre @ i # is" "set pre \<subseteq> subtree A i" using path_above[OF assms(1,2) ks True] by blast
    have ks': "k # ks' = pre @ i # p # ps" using paths_move_in[OF assms(1,2,3) ks pre(1)] k by auto
    have nk: "k \<notin> set (p # ps)" using apart(1) True by blast
    show ?thesis
    proof (cases pre)
      case Nil
      then have "ks' = p # ps" using ks' by simp
      moreover have "?A p = Some ps" using paths_move_out[OF assms(2,3,5)] assms(3) by simp
      ultimately show ?thesis using nk by auto
    next
      case (Cons a pre')
      then have a: "ks' = pre' @ i # p # ps" "q # qs = pre' @ i # is" using ks' pre(1) q(1) by auto
      obtain qs' where qs': "?A q = Some qs'" "q # qs' = pre' @ i # p # ps"
        using paths_move_in[OF assms(1,2,3) q(2) a(2)] by blast
      have "k \<notin> set (pre' @ [i])" using q(1,3) a(2) by (metis append.assoc append_Cons append_Nil in_set_conv_decomp set_append UnCI)
      then show ?thesis using a(1) qs' nk by (intro exI[of _ q] exI[of _ qs']) auto
    qed
  next
    case False
    then have eq: "ks' = ks" using paths_move_out[OF assms(2,3)] ks k by auto
    have "q \<notin> subtree A i"
      using False ks q path_sub[OF assms(1,2)] by (auto simp: subtree_def desc_of_def)
    then show ?thesis using paths_move_out[OF assms(2,3)] q eq by auto
  qed
qed

lemma paths_move_sets:
  assumes "ok_paths A" "A i = Some is" "A p = Some ps" "i \<noteq> jroot" "p \<notin> subtree A i"
  shows "children_of (paths_move i p A) k = children_of A k - {i} \<union> (if k = p then {i} else {})"
    and "k \<in> subtree A i \<Longrightarrow> desc_of (paths_move i p A) k = desc_of A k"
    and "k \<notin> subtree A i \<Longrightarrow>
      desc_of (paths_move i p A) k = desc_of A k - subtree A i \<union> (if k \<in> set (p # ps) then subtree A i else {})"
proof -
  let ?A = "paths_move i p A"
  note apart = subtree_apart[OF assms(1,2,3,5)]
  have dom: "(?A l = None) = (A l = None)" for l by (auto simp: paths_move_def assms split: option.splits)
  have sub: "\<exists>pre ls'. l # ls = pre @ i # is \<and> set pre \<subseteq> subtree A i \<and> ?A l = Some ls' \<and> l # ls' = pre @ i # p # ps"
    if "A l = Some ls" "l \<in> subtree A i" for l ls
    using path_above[OF assms(1,2) that] paths_move_in[OF assms(1,2,3) that(1)] by metis
  have "l \<in> children_of ?A k \<longleftrightarrow> l \<in> children_of A k - {i} \<union> (if k = p then {i} else {})" for l
  proof (cases "l \<in> subtree A i \<and> A l \<noteq> None")
    case True
    then obtain ls where ls: "A l = Some ls" by auto
    from sub[OF ls] True obtain pre ls' where s: "l # ls = pre @ i # is" "?A l = Some ls'" "l # ls' = pre @ i # p # ps" by blast
    have "i \<notin> set is" using path_props[OF assms(1,2)] by simp
    have ne: "l \<noteq> i" if "pre = a # b" for a b
      using that s(1) path_props[OF assms(1) ls] by (auto simp: Cons_eq_append_conv)
    then show ?thesis using s ls ne by (cases pre; cases "tl pre") (auto simp: children_of_def)
  next
    case False
    then show ?thesis using paths_move_out[OF assms(2,3), of l] dom[of l] assms(2) by (auto simp: children_of_def subtree_def)
  qed
  then show "children_of ?A k = children_of A k - {i} \<union> (if k = p then {i} else {})" by blast
  have dsub: "l \<in> desc_of ?A k \<longleftrightarrow> (k \<in> subtree A i \<and> l \<in> desc_of A k \<or> k \<in> set (p # ps))" if l: "l \<in> subtree A i" "A l = Some ls" for l ls
  proof -
    from sub[OF l(2,1)] obtain pre ls' where s: "l # ls = pre @ i # is" "set pre \<subseteq> subtree A i" "?A l = Some ls'" "l # ls' = pre @ i # p # ps" by blast
    have i: "i \<in> subtree A i" by (simp add: subtree_def)
    have "k \<in> set ls' \<longleftrightarrow> (k \<in> subtree A i \<and> k \<in> set ls) \<or> k \<in> set (p # ps)"
      using s apart i by (cases pre) auto
    then show ?thesis using s(3) l(2) by (simp add: desc_of_def)
  qed
  have dout: "l \<in> desc_of ?A k \<longleftrightarrow> l \<in> desc_of A k" if "l \<notin> subtree A i" for l
    using paths_move_out[OF assms(2,3) that] by (simp add: desc_of_def)
  have indom: "\<exists>ls. A l = Some ls" if "l \<in> subtree A i" for l using that assms(2) by (auto simp: subtree_def desc_of_def)
  have inside: "l \<in> subtree A i" if "l \<in> desc_of A k" "k \<in> subtree A i" for l
  proof -
    obtain ls where ls: "A l = Some ls" "k \<in> set ls" using \<open>l \<in> desc_of A k\<close> by (auto simp: desc_of_def)
    then obtain pre ks where "A k = Some ks" "ls = pre @ k # ks" using path_props[OF assms(1) ls(1)] by blast
    then show ?thesis using that(2) ls by (auto simp: subtree_def desc_of_def)
  qed
  show "desc_of ?A k = desc_of A k" if k: "k \<in> subtree A i"
  proof -
    have "k \<notin> set (p # ps)" using apart(1) k by blast
    then show ?thesis using dsub dout indom inside k by blast
  qed
  show "desc_of ?A k = desc_of A k - subtree A i \<union> (if k \<in> set (p # ps) then subtree A i else {})" if k: "k \<notin> subtree A i"
  proof (rule set_eqI)
    fix l
    show "l \<in> desc_of ?A k \<longleftrightarrow> l \<in> desc_of A k - subtree A i \<union> (if k \<in> set (p # ps) then subtree A i else {})"
    proof (cases "l \<in> subtree A i")
      case True
      then obtain ls where "A l = Some ls" using indom by blast
      then show ?thesis using dsub[OF True] k True by simp
    next
      case False
      then show ?thesis using dout[OF False] by simp
    qed
  qed
qed

section \<open>The operations keep the views of the tree in step\<close>

lemma node_okD:
  assumes "node_ok A k n"
  shows "j_id n = k" "A k = Some (j_parents n)" "j_parent n = (case j_parents n of [] \<Rightarrow> None | p # _ \<Rightarrow> Some p)"
    "distinct (j_children n)" "set (j_children n) = children_of A k"
    "distinct (j_children_d n)" "set (j_children_d n) = desc_of A k"
  using assms unfolding node_ok_def by blast+

lemma jt_okI:
  assumes "paths_of m = A" "ok_paths A" "\<And>k n. m k = Some n \<Longrightarrow> node_ok A k n"
  shows "jt_ok m"
  using assms unfolding jt_ok_def by blast

lemma create_node_model:
  assumes ok: "jt_ok (jt_model t)" and fresh: "jt_model t i = None"
    and c: "create_node par i text ty d t = Some (r, t')"
  shows "\<exists>p. get_node t par = Some p \<and> jt_model t (j_id p) = Some p \<and> r = i \<and> (\<forall>k. jt_model t' k =
    (if k = i then Some \<lparr>j_id = i, j_text = text, j_type = known_type t ty, j_parent = Some (j_id p),
        j_parents = j_id p # j_parents p, j_children = [], j_children_d = [], j_data = d\<rparr>
     else map_option (\<lambda>x. x\<lparr>j_children := j_children x @ (if k = j_id p then [i] else []),
        j_children_d := j_children_d x @ (if k = j_id p \<or> k \<in> set (j_parents p) then [i] else [])\<rparr>) (jt_model t k)))"
proof -
  obtain p where p: "get_node t par = Some p" "valid_child t p ty"
    using c by (auto simp: create_node_def split: option.splits if_splits)
  have m: "jt_model t (j_id p) = Some p" using get_node_id[OF ok p(1)] .
  have A: "paths_of (jt_model t) (j_id p) = Some (j_parents p)" by (simp add: paths_of_def m)
  note path = path_props[OF jt_okD(1)[OF ok] A]
  have d: "distinct (j_parents p)" "j_id p \<notin> set (j_parents p)" using path by auto
  have Ai: "paths_of (jt_model t) i = None" by (simp add: paths_of_def fresh)
  have ne1: "i \<noteq> j_id p" using fresh m by auto
  have ne2: "i \<notin> set (j_parents p)" using path Ai by (metis option.distinct(1))
  let ?n = "\<lparr>j_id = i, j_text = text, j_type = known_type t ty, j_parent = Some (j_id p),
        j_parents = j_id p # j_parents p, j_children = [], j_children_d = [], j_data = d\<rparr>"
  let ?f = "\<lambda>x. (add_desc [i] x)\<lparr>j_children := j_children x @ [i]\<rparr>"
  have t': "r = i" "jt_model t' = jupds (j_parents p) (add_desc [i]) (jupd (j_id p) ?f ((jt_model t)(i \<mapsto> ?n)))"
    using c p ne1 by (auto simp: create_node_def Let_def)
  have k: "jt_model t' k = (if k = i then Some ?n else
      map_option (\<lambda>x. x\<lparr>j_children := j_children x @ (if k = j_id p then [i] else []),
        j_children_d := j_children_d x @ (if k = j_id p \<or> k \<in> set (j_parents p) then [i] else [])\<rparr>) (jt_model t k))" for k
    using d ne1 ne2 by (cases "jt_model t k"; cases "k = j_id p") (simp_all add: t' jupds_apply jupd_apply add_desc_def)
  show ?thesis using p(1) m t'(1) k by blast
qed

lemma create_node_ok:
  assumes ok: "jt_ok (jt_model t)" and fresh: "jt_model t i = None"
    and c: "create_node par i text ty d t = Some (r, t')"
  shows "jt_ok (jt_model t') \<and> (\<exists>p. get_node t par = Some p
    \<and> paths_of (jt_model t') = paths_add i (j_id p) (paths_of (jt_model t)))"
proof -
  let ?A = "paths_of (jt_model t)"
  obtain p where p: "get_node t par = Some p" "jt_model t (j_id p) = Some p" and k: "\<And>k. jt_model t' k =
    (if k = i then Some \<lparr>j_id = i, j_text = text, j_type = known_type t ty, j_parent = Some (j_id p),
        j_parents = j_id p # j_parents p, j_children = [], j_children_d = [], j_data = d\<rparr>
     else map_option (\<lambda>x. x\<lparr>j_children := j_children x @ (if k = j_id p then [i] else []),
        j_children_d := j_children_d x @ (if k = j_id p \<or> k \<in> set (j_parents p) then [i] else [])\<rparr>) (jt_model t k))"
    using create_node_model[OF assms] by blast
  have A: "?A (j_id p) = Some (j_parents p)" "?A i = None" by (simp_all add: paths_of_def p fresh)
  note okA = jt_okD(1)[OF ok]
  note add = paths_add_ok[OF okA A(2,1)]
  have e: "paths_of (jt_model t') = paths_add i (j_id p) ?A"
  proof
    fix a
    show "paths_of (jt_model t') a = paths_add i (j_id p) ?A a"
      using A(1) by (cases "jt_model t a") (auto simp: paths_of_def paths_add_def k)
  qed
  have none: "children_of ?A i = {}" "desc_of ?A i = {}"
    using paths_absent[OF okA A(2)] by auto
  have ne: "i \<noteq> j_id p" "i \<notin> set (j_parents p)" using none(2) A by (auto simp: desc_of_def)
  have "jt_ok (jt_model t')"
  proof (rule jt_okI[OF e add(1)])
    fix a n assume n: "jt_model t' a = Some n"
    show "node_ok (paths_add i (j_id p) ?A) a n"
    proof (cases "a = i")
      case True
      then show ?thesis using n add(2,3)[of i] none ne A(1) by (auto simp: k node_ok_def paths_add_def)
    next
      case False
      then obtain x where x: "jt_model t a = Some x" and nx: "n = x\<lparr>j_children := j_children x @ (if a = j_id p then [i] else []),
        j_children_d := j_children_d x @ (if a = j_id p \<or> a \<in> set (j_parents p) then [i] else [])\<rparr>"
        using n by (auto simp: k)
      note nd = node_okD[OF jt_okD(2)[OF ok x]]
      have "i \<notin> children_of ?A a" "i \<notin> desc_of ?A a" using A(2) by (auto simp: children_of_def desc_of_def)
      then show ?thesis using nd False add(2,3)[of a]
        by (auto simp: nx node_ok_def paths_add_def)
    qed
  qed
  then show ?thesis using p(1) e by blast
qed

lemma node_in_parents:
  assumes "jt_ok m" "m i = Some n" "k \<in> set (j_parents n)"
  shows "\<exists>x. m k = Some x"
  using path_props[OF jt_okD(1)[OF assms(1)], of i "j_parents n"] assms(2,3) by (auto simp: paths_of_def)

lemma delete_node_ok:
  assumes ok: "jt_ok (jt_model t)" and d: "delete_node i t = Some t'"
  shows "jt_ok (jt_model t') \<and> (\<exists>b. get_node t i = Some b
    \<and> paths_of (jt_model t') = paths_del (j_id b) (paths_of (jt_model t)))"
proof -
  let ?m = "jt_model t" and ?A = "paths_of (jt_model t)"
  obtain b where b: "get_node t i = Some b" "j_id b \<noteq> jroot"
    using d by (auto simp: delete_node_def split: option.splits if_splits)
  have m: "?m (j_id b) = Some b" using get_node_id[OF ok b(1)] .
  note okA = jt_okD(1)[OF ok] and nb = node_okD[OF jt_okD(2)[OF ok m]]
  obtain e es where e: "j_parents b = e # es" using ok_paths_step[OF okA nb(2) b(2)] by auto
  have dp: "distinct (j_parents b)" using path_props[OF okA nb(2)] by simp
  let ?g = "j_children_d b @ [j_id b]"
  have g: "set ?g = subtree ?A (j_id b)" using nb(7) by (simp add: subtree_def)
  let ?rem = "\<lambda>k x. x\<lparr>j_children := (if k = e then remove1 (j_id b) (j_children x) else j_children x),
      j_children_d := (if k \<in> set (j_parents b) then filter (\<lambda>i. i \<notin> set ?g) (j_children_d x) else j_children_d x)\<rparr>"
  have k: "jt_model t' k = (if k \<in> set ?g then None else map_option (?rem k) (?m k))" for k
    using d b dp nb(3) e
    by (cases "?m k") (auto simp: delete_node_def Let_def jupds_apply jupd_apply del_desc_def)
  have eA: "paths_of (jt_model t') = paths_del (j_id b) ?A"
  proof
    fix a
    show "paths_of (jt_model t') a = paths_del (j_id b) ?A a"
    proof (cases "?m a")
      case (Some x)
      then have "a \<in> set ?g \<longleftrightarrow> a = j_id b \<or> j_id b \<in> set (j_parents x)"
        unfolding g by (auto simp: subtree_def desc_of_def paths_of_def)
      then show ?thesis using Some by (simp add: paths_of_def paths_del_def k)
    qed (simp add: paths_of_def paths_del_def k)
  qed
  note del = paths_del_ok[OF okA nb(2) b(2)]
  have "jt_ok (jt_model t')"
  proof (rule jt_okI[OF eA del(1)])
    fix a n assume n: "jt_model t' a = Some n"
    then have ag: "a \<notin> set ?g" unfolding k by (metis option.distinct(1))
    then have out: "a \<notin> subtree ?A (j_id b)" unfolding g .
    have "map_option (?rem a) (?m a) = Some n" using n unfolding k if_not_P[OF ag] .
    then obtain x where x: "?m a = Some x" "n = ?rem a x" unfolding map_option_eq_Some by blast
    note nx = node_okD[OF jt_okD(2)[OF ok x(1)]]
    have "j_id b \<in> children_of ?A a \<longleftrightarrow> a = e" using nb(2) e by (auto simp: children_of_def)
    moreover have "desc_of ?A a \<inter> subtree ?A (j_id b) = {}" if "a \<notin> set (j_parents b)"
      using desc_disjoint[OF okA nb(2) out that] .
    moreover have "paths_del (j_id b) ?A a = ?A a" by (rule paths_del_keep[OF out])
    ultimately show "node_ok (paths_del (j_id b) ?A) a n"
      using nx del(2,3)[of a] out g by (auto simp: x(2) node_ok_def subtree_def)
  qed
  then show ?thesis using b(1) eA by blast
qed

text \<open>The node at \<open>k\<close> after moving the subtree of \<open>c\<close> from \<open>l\<close> to \<open>p\<close>.\<close>

definition moved :: "'d jnode \<Rightarrow> string \<Rightarrow> 'd jnode \<Rightarrow> string \<Rightarrow> 'd jnode \<Rightarrow> 'd jnode" where
  "moved c l p k x =
     (if k = j_id c then x\<lparr>j_parent := Some (j_id p), j_parents := j_id p # j_parents p\<rparr>
      else if k \<in> set (j_children_d c)
      then x\<lparr>j_parents := take (length (j_parents x) - length (j_parents c)) (j_parents x) @ j_id p # j_parents p\<rparr>
      else x\<lparr>j_children := (if k = l then remove1 (j_id c) (j_children x) else j_children x) @ (if k = j_id p then [j_id c] else []),
             j_children_d := (if k \<in> set (j_parents c) then filter (\<lambda>i. i \<notin> set (j_children_d c @ [j_id c])) (j_children_d x) else j_children_d x)
               @ (if k \<in> set (j_parents p) then j_children_d c @ [j_id c] else if k = j_id p then j_id c # j_children_d c else [])\<rparr>)"

lemma move_node_model:
  assumes ok: "jt_ok (jt_model t)" and mv: "move_node i par t = Some t'"
    and p: "get_node t par = Some p" and c: "get_node t i = Some c" and "j_parent c = Some l" "l \<noteq> j_id p"
  shows "jt_model t' k = map_option (moved c l p k) (jt_model t k)"
    and "j_id c \<noteq> jroot" "j_id p \<notin> subtree (paths_of (jt_model t)) (j_id c)"
proof -
  let ?A = "paths_of (jt_model t)"
  have m: "jt_model t (j_id c) = Some c" "jt_model t (j_id p) = Some p" using get_node_id[OF ok] p c by auto
  note okA = jt_okD(1)[OF ok] and nc = node_okD[OF jt_okD(2)[OF ok m(1)]] and np = node_okD[OF jt_okD(2)[OF ok m(2)]]
  have g: "j_id c \<noteq> jroot" "j_id c \<noteq> j_id p" "j_id p \<notin> set (j_children_d c)"
    using mv p c by (auto simp: move_node_def split: if_splits)
  then show r: "j_id c \<noteq> jroot" and out: "j_id p \<notin> subtree ?A (j_id c)" using nc(7) by (auto simp: subtree_def)
  note apart = subtree_apart[OF okA nc(2) np(2) out]
  have D: "set (j_children_d c) \<union> {j_id c} = subtree ?A (j_id c)" using nc(7) by (auto simp: subtree_def)
  have ds: "distinct (j_parents c)" "distinct (j_parents p)" "j_id p \<notin> set (j_parents p)"
    using path_props[OF okA nc(2)] path_props[OF okA np(2)] by auto
  have l: "l \<in> set (j_parents c)" using nc(3) assms(5) by (auto split: list.splits)
  have ap: "k \<in> subtree ?A (j_id c) \<Longrightarrow> k \<notin> set (j_parents c) \<and> k \<notin> set (j_parents p) \<and> k \<noteq> j_id p" for k
    using apart by auto
  have jt: "jt_model t' = jupds (j_children_d c) (\<lambda>x. x\<lparr>j_parents := take (length (j_parents x) - length (j_parents c)) (j_parents x) @ j_id p # j_parents p\<rparr>)
     (jupd (j_id c) (\<lambda>x. x\<lparr>j_parent := Some (j_id p), j_parents := j_id p # j_parents p\<rparr>)
     (jupd (j_id p) (\<lambda>x. (add_desc (j_id c # j_children_d c) x)\<lparr>j_children := j_children x @ [j_id c]\<rparr>)
     (jupds (j_parents p) (add_desc (j_children_d c @ [j_id c]))
     (jupd l (\<lambda>x. x\<lparr>j_children := remove1 (j_id c) (j_children x)\<rparr>)
     (jupds (j_parents c) (del_desc (j_children_d c @ [j_id c])) (jt_model t))))))"
    using mv p c assms(5,6) by (auto simp: move_node_def Let_def split: if_splits)
  have cd: "j_id c \<notin> set (j_children_d c)" using nc(2,7) path_props[OF okA nc(2)] by (auto simp: desc_of_def)
  show "jt_model t' k = map_option (moved c l p k) (jt_model t k)"
  proof (cases "k \<in> subtree ?A (j_id c)")
    case True
    have "k \<noteq> l" using ap[OF True] l by auto
    then show ?thesis using ap[OF True] True D cd nc(6) ds
      by (cases "jt_model t k") (auto simp: jt jupds_apply jupd_apply moved_def)
  next
    case False
    then have "k \<noteq> j_id c" "k \<notin> set (j_children_d c)" using D by auto
    then show ?thesis using ds nc(6) assms(6)
      by (cases "jt_model t k") (auto simp: jt jupds_apply jupd_apply moved_def add_desc_def del_desc_def)
  qed
qed

lemma moved_ok:
  assumes ok: "jt_ok m" and c: "m (j_id c) = Some c" and p: "m (j_id p) = Some p"
    and l: "j_parent c = Some l" "l \<noteq> j_id p" and r: "j_id c \<noteq> jroot" and out: "j_id p \<notin> subtree (paths_of m) (j_id c)"
    and m': "\<And>k. m' k = map_option (moved c l p k) (m k)"
  shows "jt_ok m'" "paths_of m' = paths_move (j_id c) (j_id p) (paths_of m)"
proof -
  let ?A = "paths_of m" and ?D = "subtree (paths_of m) (j_id c)"
  note okA = jt_okD(1)[OF ok] and nc = node_okD[OF jt_okD(2)[OF ok c]] and np = node_okD[OF jt_okD(2)[OF ok p]]
  note apart = subtree_apart[OF okA nc(2) np(2) out] and sets = paths_move_sets[OF okA nc(2) np(2) r out]
  have D: "insert (j_id c) (set (j_children_d c)) = ?D" using nc(7) by (simp add: subtree_def)
  have par: "j_parents c = l # tl (j_parents c)" using nc(3) l(1) by (cases "j_parents c") auto
  show e: "paths_of m' = paths_move (j_id c) (j_id p) ?A"
  proof
    fix a
    show "paths_of m' a = paths_move (j_id c) (j_id p) ?A a"
    proof (cases "m a")
      case (Some x)
      have "a \<in> set (j_children_d c) \<longleftrightarrow> j_id c \<in> set (j_parents x)" using nc(7) Some by (simp add: desc_of_def paths_of_def)
      then show ?thesis using Some nc(2) np(2) by (simp add: paths_of_def m' moved_def paths_move_def c p)
    qed (simp add: paths_of_def m' paths_move_def)
  qed
  show "jt_ok m'"
  proof (rule jt_okI[OF e paths_move_ok[OF okA nc(2) np(2) r out]])
    fix a n assume n: "m' a = Some n"
    obtain x where x: "m a = Some x" "n = moved c l p a x" using n by (auto simp: m')
    note nx = node_okD[OF jt_okD(2)[OF ok x(1)]]
    have An: "paths_move (j_id c) (j_id p) ?A a = Some (j_parents n)" using e n by (simp add: paths_of_def flip: e)
    have ch: "j_id c \<in> children_of ?A a \<longleftrightarrow> a = l" using nc(2) par by (auto simp: children_of_def)
    show "node_ok (paths_move (j_id c) (j_id p) ?A) a n"
    proof (cases "a \<in> ?D")
      case True
      have "l \<notin> ?D" "a \<noteq> j_id p" using apart par True out by (auto, metis disjoint_iff list.set_intros(1))
      have "children_of ?A a - {j_id c} = children_of ?A a" using ch True \<open>l \<notin> ?D\<close> by auto
      moreover have "j_parent n = (case j_parents n of [] \<Rightarrow> None | q # _ \<Rightarrow> Some q)"
      proof (cases "a = j_id c")
        case False
        then have "j_id c \<in> set (j_parents x)" using True nx(2) by (auto simp: subtree_def desc_of_def)
        then obtain pre where "j_parents x = pre @ j_id c # j_parents c" using path_sub[OF okA nx(2) _ nc(2)] by blast
        then show ?thesis using nx(3) False True D by (cases pre) (auto simp: x(2) moved_def)
      qed (simp add: x(2) moved_def)
      ultimately show ?thesis using nx An sets(1)[of a] sets(2)[OF True] True D \<open>a \<noteq> j_id p\<close>
        by (auto simp: node_ok_def x(2) moved_def)
    next
      case False
      then have a: "a \<noteq> j_id c" "a \<notin> set (j_children_d c)" using D by auto
      have dj: "a \<notin> set (j_parents c) \<Longrightarrow> desc_of ?A a \<inter> ?D = {}" using desc_disjoint[OF okA nc(2) False] .
      have pp: "j_id p \<notin> set (j_parents p)" using path_props[OF okA np(2)] by simp
      have "set (j_children_d n) = desc_of ?A a - ?D \<union> (if a \<in> set (j_id p # j_parents p) then ?D else {})"
        using nx(7) dj pp D a by (auto simp: x(2) moved_def)
      moreover have "distinct (j_children_d n)"
      proof -
        have dc: "distinct (j_children_d c @ [j_id c])" "distinct (j_id c # j_children_d c)"
          using nc(2,6,7) path_props[OF okA nc(2)] by (auto simp: desc_of_def)
        have nd: "set (if a \<in> set (j_parents c) then filter (\<lambda>i. i \<notin> set (j_children_d c @ [j_id c])) (j_children_d x) else j_children_d x) \<inter> ?D = {}"
          using dj nx(7) D by auto
        show ?thesis using dc nd nx(6) D a by (auto simp: x(2) moved_def)
      qed
      moreover have "set (j_children n) = children_of ?A a - {j_id c} \<union> (if a = j_id p then {j_id c} else {})"
        "distinct (j_children n)"
        using nx(4,5) ch a l(2) by (auto simp: x(2) moved_def set_remove1_eq distinct_remove1)
      moreover have "j_parent n = j_parent x" "j_parents n = j_parents x" "j_id n = j_id x" using a by (simp_all add: x(2) moved_def)
      ultimately show ?thesis using nx An sets(1)[of a] sets(3)[OF False] by (simp add: node_ok_def)
    qed
  qed
qed

lemma move_node_ok:
  assumes ok: "jt_ok (jt_model t)" and mv: "move_node i par t = Some t'"
  shows "jt_ok (jt_model t') \<and> (\<exists>c p. get_node t i = Some c \<and> get_node t par = Some p
    \<and> paths_of (jt_model t') = paths_move (j_id c) (j_id p) (paths_of (jt_model t)))"
proof -
  obtain p c where pc: "get_node t par = Some p" "get_node t i = Some c"
    using mv by (auto simp: move_node_def split: option.splits)
  have m: "jt_model t (j_id c) = Some c" "jt_model t (j_id p) = Some p" using get_node_id[OF ok] pc by auto
  note okA = jt_okD(1)[OF ok] and nc = node_okD[OF jt_okD(2)[OF ok m(1)]] and np = node_okD[OF jt_okD(2)[OF ok m(2)]]
  have r: "j_id c \<noteq> jroot" using mv pc by (auto simp: move_node_def split: if_splits)
  obtain l ls where l: "j_parents c = l # ls" "paths_of (jt_model t) l = Some ls" using ok_paths_step[OF okA nc(2) r] by auto
  then have pl: "j_parent c = Some l" using nc(3) by simp
  show ?thesis
  proof (cases "l = j_id p")
    case False
    note mm = move_node_model[OF ok mv pc pl False]
    show ?thesis using moved_ok[OF ok m pl False mm(2,3) mm(1)] pc by blast
  next
    case True
    have t': "jt_model t' = jupd l (\<lambda>x. x\<lparr>j_children := remove1 (j_id c) (j_children x) @ [j_id c]\<rparr>) (jt_model t)"
      using mv pc True pl by (auto simp: move_node_def split: if_splits)
    have same: "paths_of (jt_model t') = paths_of (jt_model t)"
      by (rule ext) (simp add: t' paths_of_def jupd_apply option.map_comp comp_def)
    have mem: "j_id c \<in> set (j_children p)" using np(5) nc(2) l True by (auto simp: children_of_def)
    have "jt_ok (jt_model t')"
    proof (rule jt_okI[OF same okA])
      fix a n assume "jt_model t' a = Some n"
      then obtain x where x: "jt_model t a = Some x" "a \<noteq> l \<Longrightarrow> n = x"
        "a = l \<Longrightarrow> n = x\<lparr>j_children := remove1 (j_id c) (j_children x) @ [j_id c]\<rparr>"
        by (auto simp: t' jupd_apply split: if_splits)
      note nx = node_okD[OF jt_okD(2)[OF ok x(1)]]
      show "node_ok (paths_of (jt_model t)) a n"
      proof (cases "a = l")
        case l: True
        then have "x = p" using x(1) m(2) True by simp
        then show ?thesis using nx mem x(3)[OF l] by (auto simp: node_ok_def set_remove1_eq distinct_remove1)
      qed (use x(2) nx in \<open>simp add: node_ok_def\<close>)
    qed
    moreover have "paths_move (j_id c) (j_id p) (paths_of (jt_model t)) = paths_of (jt_model t)"
    proof
      fix a
      show "paths_move (j_id c) (j_id p) (paths_of (jt_model t)) a = paths_of (jt_model t) a"
      proof (cases "\<exists>as. paths_of (jt_model t) a = Some as \<and> j_id c \<in> set as")
        case ex: True
        then obtain as pre where as: "paths_of (jt_model t) a = Some as" "j_id c \<in> set as" "as = pre @ j_id c # l # ls"
          using path_sub[OF okA _ _ nc(2)] l(1) by metis
        have "a \<noteq> j_id c" using path_props[OF okA as(1)] as(2) by auto
        then show ?thesis using as nc(2) l np(2) True by (simp add: paths_move_def)
      next
        case False
        then show ?thesis using nc(2) l np(2) True by (auto simp: paths_move_def split: option.splits)
      qed
    qed
    ultimately show ?thesis using pc same by metis
  qed
qed

section \<open>Sequences of operations\<close>

text \<open>Writing to the text, type or data of a node does not touch the tree.\<close>

lemma jupd_ok:
  assumes ok: "jt_ok m" and f: "\<And>x. j_id (f x) = j_id x \<and> j_parent (f x) = j_parent x \<and> j_parents (f x) = j_parents x
    \<and> j_children (f x) = j_children x \<and> j_children_d (f x) = j_children_d x"
  shows "jt_ok (jupd i f m)" "paths_of (jupd i f m) = paths_of m"
proof -
  show e: "paths_of (jupd i f m) = paths_of m"
    by (rule ext) (simp add: paths_of_def jupd_apply option.map_comp comp_def f)
  show "jt_ok (jupd i f m)"
  proof (rule jt_okI[OF e jt_okD(1)[OF ok]])
    fix k n assume "jupd i f m k = Some n"
    then obtain x where x: "m k = Some x" "n = f x \<or> n = x" by (auto simp: jupd_apply split: if_splits)
    show "node_ok (paths_of m) k n" using jt_okD(2)[OF ok x(1)] x(2) f[of x] by (auto simp: node_ok_def)
  qed
qed

lemma field_writes_ok:
  assumes "jt_ok (jt_model t)"
  shows "jt_ok (jt_model (jt_set_text i s t))" "jt_ok (jt_model (set_type i s t))" "jt_ok (jt_model (set_node_data i g t))"
    "paths_of (jt_model (jt_set_text i s t)) = paths_of (jt_model t)"
    "paths_of (jt_model (set_type i s t)) = paths_of (jt_model t)"
    "paths_of (jt_model (set_node_data i g t)) = paths_of (jt_model t)"
  using assms by (auto simp: jt_set_text_def set_type_def set_node_data_def jupd_ok split: option.split)

datatype 'd jt_op =
    Create string string string string 'd
  | Rename string string
  | Retype string string
  | Write_Data string "'d \<Rightarrow> 'd"
  | Delete string
  | Move string string
  | Select string
  | Deselect_All

text \<open>A refused operation leaves the tree as it is.\<close>

fun jt_step :: "'d jt_op \<Rightarrow> 'd jstree \<Rightarrow> 'd jstree" where
  "jt_step (Create p i s ty d) t = (case create_node p i s ty d t of None \<Rightarrow> t | Some r \<Rightarrow> snd r)"
| "jt_step (Rename i s) t = (case rename_node i s t of None \<Rightarrow> t | Some r \<Rightarrow> snd r)"
| "jt_step (Retype i ty) t = set_type i ty t"
| "jt_step (Write_Data i f) t = set_node_data i f t"
| "jt_step (Delete i) t = (case delete_node i t of None \<Rightarrow> t | Some t' \<Rightarrow> t')"
| "jt_step (Move i p) t = (case move_node i p t of None \<Rightarrow> t | Some t' \<Rightarrow> t')"
| "jt_step (Select i) t = snd (jt_select_node i t)"
| "jt_step Deselect_All t = deselect_all t"

text \<open>New nodes have identifiers that are not in the tree.\<close>

fun jt_fresh :: "'d jt_op \<Rightarrow> 'd jstree \<Rightarrow> bool" where
  "jt_fresh (Create p i s ty d) t = (jt_model t i = None)"
| "jt_fresh _ t = True"

fun jt_run :: "'d jt_op list \<Rightarrow> 'd jstree \<Rightarrow> 'd jstree option" where
  "jt_run [] t = Some t"
| "jt_run (e # es) t = (if jt_fresh e t then jt_run es (jt_step e t) else None)"

lemma jt_step_ok: "jt_ok (jt_model t) \<Longrightarrow> jt_fresh e t \<Longrightarrow> jt_ok (jt_model (jt_step e t))"
proof (cases e)
  case (Create p i s ty d)
  assume a: "jt_ok (jt_model t)" "jt_fresh e t"
  show ?thesis using create_node_ok[of t i p s ty d] a Create by (auto split: option.split)
next
  case (Rename i s)
  assume "jt_ok (jt_model t)"
  then show ?thesis using Rename by (auto simp: rename_node_def field_writes_ok split: option.splits)
next
  case (Delete i)
  assume "jt_ok (jt_model t)"
  then show ?thesis using Delete delete_node_ok[of t i] by (auto split: option.split)
next
  case (Move i p)
  assume "jt_ok (jt_model t)"
  then show ?thesis using Move move_node_ok[of t i p] by (auto split: option.split)
next
  case (Select i)
  assume "jt_ok (jt_model t)"
  then show ?thesis using Select by (auto simp: jt_select_node_def split: option.split)
qed (auto simp: field_writes_ok deselect_all_def)

lemma jt_run_ok: "jt_run es t = Some t' \<Longrightarrow> jt_ok (jt_model t) \<Longrightarrow> jt_ok (jt_model t')"
  by (induction es t rule: jt_run.induct) (auto split: if_splits dest: jt_step_ok)

lemma one_node_ok:
  "jt_ok [jroot \<mapsto> \<lparr>j_id = jroot, j_text = s, j_type = ty, j_parent = None, j_parents = [],
     j_children = [], j_children_d = [], j_data = d\<rparr>]"
  by (rule jt_okI[OF refl]) (auto simp: ok_paths_def node_ok_def paths_of_def children_of_def desc_of_def split: if_splits)

definition empty_tree :: "(string \<times> string list option) list \<Rightarrow> 'd \<Rightarrow> 'd jstree" where
  "empty_tree types d0 = \<lparr>jt_model = [jroot \<mapsto> \<lparr>j_id = jroot, j_text = [], j_type = jroot, j_parent = None, j_parents = [],
     j_children = [], j_children_d = [], j_data = d0\<rparr>], jt_selected = [], jt_types = types\<rparr>"

text \<open>
  C5. Starting from a tree with only the root, every sequence of creations with new identifiers,
  renamings, changes of type and data, removals, moves and selections of nodes leaves the dictionary
  consistent: the children and descendants recorded at a node are exactly the nodes that record it as
  their parent and in their path, each once, and every path leads over existing nodes to the root
  without a cycle.
\<close>

theorem jstree_stays_consistent:
  assumes "jt_run es (empty_tree types d0) = Some t"
  shows "\<forall>k n. jt_model t k = Some n \<longrightarrow>
      distinct (j_children n) \<and> set (j_children n) = {c. \<exists>x. jt_model t c = Some x \<and> j_parent x = Some k}
    \<and> distinct (j_children_d n) \<and> set (j_children_d n) = {c. \<exists>x. jt_model t c = Some x \<and> k \<in> set (j_parents x)}
    \<and> distinct (k # j_parents n) \<and> (k = jroot \<longleftrightarrow> j_parents n = []) \<and> last (k # j_parents n) = jroot
    \<and> (\<forall>a \<in> set (j_parents n). jt_model t a \<noteq> None)"
proof (intro allI impI)
  fix k n assume n: "jt_model t k = Some n"
  have ok: "jt_ok (jt_model t)" using jt_run_ok[OF assms] by (simp add: empty_tree_def one_node_ok)
  note nk = node_okD[OF jt_okD(2)[OF ok n]] and pk = path_props[OF jt_okD(1)[OF ok] nk(2)]
  have "c \<in> children_of (paths_of (jt_model t)) k \<longleftrightarrow> (\<exists>x. jt_model t c = Some x \<and> j_parent x = Some k)" for c
    using node_okD(3)[OF jt_okD(2)[OF ok, of c]] by (auto simp: children_of_def paths_of_def split: list.splits)
  moreover have "c \<in> desc_of (paths_of (jt_model t)) k \<longleftrightarrow> (\<exists>x. jt_model t c = Some x \<and> k \<in> set (j_parents x))" for c
    by (auto simp: desc_of_def paths_of_def)
  moreover have "last (k # j_parents n) = jroot \<and> (k = jroot \<longleftrightarrow> j_parents n = [])"
    using path_last[OF jt_okD(1)[OF ok] nk(2)] ok_paths_root[OF jt_okD(1)[OF ok]] ok_paths_step[OF jt_okD(1)[OF ok] nk(2)] nk(2) by (cases "k = jroot") auto
  moreover have "\<forall>a \<in> set (j_parents n). jt_model t a \<noteq> None" using node_in_parents[OF ok n] by auto
  ultimately show "distinct (j_children n) \<and> set (j_children n) = {c. \<exists>x. jt_model t c = Some x \<and> j_parent x = Some k}
    \<and> distinct (j_children_d n) \<and> set (j_children_d n) = {c. \<exists>x. jt_model t c = Some x \<and> k \<in> set (j_parents x)}
    \<and> distinct (k # j_parents n) \<and> (k = jroot \<longleftrightarrow> j_parents n = []) \<and> last (k # j_parents n) = jroot
    \<and> (\<forall>a \<in> set (j_parents n). jt_model t a \<noteq> None)"
    using nk pk by auto
qed

definition demo_types :: "(string \<times> string list option) list" where
  "demo_types = [(''folder'', None), (''file'', Some [])]"

definition demo_ops :: "unit jt_op list" where
  "demo_ops = [Create ''#'' ''d1'' ''src'' ''folder'' (), Create ''#'' ''d2'' ''lib'' ''folder'' (),
     Create ''d1'' ''f1'' ''a.c'' ''file'' (), Move ''d1'' ''d2'', Move ''d2'' ''f1'', Rename ''f1'' ''b.c'']"

lemmas jt_eval = jt_run.simps jt_step.simps jt_fresh.simps create_node_def move_node_def delete_node_def rename_node_def
  jt_set_text_def get_node_def valid_child_def known_type_def add_desc_def del_desc_def jupd_def jupds_def
  jroot_def starts_with_def Let_def

lemma demo_ops_run:
  "map_option (\<lambda>t. (map_option (\<lambda>n. (j_children_d n, j_parents n)) (jt_model t ''d1''),
       map_option (\<lambda>n. (j_text n, j_parents n)) (jt_model t ''f1''))) (jt_run demo_ops (empty_tree demo_types ()))
   = Some (Some ([''f1''], [''d2'', ''#'']), Some (''b.c'', [''d1'', ''d2'', ''#'']))"
  by (simp add: demo_ops_def demo_types_def empty_tree_def jt_eval js_eval)

theorem jstree_stays_consistent_witness:
  "\<exists>t d f. jt_run demo_ops (empty_tree demo_types ()) = Some t
     \<and> jt_model t ''d1'' = Some d \<and> j_children_d d = [''f1''] \<and> j_parents d = [''d2'', ''#'']
     \<and> jt_model t ''f1'' = Some f \<and> j_parents f = [''d1'', ''d2'', ''#''] \<and> j_text f = ''b.c''
     \<and> set (j_children d) = {c. \<exists>x. jt_model t c = Some x \<and> j_parent x = Some ''d1''}"
proof -
  obtain t d f where t: "jt_run demo_ops (empty_tree demo_types ()) = Some t"
    and d: "jt_model t ''d1'' = Some d" "j_children_d d = [''f1'']" "j_parents d = [''d2'', ''#'']"
    and f: "jt_model t ''f1'' = Some f" "j_parents f = [''d1'', ''d2'', ''#'']" "j_text f = ''b.c''"
    using demo_ops_run unfolding map_option_eq_Some prod.inject by blast
  show ?thesis using t d f jstree_stays_consistent[OF t, rule_format, OF d(1)] by blast
qed

text \<open>
  C23. Removing a node takes exactly the node and everything below it out of the tree, and out of the
  selection; every other node keeps its path, text, type and data. Only the root and nodes that do
  not exist are refused.
\<close>

theorem delete_node_removes_subtree:
  assumes "jt_ok (jt_model t)"
  shows "case delete_node i t of
      None \<Rightarrow> get_node t i = None \<or> get_node t i = jt_model t jroot
    | Some t' \<Rightarrow> jt_ok (jt_model t') \<and> (\<exists>b. get_node t i = Some b
        \<and> (\<forall>k. if k \<in> subtree (paths_of (jt_model t)) (j_id b) then jt_model t' k = None \<and> k \<notin> set (jt_selected t')
               else map_option (\<lambda>n. (j_text n, j_type n, j_parents n, j_data n)) (jt_model t' k)
                    = map_option (\<lambda>n. (j_text n, j_type n, j_parents n, j_data n)) (jt_model t k)
                  \<and> (k \<in> set (jt_selected t') \<longleftrightarrow> k \<in> set (jt_selected t))))"
proof (cases "delete_node i t")
  case None
  then show ?thesis using get_node_id[OF assms, of i]
    by (auto simp: delete_node_def Let_def split: option.splits if_splits)
next
  case (Some t')
  obtain b where b: "get_node t i = Some b" "j_id b \<noteq> jroot"
    using Some by (auto simp: delete_node_def split: option.splits if_splits)
  note mb = get_node_id[OF assms b(1)]
  note nb = node_okD[OF jt_okD(2)[OF assms mb]]
  have D: "set (j_children_d b @ [j_id b]) = subtree (paths_of (jt_model t)) (j_id b)" using nb(7) by (auto simp: subtree_def)
  have ds: "distinct (j_parents b)" using path_props[OF jt_okD(1)[OF assms] nb(2)] by simp
  have "jt_model t' = (\<lambda>k. if k \<in> set (j_children_d b @ [j_id b]) then None
      else jupds (j_parents b) (del_desc (j_children_d b @ [j_id b])) (case j_parent b of None \<Rightarrow> jt_model t
        | Some e \<Rightarrow> jupd e (\<lambda>x. x\<lparr>j_children := remove1 (j_id b) (j_children x)\<rparr>) (jt_model t)) k)"
    and sel: "jt_selected t' = filter (\<lambda>k. k \<notin> set (j_children_d b @ [j_id b])) (jt_selected t)"
    using Some b by (auto simp: delete_node_def Let_def)
  then show ?thesis using Some b delete_node_ok[OF assms Some] D
    by (auto simp: jupds_apply[OF ds] jupd_apply del_desc_def option.map_comp comp_def split: option.split)
qed

definition demo_tree :: "unit jstree" where
  "demo_tree = (case jt_run demo_ops (empty_tree demo_types ()) of None \<Rightarrow> empty_tree [] () | Some t \<Rightarrow> t)"

lemma demo_tree_ok: "jt_ok (jt_model demo_tree)"
  using jt_run_ok[of demo_ops "empty_tree demo_types ()"]
  by (auto simp: demo_tree_def empty_tree_def one_node_ok split: option.split)

theorem delete_node_removes_subtree_witness:
  "jt_ok (jt_model demo_tree) \<and> (case delete_node ''d2'' demo_tree of None \<Rightarrow> False
     | Some t \<Rightarrow> jt_ok (jt_model t) \<and> map (\<lambda>k. jt_model t k = None) [''d1'', ''d2'', ''f1'', ''#''] = [True, True, True, False])"
proof -
  have "map_option (\<lambda>t. map (\<lambda>k. jt_model t k = None) [''d1'', ''d2'', ''f1'', ''#'']) (delete_node ''d2'' demo_tree)
      = Some [True, True, True, False]"
    by (simp add: demo_tree_def demo_ops_def demo_types_def empty_tree_def jt_eval js_eval)
  then show ?thesis using demo_tree_ok delete_node_removes_subtree[OF demo_tree_ok, of "''d2''"]
    by (simp split: option.splits)
qed

text \<open>
  C6. Moving a node hangs it, with everything below it, under the new parent: inside the moved part
  the paths keep their lower ends, outside nothing changes. The move is refused exactly for the root,
  into the moved part itself, for missing nodes and for types the parent does not accept; so a move
  never makes a cycle.
\<close>

theorem move_node_moves_subtree:
  assumes "jt_ok (jt_model t)" "get_node t i = Some c" "get_node t par = Some p"
  shows "(move_node i par t = None \<longleftrightarrow> j_id c = jroot \<or> j_id p \<in> subtree (paths_of (jt_model t)) (j_id c)
       \<or> (j_parent c \<noteq> Some (j_id p) \<and> \<not> valid_child t p (j_type c)))
    \<and> (\<forall>t'. move_node i par t = Some t' \<longrightarrow> jt_ok (jt_model t')
       \<and> paths_of (jt_model t') (j_id c) = Some (j_id p # j_parents p)
       \<and> (\<forall>k ks. paths_of (jt_model t) k = Some (ks @ j_id c # j_parents c)
            \<longrightarrow> paths_of (jt_model t') k = Some (ks @ j_id c # j_id p # j_parents p))
       \<and> (\<forall>k. k \<notin> subtree (paths_of (jt_model t)) (j_id c) \<longrightarrow> paths_of (jt_model t') k = paths_of (jt_model t) k))"
proof -
  let ?A = "paths_of (jt_model t)"
  note m = get_node_id[OF assms(1,2)] get_node_id[OF assms(1,3)]
  note nc = node_okD[OF jt_okD(2)[OF assms(1) m(1)]] and np = node_okD[OF jt_okD(2)[OF assms(1) m(2)]]
  have D: "j_id p = j_id c \<or> j_id p \<in> set (j_children_d c) \<longleftrightarrow> j_id p \<in> subtree ?A (j_id c)" using nc(7) by (auto simp: subtree_def)
  have "j_id c \<in> set (j_children p) \<longleftrightarrow> j_parent c = Some (j_id p)"
    unfolding np(5) children_of_def using nc(2,3) by (cases "j_parents c") simp_all
  then have refuse: "move_node i par t = None \<longleftrightarrow> j_id c = jroot \<or> j_id p \<in> subtree ?A (j_id c)
       \<or> (j_parent c \<noteq> Some (j_id p) \<and> \<not> valid_child t p (j_type c))"
    using D assms(2,3) unfolding move_node_def Let_def
    by (simp only: option.simps prod.case if_split_eq1 option.distinct simp_thms) metis
  have "jt_ok (jt_model t') \<and> paths_of (jt_model t') (j_id c) = Some (j_id p # j_parents p)
       \<and> (\<forall>k ks. ?A k = Some (ks @ j_id c # j_parents c)
            \<longrightarrow> paths_of (jt_model t') k = Some (ks @ j_id c # j_id p # j_parents p))
       \<and> (\<forall>k. k \<notin> subtree ?A (j_id c) \<longrightarrow> paths_of (jt_model t') k = ?A k)"
    if t': "move_node i par t = Some t'" for t'
  proof (intro conjI allI impI)
    have mv: "jt_ok (jt_model t')" "paths_of (jt_model t') = paths_move (j_id c) (j_id p) ?A"
      using move_node_ok[OF assms(1) t'] assms(2,3) by auto
    show "jt_ok (jt_model t')" by (rule mv(1))
    show "paths_of (jt_model t') (j_id c) = Some (j_id p # j_parents p)"
      using nc(2) np(2) by (simp add: mv(2) paths_move_def)
    show "paths_of (jt_model t') k = ?A k" if "k \<notin> subtree ?A (j_id c)" for k
      using that nc(2) np(2) by (auto simp: mv(2) paths_move_def subtree_def desc_of_def split: option.split)
    fix k ks assume k: "?A k = Some (ks @ j_id c # j_parents c)"
    then have "k \<noteq> j_id c" using path_props[OF jt_okD(1)[OF assms(1)], of k "ks @ j_id c # j_parents c"] by auto
    then show "paths_of (jt_model t') k = Some (ks @ j_id c # j_id p # j_parents p)"
      using k nc(2) np(2) by (simp add: mv(2) paths_move_def)
  qed
  then show ?thesis using refuse by blast
qed

theorem move_node_moves_subtree_witness:
  "jt_ok (jt_model demo_tree) \<and> (\<exists>c p. get_node demo_tree ''d1'' = Some c \<and> get_node demo_tree ''#'' = Some p
     \<and> (\<forall>t'. move_node ''d1'' ''#'' demo_tree = Some t' \<longrightarrow> paths_of (jt_model t') ''f1'' = Some [''d1'', ''#'']))"
proof -
  have "map_option (\<lambda>n. (j_id n, j_parents n)) (get_node demo_tree ''d1'') = Some (''d1'', [''d2'', ''#''])"
    and "map_option (\<lambda>n. (j_id n, j_parents n)) (get_node demo_tree ''#'') = Some (''#'', [])"
    and f: "paths_of (jt_model demo_tree) ''f1'' = Some ([] @ ''d1'' # [''d2'', ''#''])"
    by (simp_all add: paths_of_def demo_tree_def demo_ops_def demo_types_def empty_tree_def jt_eval js_eval)
  then obtain c p where c: "get_node demo_tree ''d1'' = Some c" "j_id c = ''d1''" "j_parents c = [''d2'', ''#'']"
    and p: "get_node demo_tree ''#'' = Some p" "j_id p = ''#''" "j_parents p = []"
    unfolding map_option_eq_Some prod.inject by blast
  show ?thesis using move_node_moves_subtree[OF demo_tree_ok c(1) p(1)] f demo_tree_ok c p by auto
qed

end
