(* ===== verification/Report_Log.thy ===== *)
theory Report_Log
  imports JS_Tree Bridge_Utils View_Settings
begin

text \<open>
  The player of report logs (\<open>tools/static/tools/js/reports_logging.js\<close>): a log of report uploads is
  replayed line by line, by hand or by a timer; every line becomes a row of a table and a change of
  the tree of reports. The theory models \<open>LogProcessor\<close>, \<open>ReportsTree\<close> and the buttons of the page.
\<close>

section \<open>State\<close>

record log_line =
  ll_time :: string
  ll_type :: string
  ll_text :: "string list"

record log_row =
  lr_time :: string
  lr_type :: string
  lr_action :: string
  lr_report :: "string option"
  lr_extra :: string

text \<open>
  \<open>current_log_line\<close>: not set, a line of the container, or an empty jQuery set. The row of a line
  links to the report if it has one.
\<close>

datatype cursor = Unset | At nat | Nowhere

type_synonym rep_data = "(string \<times> jsval) list"

text \<open>
  \<open>rl_pending\<close>: the node data the widget was created with, until it announces that it is ready.
  \<open>rl_timers\<close>: the running interval timers with their speed; \<open>rl_interval\<close>: the script's variable.
\<close>

record rep_log = page +
  rl_lines :: "log_line list"
  rl_cursor :: cursor
  rl_rows :: "log_row list"
  rl_rows_number :: nat
  rl_ids :: "string set"
  rl_names :: "(string \<times> string) list"
  rl_tree :: "rep_data jstree option"
  rl_pending :: "string option"
  rl_sel :: "string option"
  rl_timers :: "(nat \<times> int) list"
  rl_interval :: "nat option"

text \<open>
  A handler processes a line, refuses it or stops with a TypeError, each time with the state it
  leaves. \<open>Outside\<close> marks lines that are not modelled: a created report without identifier, for which
  the widget invents one, and identifiers that need escaping in a selector.
\<close>

datatype ('x, 's) log_result = Processed 'x 's | Rejected 's | Thrown 's | Outside

section \<open>The tree of reports\<close>

definition report_types :: "(string \<times> string list option) list" where
  "report_types = [(''root'', None), (''component'', None), (''verification'', None), (''deleted'', None),
     (''safe'', Some []), (''unsafe'', Some []), (''unknown'', Some [])]"

definition report_tree :: "string \<Rightarrow> rep_data jstree" where
  "report_tree name = init_tree report_types [(''#0'', name, ''root'', [])] []"

definition show_datum :: "string \<Rightarrow> jsval \<Rightarrow> 'a page_scheme \<Rightarrow> 'a page_scheme" where
  "show_datum i v = (case v of JUndef \<Rightarrow> id | _ \<Rightarrow> update_id i (set_text (to_str v)))"

definition open_node_content :: "rep_data jnode \<Rightarrow> 'a page_scheme \<Rightarrow> 'a page_scheme" where
  "open_node_content n p =
     update_id ''node_data_segment'' shown_el
       (show_datum ''selected_node_identifier'' (obj_get (j_data n) ''identifier'')
         (show_datum ''selected_node_status'' (obj_get (j_data n) ''status'') p))"

text \<open>\<open>deselect_all\<close> and \<open>select_node\<close>, with the handler of the selection.\<close>

definition tree_select :: "rep_data jnode option \<Rightarrow> rep_data jstree \<Rightarrow> 'a rep_log_scheme \<Rightarrow> 'a rep_log_scheme" where
  "tree_select nd t s =
     (case nd of
        None \<Rightarrow> s\<lparr>rl_tree := Some (deselect_all t)\<rparr>
      | Some n \<Rightarrow>
          (case jt_select_node (j_id n) (deselect_all t) of
             (None, t') \<Rightarrow> s\<lparr>rl_tree := Some t'\<rparr>
           | (Some m, t') \<Rightarrow> (open_node_content m s)\<lparr>rl_tree := Some t', rl_sel := Some (j_id m)\<rparr>))"

definition initialize :: "string \<Rightarrow> 'a rep_log_scheme \<Rightarrow> 'a rep_log_scheme" where
  "initialize name s =
     (case rl_tree s of
        Some _ \<Rightarrow> s\<lparr>rl_tree := Some (report_tree name), rl_sel := None\<rparr>
      | None \<Rightarrow> (if rl_pending s = None then s\<lparr>rl_pending := Some name\<rparr> else s))"

definition tree_ready :: "'a rep_log_scheme \<Rightarrow> 'a rep_log_scheme" where
  "tree_ready s =
     (case (rl_tree s, rl_pending s) of
        (None, Some name) \<Rightarrow> s\<lparr>rl_tree := Some (report_tree name), rl_pending := None\<rparr>
      | _ \<Rightarrow> s)"

text \<open>The search field, when typing has paused.\<close>

definition title_search :: "string \<Rightarrow> 'a rep_log_scheme \<Rightarrow> 'a rep_log_scheme" where
  "title_search v s =
     (if v = ''openall'' then emit (Widget ''#tree_container_div'' ''open_all'' []) s
      else if v = ''closeall'' then emit (Widget ''#tree_container_div'' ''close_all'' []) s
      else emit (Widget ''#tree_container_div'' ''search'' [JStr v]) s)"

section \<open>Lines\<close>

text \<open>An argument of a line in a text; a missing one reads \<open>undefined\<close>.\<close>

definition larg :: "string list \<Rightarrow> nat \<Rightarrow> string" where
  "larg d i = (if i < length d then d ! i else ''undefined'')"

type_synonym row_info = "string \<times> string \<times> string option \<times> string"

text \<open>The callback of slow playing: the node of the line is selected.\<close>

definition follow_node :: "bool \<Rightarrow> rep_data jnode option \<Rightarrow> rep_data jstree \<Rightarrow> 'a rep_log_scheme \<Rightarrow> 'a rep_log_scheme" where
  "follow_node force nd t s =
     (if force \<or> nd = None \<or> rl_sel s \<noteq> map_option j_id nd then tree_select nd t s else s)"

definition plain_line ::
    "string \<Rightarrow> string \<Rightarrow> string \<Rightarrow> 'a rep_log_scheme \<Rightarrow> (row_info, 'a rep_log_scheme) log_result" where
  "plain_line rt act ex s = Processed (rt, act, None, ex) s"

definition name_line ::
    "string \<Rightarrow> string \<Rightarrow> string \<Rightarrow> string list \<Rightarrow> 'a rep_log_scheme \<Rightarrow> (row_info, 'a rep_log_scheme) log_result" where
  "name_line rt act ex d s =
     Processed (rt, act, None, ex) (s\<lparr>rl_names := rl_names s @ [(larg d 1, larg d 0)]\<rparr>)"

definition known_line ::
    "bool \<Rightarrow> string \<Rightarrow> string \<Rightarrow> string \<Rightarrow> string list \<Rightarrow> 'a rep_log_scheme \<Rightarrow> (row_info, 'a rep_log_scheme) log_result" where
  "known_line cb rt act ex d s =
     (case d of
        [] \<Rightarrow> Rejected s
      | i # _ \<Rightarrow>
          if i \<notin> rl_ids s then Rejected s
          else if \<not> cb then Processed (rt, act, Some i, ex) s
          else (case rl_tree s of
                  None \<Rightarrow> Thrown s
                | Some t \<Rightarrow> Processed (rt, act, Some i, ex) (follow_node False (get_node t i) t s)))"

definition report_data :: "string \<Rightarrow> string \<Rightarrow> string \<Rightarrow> rep_data" where
  "report_data pk ident st = [(''pk'', JStr pk), (''identifier'', JStr ident), (''status'', JStr st)]"

definition create_line ::
    "bool \<Rightarrow> string \<Rightarrow> string \<Rightarrow> string \<Rightarrow> string \<Rightarrow> string \<Rightarrow> string \<Rightarrow> string \<Rightarrow> string \<Rightarrow> string list \<Rightarrow>
     'a rep_log_scheme \<Rightarrow> (row_info, 'a rep_log_scheme) log_result" where
  "create_line cb rt act ex par ty text ident st d s =
     (case d of
        [] \<Rightarrow> Outside
      | i # _ \<Rightarrow>
          if i = [] then Outside
          else
            (let s1 = s\<lparr>rl_ids := insert i (rl_ids s)\<rparr> in
             case rl_tree s of
               None \<Rightarrow> Thrown s1
             | Some t \<Rightarrow>
                 (case create_node par i text ty (report_data i ident st) t of
                    None \<Rightarrow> Rejected s1
                  | Some (_, t') \<Rightarrow>
                      Processed (rt, act, Some i, ex)
                        (if cb then follow_node True (get_node t' i) t' (s1\<lparr>rl_tree := Some t'\<rparr>)
                         else s1\<lparr>rl_tree := Some t'\<rparr>))))"

text \<open>The text of all spans of the cache with the identifier.\<close>

definition cached_name :: "string \<Rightarrow> 'a rep_log_scheme \<Rightarrow> string" where
  "cached_name i s = concat (map snd (filter (\<lambda>p. fst p = i) (rl_names s)))"

definition selector_text :: "string \<Rightarrow> bool" where
  "selector_text s = list_all (\<lambda>c. c \<noteq> CHR ''\"'' \<and> c \<noteq> CHR 0x5C \<and> \<not> is_line_end c) s"

definition create_named_line ::
    "bool \<Rightarrow> string \<Rightarrow> string \<Rightarrow> string \<Rightarrow> string list \<Rightarrow>
     'a rep_log_scheme \<Rightarrow> (row_info, 'a rep_log_scheme) log_result" where
  "create_named_line cb rt par ty d s =
     (if selector_text (larg d 1) then
        create_line cb rt ''Report was created'' (''Parent PK: '' @ larg d 2 @ ''; ID: '' @ larg d 1) par ty
          (cached_name (larg d 1) s) (larg d 1) ''In progress'' d s
      else Outside)"

definition set_status :: "string \<Rightarrow> string \<Rightarrow> rep_data jstree \<Rightarrow> rep_data jstree" where
  "set_status i st = set_node_data i (obj_set ''status'' (JStr st))"

definition finish_line ::
    "bool \<Rightarrow> string \<Rightarrow> string list \<Rightarrow> 'a rep_log_scheme \<Rightarrow> (row_info, 'a rep_log_scheme) log_result" where
  "finish_line cb rt d s =
     (case d of
        [] \<Rightarrow> Rejected s
      | i # _ \<Rightarrow>
          if i \<notin> rl_ids s then Rejected s
          else
            (case rl_tree s of
               None \<Rightarrow> Thrown s
             | Some t \<Rightarrow>
                 (case get_node t i of
                    None \<Rightarrow> Rejected s
                  | Some n \<Rightarrow>
                      (let t' = set_status (j_id n) ''Finished'' t; s' = s\<lparr>rl_tree := Some t'\<rparr> in
                       Processed (rt, ''Report was updated'', Some i, ''-'')
                         (if cb then follow_node True (get_node t' i) t' s' else s')))))"

text \<open>The descendants that are not deleted yet; the loop stops with an error at a missing node.\<close>

fun mark_children :: "string list \<Rightarrow> bool \<Rightarrow> rep_data jstree \<Rightarrow> rep_data jstree + bool \<times> rep_data jstree" where
  "mark_children [] b t = Inr (b, t)"
| "mark_children (v # vs) b t =
     (case get_node t v of
        None \<Rightarrow> Inl t
      | Some c \<Rightarrow>
          if obj_get (j_data c) ''status'' \<noteq> JStr ''Deleted''
          then mark_children vs True (set_type (j_id c) ''deleted'' (set_status (j_id c) ''Deleted'' t))
          else mark_children vs b t)"

text \<open>
  \<open>F4\<close> and \<open>FV2\<close> differ in what happens to a report that has no node: the first refuses the line, the
  second writes to it before it checks.
\<close>

definition delete_line ::
    "bool \<Rightarrow> bool \<Rightarrow> string \<Rightarrow> string list \<Rightarrow> 'a rep_log_scheme \<Rightarrow> (row_info, 'a rep_log_scheme) log_result" where
  "delete_line lenient cb rt d s =
     (case d of
        [] \<Rightarrow> Rejected s
      | i # _ \<Rightarrow>
          if i \<notin> rl_ids s then Rejected s
          else
            (case rl_tree s of
               None \<Rightarrow> Thrown s
             | Some t \<Rightarrow>
                 (case get_node t i of
                    None \<Rightarrow> if lenient then Rejected s else Thrown s
                  | Some n \<Rightarrow>
                      (case mark_children (j_children_d n) False (set_type (j_id n) ''deleted'' (set_status (j_id n) ''Deleted'' t)) of
                         Inl t' \<Rightarrow> Thrown (s\<lparr>rl_tree := Some t'\<rparr>)
                       | Inr (b, t') \<Rightarrow>
                           (let s1 = s\<lparr>rl_tree := Some t'\<rparr>;
                                s2 = (if b then err_notify (format_str [i] ''The report {0} was deleted before the children are deleted'') None s1
                                      else s1) in
                            Processed (rt, ''Deleting report'', Some i, ''-'')
                              (if cb then follow_node True (get_node t' i) t' s2 else s2))))))"

definition reparent_line ::
    "bool \<Rightarrow> string \<Rightarrow> string \<Rightarrow> string list \<Rightarrow> 'a rep_log_scheme \<Rightarrow> (row_info, 'a rep_log_scheme) log_result" where
  "reparent_line cb rt act d s =
     (case d of
        [] \<Rightarrow> Rejected s
      | i # _ \<Rightarrow>
          if i \<notin> rl_ids s then Rejected s
          else
            (case rl_tree s of
               None \<Rightarrow> Thrown s
             | Some t \<Rightarrow>
                 (case get_node t i of
                    None \<Rightarrow> Rejected s
                  | Some n \<Rightarrow>
                      Processed (rt, act, Some i, ''New parent PK: '' @ larg d 1)
                        (case move_node (j_id n) (larg d 1) t of
                           None \<Rightarrow> s
                         | Some t' \<Rightarrow> if cb then follow_node True (get_node t' i) t' (s\<lparr>rl_tree := Some t'\<rparr>)
                                     else s\<lparr>rl_tree := Some t'\<rparr>))))"

section \<open>The kinds of lines\<close>

type_synonym 'a line_step = "bool \<Rightarrow> string list \<Rightarrow> 'a rep_log_scheme \<Rightarrow> (row_info, 'a rep_log_scheme) log_result"

definition start_line :: "string \<Rightarrow> ('a line_step) option" where
  "start_line ty =
     (if ty = ''S0'' then Some (\<lambda>cb d. plain_line ''Start'' ''Uploading attributes'' (''ID: '' @ larg d 0))
      else if ty = ''S1'' then Some (\<lambda>cb d. name_line ''Start'' ''Creating report''
        (''Component: '' @ larg d 0 @ ''; Parent ID: '' @ larg d 2 @ ''; ID: '' @ larg d 1) d)
      else if ty = ''S2'' then Some (\<lambda>cb d. create_named_line cb ''Start''
        (if larg d 2 = ''NULL'' then ''#0'' else larg d 2) ''component'' d)
      else if ty = ''S3'' then Some (\<lambda>cb d. known_line cb ''Start'' ''Cache was updated'' ''-'' d)
      else None)"

definition ver_start_line :: "string \<Rightarrow> ('a line_step) option" where
  "ver_start_line ty =
     (if ty = ''SV0'' then Some (\<lambda>cb d. plain_line ''VerStart'' ''Preparing data'' (''ID: '' @ larg d 0))
      else if ty = ''SV1'' then Some (\<lambda>cb d. name_line ''VerStart'' ''Creating report''
        (''Component: '' @ larg d 0 @ ''; Parent: '' @ larg d 2 @ ''; ID: '' @ larg d 1) d)
      else if ty = ''SV2'' then Some (\<lambda>cb d. create_named_line cb ''VerStart'' (larg d 2) ''verification'' d)
      else if ty = ''SV3'' then Some (\<lambda>cb d. known_line cb ''VerStart'' ''Cache was updated'' ''-'' d)
      else None)"

definition coverage_line :: "string \<Rightarrow> ('a line_step) option" where
  "coverage_line ty =
     (if ty = ''C0'' then Some (\<lambda>cb d. plain_line ''Coverage'' ''Searching for report'' (''ID: '' @ larg d 0))
      else if ty = ''C1'' then Some (\<lambda>cb d. known_line cb ''Coverage'' ''Report was found'' (''ID: '' @ larg d 1) d)
      else if ty = ''C2'' then Some (\<lambda>cb d. known_line cb ''Coverage'' ''Coverage was saved'' ''-'' d)
      else None)"

definition patch_line :: "string \<Rightarrow> ('a line_step) option" where
  "patch_line ty =
     (if ty = ''P0'' then Some (\<lambda>cb d. plain_line ''Patch'' ''Searching for report'' (''ID: '' @ larg d 0))
      else if ty = ''P1'' then Some (\<lambda>cb d. known_line cb ''Patch'' ''Report was found'' (''ID: '' @ larg d 1) d)
      else if ty = ''P2'' then Some (\<lambda>cb d. known_line cb ''Patch'' ''Report was updated'' ''-'' d)
      else if ty = ''P3'' then Some (\<lambda>cb d. known_line cb ''Patch'' ''Core sources are updated'' ''-'' d)
      else None)"

definition finish_kind :: "string \<Rightarrow> ('a line_step) option" where
  "finish_kind ty =
     (if ty = ''F0'' then Some (\<lambda>cb d. plain_line ''Finish'' ''Searching for report'' (''ID: '' @ larg d 0))
      else if ty = ''F1'' then Some (\<lambda>cb d. known_line cb ''Finish'' ''Report was found'' (''ID: '' @ larg d 1) d)
      else if ty = ''F2'' then Some (\<lambda>cb. finish_line cb ''Finish'')
      else if ty = ''F3'' then Some (\<lambda>cb d. known_line cb ''Finish'' ''Cache was updated'' ''-'' d)
      else if ty = ''F4'' then Some (\<lambda>cb. delete_line True cb ''Finish'')
      else None)"

definition ver_finish_line :: "string \<Rightarrow> ('a line_step) option" where
  "ver_finish_line ty =
     (if ty = ''FV0'' then Some (\<lambda>cb d. plain_line ''VerFinish'' ''Searching for report'' (''ID: '' @ larg d 0))
      else if ty = ''FV1'' then Some (\<lambda>cb d. known_line cb ''VerFinish'' ''Report was found'' (''ID: '' @ larg d 1) d)
      else if ty = ''FV2'' then Some (\<lambda>cb. delete_line False cb ''VerFinish'')
      else if ty = ''FV3'' then Some (\<lambda>cb. reparent_line cb ''VerFinish'' ''Report parent was changed'')
      else if ty = ''FV4'' then Some (\<lambda>cb. finish_line cb ''VerFinish'')
      else if ty = ''FV5'' then Some (\<lambda>cb d. known_line cb ''VerFinish'' ''Cache was updated'' ''-'' d)
      else None)"

definition unknown_line :: "string \<Rightarrow> ('a line_step) option" where
  "unknown_line ty =
     (if ty = ''UN0'' then Some (\<lambda>cb d. plain_line ''Unknown'' ''Creating report'' (''Parent ID: '' @ larg d 0))
      else if ty = ''UN1'' then Some (\<lambda>cb d. create_line cb ''Unknown'' ''Report was created'' (''Parent PK: '' @ larg d 1)
        (larg d 1) ''unknown'' ''Unknown'' ''-'' ''Created'' d)
      else if ty = ''UN2'' then Some (\<lambda>cb. reparent_line cb ''Unknown'' ''Parent was changed'')
      else if ty = ''UN3'' then Some (\<lambda>cb d. known_line cb ''Unknown'' ''Cache was updated'' ''-'' d)
      else None)"

definition safe_line :: "string \<Rightarrow> ('a line_step) option" where
  "safe_line ty =
     (if ty = ''SF0'' then Some (\<lambda>cb d. plain_line ''Safe'' ''Creating report'' (''Parent ID: '' @ larg d 0))
      else if ty = ''SF1'' then Some (\<lambda>cb d. create_line cb ''Safe'' ''Report was created'' (''Parent PK: '' @ larg d 1)
        (larg d 1) ''safe'' ''Safe'' ''-'' ''Created'' d)
      else if ty = ''SF2'' then Some (\<lambda>cb d. known_line cb ''Safe'' ''Cache was updated'' ''-'' d)
      else None)"

definition unsafe_line :: "string \<Rightarrow> ('a line_step) option" where
  "unsafe_line ty =
     (if ty = ''UF0'' then Some (\<lambda>cb d. plain_line ''Unsafe'' ''Creating report'' (''Parent ID: '' @ larg d 0))
      else if ty = ''UF1'' then Some (\<lambda>cb d. create_line cb ''Unsafe'' ''Report was created'' (''Parent PK: '' @ larg d 1)
        (larg d 1) ''unsafe'' ''Unsafe'' ''-'' ''Created'' d)
      else if ty = ''UF2'' then Some (\<lambda>cb d. known_line cb ''Unsafe'' ''Cache was updated'' ''-'' d)
      else None)"

text \<open>The kinds are tried in the order of the \<open>switch\<close>.\<close>

fun first_some :: "('b \<Rightarrow> 'c option) list \<Rightarrow> 'b \<Rightarrow> 'c option" where
  "first_some [] x = None"
| "first_some (f # fs) x = (case f x of None \<Rightarrow> first_some fs x | Some y \<Rightarrow> Some y)"

definition line_kind :: "string \<Rightarrow> ('a line_step) option" where
  "line_kind = first_some [start_line, ver_start_line, coverage_line, patch_line, finish_kind, ver_finish_line,
     unknown_line, safe_line, unsafe_line]"

definition process_log_step ::
    "string \<Rightarrow> string \<Rightarrow> string list \<Rightarrow> bool \<Rightarrow> 'a rep_log_scheme \<Rightarrow> (unit, 'a rep_log_scheme) log_result" where
  "process_log_step ty time d cb s =
     (case line_kind ty of
        None \<Rightarrow> Rejected (err_notify (format_str [ty] ''Unknown report log type: {0}'') None s)
      | Some f \<Rightarrow>
          (case f cb d s of
             Processed (rt, act, rep, ex) s' \<Rightarrow>
               Processed () (s'\<lparr>rl_rows := \<lparr>lr_time = time, lr_type = rt, lr_action = act,
                 lr_report = (case rep of Some [] \<Rightarrow> None | _ \<Rightarrow> rep), lr_extra = ex\<rparr> # rl_rows s'\<rparr>)
           | Rejected s' \<Rightarrow> Rejected s' | Thrown s' \<Rightarrow> Thrown s' | Outside \<Rightarrow> Outside))"

section \<open>Playing the log\<close>

text \<open>A line that was removed from the container has no next line.\<close>

definition fill_log_data :: "log_line list \<Rightarrow> 'a rep_log_scheme \<Rightarrow> nat \<times> 'a rep_log_scheme" where
  "fill_log_data ls s =
     (length ls, s\<lparr>rl_lines := ls, rl_cursor := (case rl_cursor s of At _ \<Rightarrow> Nowhere | c \<Rightarrow> c)\<rparr>)"

text \<open>\<open>next\<close> and \<open>prev\<close> of a line in the container.\<close>

fun next_pos :: "nat \<Rightarrow> cursor \<Rightarrow> cursor" where
  "next_pos n Unset = (if 0 < n then At 0 else Nowhere)"
| "next_pos n (At i) = (if Suc i < n then At (Suc i) else Nowhere)"
| "next_pos n Nowhere = Nowhere"

fun prev_pos :: "cursor \<Rightarrow> cursor" where
  "prev_pos (At (Suc i)) = At i"
| "prev_pos _ = Nowhere"

definition count_row :: "'a rep_log_scheme \<Rightarrow> 'a rep_log_scheme" where
  "count_row s = (if rl_rows_number s > 20 then s\<lparr>rl_rows := butlast (rl_rows s)\<rparr>
     else s\<lparr>rl_rows_number := rl_rows_number s + 1\<rparr>)"

definition get_next_line :: "int \<Rightarrow> 'a rep_log_scheme \<Rightarrow> (unit, 'a rep_log_scheme) log_result" where
  "get_next_line speed s =
     (let c = next_pos (length (rl_lines s)) (rl_cursor s); s1 = s\<lparr>rl_cursor := c\<rparr> in
      case c of
        At i \<Rightarrow>
          (let l = rl_lines s ! i in
           case process_log_step (ll_type l) (ll_time l) (ll_text l) (speed \<le> 2) s1 of
             Processed _ s2 \<Rightarrow> Processed () (count_row s2)
           | Rejected s2 \<Rightarrow> Rejected (err_notify
               (format_str [ll_type l] ''Log line can't be processed. Type: {0}, data: '' @ join '','' (ll_text l)) None
               (s2\<lparr>rl_cursor := prev_pos c\<rparr>))
           | Thrown s2 \<Rightarrow> Thrown s2
           | Outside \<Rightarrow> Outside)
      | _ \<Rightarrow> Rejected (err_notify ''The end is reached!'' None s1))"

definition log_refresh :: "'a rep_log_scheme \<Rightarrow> 'a rep_log_scheme + 'a rep_log_scheme" where
  "log_refresh s =
     (let s1 = s\<lparr>rl_rows := [], rl_rows_number := 0, rl_cursor := Unset, rl_ids := {}\<rparr> in
      case rl_tree s of
        None \<Rightarrow> Inl s1
      | Some t \<Rightarrow> Inr ((initialize (case get_node t ''#0'' of None \<Rightarrow> [] | Some n \<Rightarrow> j_text n) s1)\<lparr>rl_names := []\<rparr>))"

section \<open>The page\<close>

definition start_btn :: selector where "start_btn = by_class ''autofill-btn''"
definition stop_btn :: selector where "stop_btn = by_id ''autofill_stop_btn''"
definition next_step_btn :: selector where "next_step_btn = by_id ''next_step_btn''"
definition refresh_all_btn :: selector where "refresh_all_btn = by_id ''refresh_log_btn''"

definition disable :: "selector \<Rightarrow> 'a page_scheme \<Rightarrow> 'a page_scheme" where
  "disable P = update P (add_class ''disabled'')"

definition enable :: "selector \<Rightarrow> 'a page_scheme \<Rightarrow> 'a page_scheme" where
  "enable P = update P (remove_class ''disabled'')"

definition logs_fileselect :: "'a rep_log_scheme \<Rightarrow> 'a rep_log_scheme" where
  "logs_fileselect s =
     (case elem_by_id ''logs_file_input'' s of
        None \<Rightarrow> s
      | Some e \<Rightarrow>
          update (\<lambda>x. has_class ''btn-title'' x \<and> el_anc x = el_anc e) (set_text (case el_files e of [] \<Rightarrow> [] | f # _ \<Rightarrow> f))
            (update_id ''parse_logs_btn'' (remove_class ''disabled'') s))"

text \<open>\<open>if (decision_id)\<close>: neither 0 nor NaN.\<close>

definition decision_field :: "string \<Rightarrow> (string \<times> jsval) list" where
  "decision_field v = (case parseInt (trim v) of Some n \<Rightarrow> if n = 0 then [] else [(''decision'', JStr (show_int n))] | None \<Rightarrow> [])"

definition parse_logs_click :: "string \<Rightarrow> 'a rep_log_scheme \<Rightarrow> 'a rep_log_scheme" where
  "parse_logs_click url s =
     (case elem_by_id ''logs_file_input'' s of
        None \<Rightarrow> s
      | Some e \<Rightarrow>
          (case el_files e of
             [] \<Rightarrow> err_notify ''Please select the log file'' None s
           | f # _ \<Rightarrow>
               api_upload_file url ''POST''
                 (JObj ((''log'', JStr f) # decision_field (to_str (val_of ''decision_id_input'' s))))
                 ''parse_logs'' (dimmer_on s)))"

definition parse_logs_success :: "log_line list \<Rightarrow> string \<Rightarrow> 'a rep_log_scheme \<Rightarrow> 'a rep_log_scheme" where
  "parse_logs_success ls decision s =
     (let (n, s1) = fill_log_data ls s;
          s2 = initialize (''Decision '' @ decision) (update_id ''steps_number_header'' (set_text (show_nat n)) s1) in
      dimmer_off (update_id ''analyze_form_container'' shown_el (update_id ''parse_form_container'' hidden_el s2)))"

definition next_step_click :: "'a rep_log_scheme \<Rightarrow> (unit, 'a rep_log_scheme) log_result" where
  "next_step_click s =
     (case get_next_line 0 s of
        Rejected s1 \<Rightarrow> Rejected (disable next_step_btn (disable stop_btn (disable start_btn s1)))
      | r \<Rightarrow> r)"

definition refresh_click :: "'a rep_log_scheme \<Rightarrow> 'a rep_log_scheme" where
  "refresh_click s =
     (case log_refresh s of
        Inl s1 \<Rightarrow> s1
      | Inr s1 \<Rightarrow> update_id ''node_data_segment'' hidden_el (enable start_btn (enable next_step_btn s1)))"

definition clear_interval :: "'a rep_log_scheme \<Rightarrow> 'a rep_log_scheme" where
  "clear_interval s =
     (case rl_interval s of
        None \<Rightarrow> s
      | Some i \<Rightarrow> s\<lparr>rl_timers := filter (\<lambda>t. fst t \<noteq> i) (rl_timers s), rl_interval := None\<rparr>)"

text \<open>Every timer has a new identifier.\<close>

definition start_click :: "int \<Rightarrow> nat \<Rightarrow> 'a rep_log_scheme \<Rightarrow> 'a rep_log_scheme" where
  "start_click speed k s =
     (enable stop_btn (disable refresh_all_btn (disable next_step_btn (disable start_btn s))))
       \<lparr>rl_timers := rl_timers s @ [(k, speed)], rl_interval := Some k\<rparr>"

definition interval_tick :: "int \<Rightarrow> nat \<Rightarrow> 'a rep_log_scheme \<Rightarrow> (unit, 'a rep_log_scheme) log_result" where
  "interval_tick speed active s =
     (if active > 0 then Processed () s
      else (case get_next_line speed s of
              Rejected s1 \<Rightarrow> Rejected (clear_interval (enable refresh_all_btn (disable stop_btn s1)))
            | r \<Rightarrow> r))"

definition stop_click :: "'a rep_log_scheme \<Rightarrow> 'a rep_log_scheme" where
  "stop_click s =
     clear_interval (enable start_btn (enable refresh_all_btn (enable next_step_btn (disable stop_btn s))))"

text \<open>The link of a row.\<close>

definition report_link_click :: "string \<Rightarrow> 'a rep_log_scheme \<Rightarrow> 'a rep_log_scheme" where
  "report_link_click i s = (case rl_tree s of None \<Rightarrow> s | Some t \<Rightarrow> tree_select (get_node t i) t s)"

section \<open>What a line leaves alone\<close>

text \<open>
  A line changes the tree, the known reports, the cache of names and the shown report; the player
  itself, the table and the classes of all elements stay.
\<close>

definition btns :: "'a page_scheme \<Rightarrow> (string \<times> string list) list" where
  "btns p = map (\<lambda>e. (el_id e, el_classes e)) (doc p)"

definition player :: "'a rep_log_scheme \<Rightarrow> log_line list \<times> cursor \<times> log_row list \<times> nat \<times> (nat \<times> int) list \<times> nat option \<times> (string \<times> string list) list" where
  "player s = (rl_lines s, rl_cursor s, rl_rows s, rl_rows_number s, rl_timers s, rl_interval s, btns s)"

fun after :: "('x, 's) log_result \<Rightarrow> 's option" where
  "after (Processed x s) = Some s"
| "after (Rejected s) = Some s"
| "after (Thrown s) = Some s"
| "after Outside = None"

definition keeps :: "('s \<Rightarrow> 'b) \<Rightarrow> 's \<Rightarrow> ('x, 's) log_result \<Rightarrow> bool" where
  "keeps f s r = (\<forall>s'. after r = Some s' \<longrightarrow> f s' = f s)"

lemma btns_update_id: "(\<And>e. (el_id (f e), el_classes (f e)) = (el_id e, el_classes e)) \<Longrightarrow> btns (update_id i f p) = btns p"
  by (simp add: btns_def update_id_def map_upd_first)

lemma btns_quiet [simp]:
  "btns (update_id i (set_text x) p) = btns p" "btns (update_id i (set_hidden h) p) = btns p"
  "btns (emit e p) = btns p" "btns (err_notify m k p) = btns p" "btns (open_node_content n p) = btns p"
  by (simp_all add: btns_update_id elem_ops err_notify_def open_node_content_def show_datum_def btns_def [of "emit _ _"] btns_def [of p] split: jsval.split)

lemma rl_page_ops [simp]:
  "rl_lines (update_id i f s) = rl_lines s" "rl_cursor (update_id i f s) = rl_cursor s" "rl_rows (update_id i f s) = rl_rows s"
  "rl_rows_number (update_id i f s) = rl_rows_number s" "rl_timers (update_id i f s) = rl_timers s"
  "rl_interval (update_id i f s) = rl_interval s" "rl_tree (update_id i f s) = rl_tree s" "rl_ids (update_id i f s) = rl_ids s"
  "rl_lines (update P f s) = rl_lines s" "rl_cursor (update P f s) = rl_cursor s" "rl_rows (update P f s) = rl_rows s"
  "rl_rows_number (update P f s) = rl_rows_number s" "rl_timers (update P f s) = rl_timers s"
  "rl_interval (update P f s) = rl_interval s" "rl_tree (update P f s) = rl_tree s" "rl_ids (update P f s) = rl_ids s"
  "rl_lines (emit e s) = rl_lines s" "rl_cursor (emit e s) = rl_cursor s" "rl_rows (emit e s) = rl_rows s"
  "rl_rows_number (emit e s) = rl_rows_number s" "rl_timers (emit e s) = rl_timers s"
  "rl_interval (emit e s) = rl_interval s" "rl_tree (emit e s) = rl_tree s" "rl_ids (emit e s) = rl_ids s"
  by (simp_all add: update_id_def update_def emit_def)

lemma rl_open_node [simp]:
  "rl_lines (open_node_content n s) = rl_lines s" "rl_cursor (open_node_content n s) = rl_cursor s"
  "rl_rows (open_node_content n s) = rl_rows s" "rl_rows_number (open_node_content n s) = rl_rows_number s"
  "rl_timers (open_node_content n s) = rl_timers s" "rl_interval (open_node_content n s) = rl_interval s"
  "rl_ids (open_node_content n s) = rl_ids s"
  by (simp_all add: open_node_content_def show_datum_def split: jsval.split)

lemma btns_rl [simp]:
  "btns (s\<lparr>rl_tree := a\<rparr>) = btns s" "btns (s\<lparr>rl_sel := b\<rparr>) = btns s" "btns (s\<lparr>rl_ids := c\<rparr>) = btns s"
  "btns (s\<lparr>rl_names := d\<rparr>) = btns s" "btns (s\<lparr>rl_cursor := e\<rparr>) = btns s" "btns (s\<lparr>rl_rows := f\<rparr>) = btns s"
  "btns (s\<lparr>rl_rows_number := g\<rparr>) = btns s" "btns (s\<lparr>rl_timers := h\<rparr>) = btns s" "btns (s\<lparr>rl_interval := i\<rparr>) = btns s"
  by (simp_all add: btns_def)

lemma player_quiet [simp]:
  "player (s\<lparr>rl_tree := a\<rparr>) = player s" "player (s\<lparr>rl_ids := c\<rparr>) = player s" "player (s\<lparr>rl_names := d\<rparr>) = player s"
  "player (err_notify m k s) = player s" "player (tree_select nd t s) = player s" "player (follow_node b nd t s) = player s"
proof -
  show ts: "player (tree_select nd t s) = player s"
    by (simp add: player_def tree_select_def split: option.split prod.split)
  show "player (follow_node b nd t s) = player s" by (simp add: follow_node_def ts)
qed (simp_all add: player_def err_notify_def)

lemma lines_keep_player:
  "keeps player s (plain_line rt act ex s)" "keeps player s (name_line rt act ex d s)"
  "keeps player s (known_line cb rt act ex d s)" "keeps player s (create_line cb rt act ex par ty text ident st d s)"
  "keeps player s (create_named_line cb rt par ty d s)" "keeps player s (finish_line cb rt d s)"
  "keeps player s (delete_line l cb rt d s)" "keeps player s (reparent_line cb rt act d s)"
  by (auto simp: keeps_def plain_line_def name_line_def known_line_def create_line_def create_named_line_def
      finish_line_def delete_line_def reparent_line_def Let_def split: list.splits option.splits if_splits sum.splits)

lemmas line_kinds = start_line_def ver_start_line_def coverage_line_def patch_line_def finish_kind_def
  ver_finish_line_def unknown_line_def safe_line_def unsafe_line_def

lemma first_some_cases: "first_some fs x = Some y \<Longrightarrow> \<exists>f \<in> set fs. f x = Some y"
  by (induction fs) (auto split: option.splits)

definition creating :: "string \<Rightarrow> bool" where
  "creating ty = (ty \<in> {''UN1'', ''SF1'', ''UF1''})"

definition naming :: "string \<Rightarrow> bool" where
  "naming ty = (ty \<in> {''S2'', ''SV2''})"

text \<open>Every kind of line is one of eight forms.\<close>

inductive line_form :: "string \<Rightarrow> 'a line_step \<Rightarrow> bool" where
  plain: "\<not> creating ty \<Longrightarrow> \<not> naming ty \<Longrightarrow> line_form ty (\<lambda>cb d. plain_line rt act (ex d))"
| name: "\<not> creating ty \<Longrightarrow> \<not> naming ty \<Longrightarrow> line_form ty (\<lambda>cb d. name_line rt act (ex d) d)"
| known: "\<not> creating ty \<Longrightarrow> \<not> naming ty \<Longrightarrow> line_form ty (\<lambda>cb d. known_line cb rt act (ex d) d)"
| finish: "\<not> creating ty \<Longrightarrow> \<not> naming ty \<Longrightarrow> line_form ty (\<lambda>cb. finish_line cb rt)"
| delete: "\<not> creating ty \<Longrightarrow> \<not> naming ty \<Longrightarrow> line_form ty (\<lambda>cb. delete_line l cb rt)"
| reparent: "\<not> creating ty \<Longrightarrow> \<not> naming ty \<Longrightarrow> line_form ty (\<lambda>cb. reparent_line cb rt act)"
| create: "creating ty \<Longrightarrow> \<not> naming ty \<Longrightarrow> line_form ty (\<lambda>cb d. create_line cb rt act (ex d) (par d) nt tx ident st d)"
| create_named: "\<not> creating ty \<Longrightarrow> naming ty \<Longrightarrow> line_form ty (\<lambda>cb d. create_named_line cb rt (par d) nt d)"

lemma line_kind_form: "line_kind ty = Some f \<Longrightarrow> line_form ty f"
  unfolding line_kind_def
  by (drule first_some_cases, simp add: line_kinds split: if_splits)
    (erule disjE conjE | (hypsubst, rule line_form.intros; simp add: creating_def naming_def))+

lemma line_kind_keeps_player: "line_kind ty = Some f \<Longrightarrow> keeps player s (f cb d s)"
  by (drule line_kind_form, erule line_form.cases) (simp_all add: lines_keep_player)

section \<open>The table\<close>

definition table_fits :: "'a rep_log_scheme \<Rightarrow> bool" where
  "table_fits s = (length (rl_rows s) = rl_rows_number s \<and> rl_rows_number s \<le> 21)"

lemma process_rows:
  "case process_log_step ty time d cb s of
     Processed _ s' \<Rightarrow> (\<exists>r. lr_time r = time \<and> player s' = player (s\<lparr>rl_rows := r # rl_rows s\<rparr>))
   | Rejected s' \<Rightarrow> player s' = player s
   | Thrown s' \<Rightarrow> player s' = player s
   | Outside \<Rightarrow> True"
proof (cases "line_kind ty :: 'a line_step option")
  case None
  then show ?thesis by (simp add: process_log_step_def)
next
  case (Some f)
  have k: "keeps player s (f cb d s)" by (rule line_kind_keeps_player[OF Some])
  show ?thesis
  proof (cases "f cb d s")
    case (Processed x s')
    obtain rt act rep ex where x: "x = (rt, act, rep, ex)" by (cases x)
    let ?r = "\<lparr>lr_time = time, lr_type = rt, lr_action = act, lr_report = (case rep of Some [] \<Rightarrow> None | _ \<Rightarrow> rep), lr_extra = ex\<rparr>"
    have "player s' = player s" using k Processed by (simp add: keeps_def)
    then have "player (s'\<lparr>rl_rows := ?r # rl_rows s'\<rparr>) = player (s\<lparr>rl_rows := ?r # rl_rows s\<rparr>)" by (simp add: player_def)
    then show ?thesis using Some Processed x by (auto simp: process_log_step_def intro!: exI[of _ ?r])
  qed (use k Some in \<open>simp_all add: process_log_step_def keeps_def\<close>)
qed

text \<open>What one step does to the player.\<close>

lemma get_next_line_player:
  "case get_next_line speed s of
     Processed _ s' \<Rightarrow> (\<exists>i r. next_pos (length (rl_lines s)) (rl_cursor s) = At i \<and> lr_time r = ll_time (rl_lines s ! i)
       \<and> player s' = player (count_row (s\<lparr>rl_cursor := At i, rl_rows := r # rl_rows s\<rparr>)))
   | Rejected s' \<Rightarrow> player s' = player (s\<lparr>rl_cursor :=
       (case next_pos (length (rl_lines s)) (rl_cursor s) of At i \<Rightarrow> prev_pos (At i) | c \<Rightarrow> c)\<rparr>)
   | Thrown s' \<Rightarrow> (\<exists>i. next_pos (length (rl_lines s)) (rl_cursor s) = At i \<and> player s' = player (s\<lparr>rl_cursor := At i\<rparr>))
   | Outside \<Rightarrow> True"
proof (cases "next_pos (length (rl_lines s)) (rl_cursor s)")
  case (At i)
  let ?l = "rl_lines s ! i" and ?s = "s\<lparr>rl_cursor := At i\<rparr>"
  note pr = process_rows[where ty = "ll_type ?l" and time = "ll_time ?l" and d = "ll_text ?l" and cb = "speed \<le> 2" and s = ?s]
  show ?thesis
  proof (cases "process_log_step (ll_type ?l) (ll_time ?l) (ll_text ?l) (speed \<le> 2) ?s")
    case (Processed x s')
    then obtain r where r: "lr_time r = ll_time ?l" "player s' = player (?s\<lparr>rl_rows := r # rl_rows s\<rparr>)" using pr by auto
    have "player (count_row s') = player (count_row (?s\<lparr>rl_rows := r # rl_rows s\<rparr>))"
      using r(2) by (auto simp: count_row_def player_def)
    then show ?thesis using r(1) At Processed by (auto simp: get_next_line_def Let_def)
  next
    case (Rejected s')
    then have "player (s'\<lparr>rl_cursor := prev_pos (At i)\<rparr>) = player (s\<lparr>rl_cursor := prev_pos (At i)\<rparr>)"
      using pr by (simp add: player_def)
    then show ?thesis using At Rejected by (simp add: get_next_line_def Let_def)
  qed (use pr At in \<open>simp_all add: get_next_line_def Let_def\<close>)
qed (simp_all add: get_next_line_def Let_def)

text \<open>Successful steps in a row, each at some speed.\<close>

fun play :: "int list \<Rightarrow> 'a rep_log_scheme \<Rightarrow> 'a rep_log_scheme option" where
  "play [] s = Some s"
| "play (v # vs) s = (case get_next_line v s of Processed _ s' \<Rightarrow> play vs s' | _ \<Rightarrow> None)"

definition played :: "nat \<Rightarrow> 'a rep_log_scheme \<Rightarrow> bool" where
  "played n s = (n \<le> length (rl_lines s) \<and> rl_cursor s = (if n = 0 then Unset else At (n - 1))
     \<and> map lr_time (rl_rows s) = take 21 (rev (map ll_time (take n (rl_lines s)))) \<and> rl_rows_number s = min n 21)"

lemma butlast_window: "21 \<le> length ys \<Longrightarrow> butlast (x # take 21 ys) = take 21 (x # ys)"
  by (simp add: butlast_conv_take min_def take_Cons' )

lemma played_step:
  assumes "played n s" "get_next_line v s = Processed u s'"
  shows "played (Suc n) s'" "rl_lines s' = rl_lines s"
proof -
  obtain i r where i: "next_pos (length (rl_lines s)) (rl_cursor s) = At i" "lr_time r = ll_time (rl_lines s ! i)"
    "player s' = player (count_row (s\<lparr>rl_cursor := At i, rl_rows := r # rl_rows s\<rparr>))"
    using get_next_line_player[where speed = v and s = s] assms(2) by auto
  have n: "i = n" "n < length (rl_lines s)" using i(1) assms(1) by (auto simp: played_def split: if_splits)
  let ?ts = "rev (map ll_time (take n (rl_lines s)))"
  have c: "rl_lines s' = rl_lines s" "rl_cursor s' = At n"
    "rl_rows s' = (if rl_rows_number s > 20 then butlast (r # rl_rows s) else r # rl_rows s)"
    "rl_rows_number s' = (if rl_rows_number s > 20 then rl_rows_number s else Suc (rl_rows_number s))"
    using i(3) n(1) by (auto simp: player_def count_row_def)
  have rows: "map lr_time (rl_rows s) = take 21 ?ts" "rl_rows_number s = min n 21" using assms(1) by (auto simp: played_def)
  have ts: "rev (map ll_time (take (Suc n) (rl_lines s))) = ll_time (rl_lines s ! n) # ?ts"
    using n(2) by (simp add: take_Suc_conv_app_nth)
  have "map lr_time (rl_rows s') = take 21 (ll_time (rl_lines s ! n) # ?ts)"
  proof (cases "rl_rows_number s > 20")
    case True
    have "map lr_time (rl_rows s') = butlast (ll_time (rl_lines s ! n) # take 21 ?ts)"
      using True i(2) n(1) unfolding c(3) rows(1)[symmetric] by (simp add: map_butlast)
    also have "\<dots> = take 21 (ll_time (rl_lines s ! n) # ?ts)"
      using True rows(2) n(2) by (intro butlast_window) (simp add: min_def split: if_splits)
    finally show ?thesis .
  next
    case False
    then show ?thesis using c(3) rows i(2) n(1,2) by (simp add: min_def split: if_splits)
  qed
  then show "played (Suc n) s'" using c rows(2) n(2) ts by (auto simp: played_def min_def split: if_splits)
  show "rl_lines s' = rl_lines s" by (rule c(1))
qed

lemma play_played: "play vs s = Some s' \<Longrightarrow> played n s \<Longrightarrow> played (n + length vs) s' \<and> rl_lines s' = rl_lines s"
proof (induction vs arbitrary: n s)
  case (Cons v vs)
  then obtain u s1 where s1: "get_next_line v s = Processed u s1" "play vs s1 = Some s'" by (auto split: log_result.splits)
  show ?case using Cons.IH[OF s1(2) played_step(1)[OF Cons.prems(2) s1(1)]] played_step(2)[OF Cons.prems(2) s1(1)] by simp
qed simp

text \<open>
  C21. After the log was loaded or refreshed, \<open>n\<close> successful steps at any speeds show exactly the newest
  21 of the first \<open>n\<close> lines, the newest first, and the player stands at line \<open>n\<close>: no line is skipped
  or shown twice, and the table never grows beyond 21 rows.
\<close>

theorem played_log_shows_newest_lines:
  assumes "rl_cursor s = Unset" "rl_rows s = []" "rl_rows_number s = 0" "play vs s = Some s'"
  shows "map lr_time (rl_rows s') = take 21 (rev (map ll_time (take (length vs) (rl_lines s))))
    \<and> length vs \<le> length (rl_lines s) \<and> rl_cursor s' = (if vs = [] then Unset else At (length vs - 1))
    \<and> rl_rows_number s' = length (rl_rows s') \<and> length (rl_rows s') \<le> 21"
proof -
  have "played 0 s" using assms(1-3) by (simp add: played_def)
  then have p: "played (length vs) s'" "rl_lines s' = rl_lines s" using play_played[OF assms(4), of 0] by auto
  have t: "map lr_time (rl_rows s') = take 21 (rev (map ll_time (take (length vs) (rl_lines s))))" "length vs \<le> length (rl_lines s)"
    using p by (auto simp: played_def)
  have "length (rl_rows s') = min (length vs) 21" using arg_cong[OF t(1), of length] t(2) by simp
  then show ?thesis using p by (simp add: played_def)
qed

section \<open>Playing by the timer\<close>

datatype log_event = Next_Step | Refresh_All | Start int nat | Stop | Tick nat nat | Link string | Search string
  | Parsed "log_line list" string | Ready

definition clickable :: "selector \<Rightarrow> 'a page_scheme \<Rightarrow> bool" where
  "clickable P p = list_ex (\<lambda>e. P e \<and> \<not> has_class ''disabled'' e) (doc p)"

text \<open>
  Disabled buttons take no clicks, a timer fires only while it runs, and the form is not shown again
  once a log has been parsed.
\<close>

fun log_enabled :: "log_event \<Rightarrow> 'a rep_log_scheme \<Rightarrow> bool" where
  "log_enabled Next_Step s = clickable next_step_btn s"
| "log_enabled Refresh_All s = clickable refresh_all_btn s"
| "log_enabled (Start v k) s = (clickable start_btn s \<and> k \<notin> fst ` set (rl_timers s))"
| "log_enabled Stop s = clickable stop_btn s"
| "log_enabled (Tick k a) s = (k \<in> fst ` set (rl_timers s))"
| "log_enabled (Parsed ls d) s = (rl_timers s = [])"
| "log_enabled _ s = True"

fun log_handle :: "log_event \<Rightarrow> 'a rep_log_scheme \<Rightarrow> 'a rep_log_scheme option" where
  "log_handle Next_Step s = after (next_step_click s)"
| "log_handle Refresh_All s = Some (refresh_click s)"
| "log_handle (Start v k) s = Some (start_click v k s)"
| "log_handle Stop s = Some (stop_click s)"
| "log_handle (Tick k a) s = after (interval_tick (case map_of (rl_timers s) k of None \<Rightarrow> 0 | Some v \<Rightarrow> v) a s)"
| "log_handle (Link i) s = Some (report_link_click i s)"
| "log_handle (Search v) s = Some (title_search v s)"
| "log_handle (Parsed ls d) s = Some (parse_logs_success ls d s)"
| "log_handle Ready s = Some (tree_ready s)"

inductive log_reach :: "'a rep_log_scheme \<Rightarrow> 'a rep_log_scheme \<Rightarrow> bool" where
  log_refl: "log_reach s s"
| log_event: "log_reach s s1 \<Longrightarrow> log_enabled e s1 \<Longrightarrow> log_handle e s1 = Some s2 \<Longrightarrow> log_reach s s2"

text \<open>
  At most one timer runs, and it is the one the script remembers; while it runs a new start, a step by
  hand and a refresh are disabled.
\<close>

definition button :: "selector \<Rightarrow> bool" where
  "button P = (\<forall>e. P e = P (new_elem\<lparr>el_id := el_id e, el_classes := el_classes e\<rparr>))"

definition one_timer :: "'a rep_log_scheme \<Rightarrow> bool" where
  "one_timer s = ((case rl_interval s of None \<Rightarrow> rl_timers s = [] | Some k \<Rightarrow> \<exists>v. rl_timers s = [(k, v)])
     \<and> (rl_timers s \<noteq> [] \<longrightarrow> \<not> clickable start_btn s \<and> \<not> clickable next_step_btn s \<and> \<not> clickable refresh_all_btn s)
     \<and> \<not> list_ex (\<lambda>e. stop_btn e \<and> start_btn e) (doc s))"

lemma buttons [simp]: "button start_btn" "button stop_btn" "button next_step_btn" "button refresh_all_btn"
  by (auto simp: button_def start_btn_def stop_btn_def next_step_btn_def refresh_all_btn_def by_id_def by_class_def has_class_def new_elem_def)

lemma list_ex_btns: "(\<And>e. P e = Q (el_id e, el_classes e)) \<Longrightarrow> list_ex P (doc p) = list_ex Q (btns p)"
  by (simp add: btns_def list_ex_iff)

lemma clickable_btns:
  assumes "btns p = btns q" "button P"
  shows "clickable P p = clickable P q"
  unfolding clickable_def
  by (subst (1 2) list_ex_btns[where Q = "\<lambda>(i, cs). P (new_elem\<lparr>el_id := i, el_classes := cs\<rparr>) \<and> ''disabled'' \<notin> set cs"])
    (use assms in \<open>auto simp: has_class_def button_def\<close>)

definition timing :: "'a rep_log_scheme \<Rightarrow> (nat \<times> int) list \<times> nat option \<times> (string \<times> string list) list" where
  "timing s = (rl_timers s, rl_interval s, btns s)"

lemma player_timing: "player s = player s' \<Longrightarrow> timing s = timing s'"
  by (simp add: player_def timing_def)

lemma one_timer_cong: "timing s = timing s' \<Longrightarrow> one_timer s \<Longrightarrow> one_timer s'"
proof -
  assume t: "timing s = timing s'" and o: "one_timer s"
  have b: "btns s = btns s'" using t by (simp add: timing_def)
  have "list_ex (\<lambda>e. stop_btn e \<and> start_btn e) (doc s) = list_ex (\<lambda>e. stop_btn e \<and> start_btn e) (doc s')"
    by (subst (1 2) list_ex_btns[where Q = "\<lambda>(i, cs). i = ''autofill_stop_btn'' \<and> ''autofill-btn'' \<in> set cs"])
      (auto simp: b stop_btn_def start_btn_def by_id_def by_class_def has_class_def)
  moreover have "rl_timers s = rl_timers s'" "rl_interval s = rl_interval s'" using t by (simp_all add: timing_def)
  moreover note clickable_btns[OF b buttons(1)] clickable_btns[OF b buttons(3)] clickable_btns[OF b buttons(4)]
  ultimately have "one_timer s = one_timer s'" by (simp only: one_timer_def)
  then show ?thesis using o by simp
qed

text \<open>Without timers only the page matters, and no handler makes the stop button a start button.\<close>

lemma one_timer_idle: "rl_timers s = [] \<Longrightarrow> one_timer s \<longleftrightarrow> rl_interval s = None \<and> \<not> list_ex (\<lambda>e. stop_btn e \<and> start_btn e) (doc s)"
  by (auto simp: one_timer_def split: option.split)

lemma list_ex_map_same: "(\<And>x. P (f x) = P x) \<Longrightarrow> list_ex P (map f xs) = list_ex P xs"
  by (induction xs) auto

lemma apart_update [simp]:
  "list_ex (\<lambda>e. stop_btn e \<and> start_btn e) (doc (disable P s)) = list_ex (\<lambda>e. stop_btn e \<and> start_btn e) (doc s)"
  "list_ex (\<lambda>e. stop_btn e \<and> start_btn e) (doc (enable P s)) = list_ex (\<lambda>e. stop_btn e \<and> start_btn e) (doc s)"
  by (simp_all add: disable_def enable_def update_def list_ex_map_same stop_btn_def start_btn_def by_id_def by_class_def keeps_idD)

lemma list_ex_upd_first: "(\<And>x. P (f x) = P x) \<Longrightarrow> list_ex P (upd_first Q f xs) = list_ex P xs"
  by (induction xs) auto

lemma apart_update_id [simp]:
  "list_ex (\<lambda>e. stop_btn e \<and> start_btn e) (doc (update_id i (set_text v) s)) = list_ex (\<lambda>e. stop_btn e \<and> start_btn e) (doc s)"
  "list_ex (\<lambda>e. stop_btn e \<and> start_btn e) (doc (update_id i (set_hidden b) s)) = list_ex (\<lambda>e. stop_btn e \<and> start_btn e) (doc s)"
  "list_ex (\<lambda>e. stop_btn e \<and> start_btn e) (doc (update_id i (remove_class ''active'') s)) = list_ex (\<lambda>e. stop_btn e \<and> start_btn e) (doc s)"
  by (simp_all add: update_id_def list_ex_upd_first stop_btn_def start_btn_def by_id_def by_class_def keeps_idD)

lemma rl_switch [simp]:
  "rl_timers (disable P s) = rl_timers s" "rl_interval (disable P s) = rl_interval s" "rl_lines (disable P s) = rl_lines s"
  "rl_cursor (disable P s) = rl_cursor s" "rl_rows (disable P s) = rl_rows s" "rl_rows_number (disable P s) = rl_rows_number s"
  "rl_timers (enable P s) = rl_timers s" "rl_interval (enable P s) = rl_interval s" "rl_lines (enable P s) = rl_lines s"
  "rl_cursor (enable P s) = rl_cursor s" "rl_rows (enable P s) = rl_rows s" "rl_rows_number (enable P s) = rl_rows_number s"
  "rl_tree (disable P s) = rl_tree s" "rl_tree (enable P s) = rl_tree s" "rl_ids (disable P s) = rl_ids s" "rl_ids (enable P s) = rl_ids s"
  by (simp_all add: disable_def enable_def)

lemma get_next_line_timing: "after (get_next_line v s) = Some s' \<Longrightarrow> timing s' = timing s"
  using get_next_line_player[where speed = v and s = s]
  by (cases "get_next_line v s") (auto simp: player_def timing_def count_row_def split: if_splits)

lemma idle_disable: "rl_timers s = [] \<Longrightarrow> one_timer (disable P s) = one_timer s" "rl_timers s = [] \<Longrightarrow> one_timer (enable P s) = one_timer s"
  by (simp_all add: one_timer_idle)

lemma next_step_one_timer:
  assumes "one_timer s" "clickable next_step_btn s" "after (next_step_click s) = Some s'"
  shows "one_timer s'"
proof -
  have "rl_timers s = []" using assms(1,2) by (auto simp: one_timer_def)
  moreover obtain s1 where s1: "after (get_next_line 0 s) = Some s1"
    "s' = s1 \<or> s' = disable next_step_btn (disable stop_btn (disable start_btn s1))"
    using assms(3) by (auto simp: next_step_click_def split: log_result.splits)
  moreover have "timing s = timing s1" using get_next_line_timing[OF s1(1)] by simp
  ultimately show ?thesis using one_timer_cong[of s s1] assms(1) by (auto simp: idle_disable timing_def)
qed

lemma clear_interval_one_timer:
  "one_timer s \<Longrightarrow> rl_timers (clear_interval s) = [] \<and> rl_interval (clear_interval s) = None \<and> doc (clear_interval s) = doc s"
  by (auto simp: one_timer_def clear_interval_def split: option.splits)

lemma clear_switched:
  assumes "one_timer s" "rl_timers s' = rl_timers s" "rl_interval s' = rl_interval s"
    "list_ex (\<lambda>e. stop_btn e \<and> start_btn e) (doc s') = list_ex (\<lambda>e. stop_btn e \<and> start_btn e) (doc s)"
  shows "one_timer (clear_interval s')" "rl_timers (clear_interval s') = []"
proof -
  show r: "rl_timers (clear_interval s') = []"
    using assms(1-3) by (auto simp: one_timer_def clear_interval_def split: option.splits)
  have "rl_interval (clear_interval s') = None" "doc (clear_interval s') = doc s'"
    by (auto simp: clear_interval_def split: option.splits)
  then show "one_timer (clear_interval s')" using r assms(1,4) by (simp add: one_timer_idle) (simp add: one_timer_def)
qed

lemma tick_one_timer:
  assumes "one_timer s" "after (interval_tick v a s) = Some s'"
  shows "one_timer s'"
proof (cases "a > 0")
  case False
  then obtain s1 where s1: "after (get_next_line v s) = Some s1"
    "s' = s1 \<or> s' = clear_interval (enable refresh_all_btn (disable stop_btn s1))"
    using assms(2) by (auto simp: interval_tick_def split: log_result.splits)
  have "one_timer s1" using one_timer_cong[of s s1] get_next_line_timing[OF s1(1)] assms(1) by simp
  then show ?thesis using s1(2) clear_switched(1)[of s1 "enable refresh_all_btn (disable stop_btn s1)"] by auto
qed (use assms in \<open>simp add: interval_tick_def\<close>)

lemma start_one_timer:
  assumes "one_timer s" "clickable start_btn s"
  shows "one_timer (start_click v k s)"
proof -
  have t: "rl_timers s = []" "\<not> list_ex (\<lambda>e. stop_btn e \<and> start_btn e) (doc s)" using assms unfolding one_timer_def by blast+
  let ?f = "\<lambda>e. let e1 = (if start_btn e then add_class ''disabled'' e else e);
      e2 = (if next_step_btn e1 then add_class ''disabled'' e1 else e1);
      e3 = (if refresh_all_btn e2 then add_class ''disabled'' e2 else e2) in
      if stop_btn e3 then remove_class ''disabled'' e3 else e3"
  have d: "doc (start_click v k s) = map ?f (doc s)"
    by (simp add: start_click_def disable_def enable_def update_def Let_def)
  have "\<not> (P (?f e) \<and> \<not> has_class ''disabled'' (?f e))"
    if "P = start_btn \<or> P = next_step_btn \<or> P = refresh_all_btn" "\<not> (stop_btn e \<and> start_btn e)" for P e
    using that by (auto simp: stop_btn_def start_btn_def next_step_btn_def refresh_all_btn_def by_id_def by_class_def keeps_idD Let_def)
  then have "\<not> clickable P (start_click v k s)" if "P = start_btn \<or> P = next_step_btn \<or> P = refresh_all_btn" for P
    using that t(2) unfolding clickable_def d list_ex_iff set_map by blast
  moreover have "list_ex (\<lambda>e. stop_btn e \<and> start_btn e) (doc (start_click v k s)) = list_ex (\<lambda>e. stop_btn e \<and> start_btn e) (doc s)"
    by (simp add: start_click_def)
  ultimately show ?thesis using t by (simp add: one_timer_def) (simp add: start_click_def)
qed

lemma refresh_one_timer:
  assumes "one_timer s" "clickable refresh_all_btn s"
  shows "one_timer (refresh_click s)"
proof -
  have t: "rl_timers s = []" using assms by (auto simp: one_timer_def)
  have r: "case log_refresh s of Inl s1 \<Rightarrow> timing s1 = timing s | Inr s1 \<Rightarrow> timing s1 = timing s"
    by (auto simp: log_refresh_def Let_def initialize_def timing_def split: option.split)
  show ?thesis
  proof (cases "log_refresh s")
    case (Inl s1)
    then show ?thesis using r one_timer_cong[of s s1] assms(1) by (simp add: refresh_click_def)
  next
    case (Inr s1)
    then have "one_timer s1" "rl_timers s1 = []" using r one_timer_cong[of s s1] assms(1) t by (simp_all add: timing_def)
    then have "one_timer (enable start_btn (enable next_step_btn s1))" by (simp add: idle_disable)
    then have "one_timer (update_id ''node_data_segment'' hidden_el (enable start_btn (enable next_step_btn s1)))"
      by (rule one_timer_cong[rotated]) (simp add: timing_def)
    then show ?thesis using Inr by (simp add: refresh_click_def)
  qed
qed

lemma count_row_fits: "table_fits s \<Longrightarrow> table_fits (count_row (s\<lparr>rl_cursor := c, rl_rows := r # rl_rows s\<rparr>))"
  by (auto simp: table_fits_def count_row_def)

lemma table_fits_player: "player s = player s' \<Longrightarrow> table_fits s = table_fits s'"
  by (simp add: player_def table_fits_def)

lemma get_next_line_fits: "table_fits s \<Longrightarrow> after (get_next_line v s) = Some s' \<Longrightarrow> table_fits s'"
  using get_next_line_player[where speed = v and s = s] count_row_fits[of s] table_fits_player[of s']
  by (cases "get_next_line v s") (force simp: table_fits_def player_def)+

lemma log_handle_fits:
  assumes "table_fits s" "log_handle e s = Some s'"
  shows "table_fits s'"
proof (cases e)
  case Next_Step
  then obtain s1 where "after (get_next_line 0 s) = Some s1"
    "s' = s1 \<or> s' = disable next_step_btn (disable stop_btn (disable start_btn s1))"
    using assms(2) by (auto simp: next_step_click_def split: log_result.splits)
  then show ?thesis using get_next_line_fits[OF assms(1)] by (auto simp: table_fits_def)
next
  case (Tick k a)
  then obtain v where "after (interval_tick v a s) = Some s'" using assms(2) by auto
  then consider "s' = s" | s1 where "after (get_next_line v s) = Some s1"
    "s' = s1 \<or> s' = clear_interval (enable refresh_all_btn (disable stop_btn s1))"
    by (auto simp: interval_tick_def split: log_result.splits if_splits)
  then show ?thesis using get_next_line_fits[OF assms(1)] assms(1)
    by cases (auto simp: table_fits_def clear_interval_def split: option.split)
next
  case (Link i)
  then show ?thesis using assms table_fits_player[of s s']
    by (auto simp: report_link_click_def split: option.splits)
qed (use assms in \<open>auto simp: table_fits_def refresh_click_def log_refresh_def Let_def initialize_def start_click_def stop_click_def
    clear_interval_def title_search_def parse_logs_success_def fill_log_data_def dimmer_off_def tree_ready_def split: option.splits\<close>)

lemma log_handle_one_timer:
  assumes o: "one_timer s" and e: "log_enabled e s" and h: "log_handle e s = Some s'"
  shows "one_timer s'"
proof (cases e)
  case Stop
  then show ?thesis using h o clear_switched(1)[of s "enable start_btn (enable refresh_all_btn (enable next_step_btn (disable stop_btn s)))"]
    by (auto simp: stop_click_def)
next
  case (Parsed ls d)
  then have t: "rl_timers s = []" using e by simp
  then show ?thesis using o h Parsed t
    by (auto simp: one_timer_idle parse_logs_success_def fill_log_data_def dimmer_off_def initialize_def split: option.split)
next
  case (Link i)
  then show ?thesis using o h one_timer_cong[OF player_timing, of s s'] by (auto simp: report_link_click_def split: option.splits)
next
  case (Search v)
  then show ?thesis using o h one_timer_cong[of s s'] by (auto simp: title_search_def timing_def)
next
  case Ready
  then have "timing s = timing s'" using h by (simp add: tree_ready_def timing_def btns_def split: option.splits) auto
  then show ?thesis by (rule one_timer_cong[OF _ o])
next
  case Next_Step
  then show ?thesis using next_step_one_timer[OF o] e h by simp
next
  case Refresh_All
  then show ?thesis using refresh_one_timer[OF o] e h by simp
next
  case (Start v k)
  then show ?thesis using start_one_timer[OF o, of v k] e h by simp
next
  case (Tick k a)
  then show ?thesis using tick_one_timer[OF o] h by simp
qed

text \<open>
  C19. Whatever buttons a user presses and whenever timers fire, at most one timer runs and it is the one
  that the stop button stops; while it runs, no button that would start another one, step by hand or
  reset the log can be pressed; and the table has as many rows as the player counts, at most 21.
\<close>

theorem player_buttons_safe:
  assumes "log_reach s s'" "rl_timers s = []" "rl_interval s = None" "\<not> list_ex (\<lambda>e. stop_btn e \<and> start_btn e) (doc s)"
    and "rl_rows s = []" "rl_rows_number s = 0"
  shows "length (rl_timers s') \<le> 1 \<and> map fst (rl_timers s') = (case rl_interval s' of None \<Rightarrow> [] | Some k \<Rightarrow> [k])
    \<and> rl_timers (stop_click s') = []
    \<and> (rl_timers s' \<noteq> [] \<longrightarrow> \<not> clickable start_btn s' \<and> \<not> clickable next_step_btn s' \<and> \<not> clickable refresh_all_btn s')
    \<and> length (rl_rows s') = rl_rows_number s' \<and> rl_rows_number s' \<le> 21"
proof -
  have "one_timer s' \<and> table_fits s'" using assms
  proof (induction rule: log_reach.induct)
    case (log_event s s1 e s2)
    then show ?case using log_handle_one_timer[of s1 e s2] log_handle_fits[of s1 e s2] by blast
  qed (simp add: one_timer_idle table_fits_def)
  then show ?thesis
    using clear_switched(2)[of s' "enable start_btn (enable refresh_all_btn (enable next_step_btn (disable stop_btn s')))"]
    by (auto simp: one_timer_def table_fits_def stop_click_def split: option.splits)
qed

section \<open>Playing ends\<close>

text \<open>Lines within the model, and the number of lines that are left.\<close>

definition line_ok :: "log_line \<Rightarrow> bool" where
  "line_ok l =
     ((creating (ll_type l) \<or> naming (ll_type l) \<longrightarrow> ll_text l \<noteq> [] \<and> hd (ll_text l) \<noteq> [])
      \<and> (naming (ll_type l) \<longrightarrow> selector_text (larg (ll_text l) 1)))"

fun lines_left :: "nat \<Rightarrow> cursor \<Rightarrow> nat" where
  "lines_left n Unset = n"
| "lines_left n (At i) = n - Suc i"
| "lines_left n Nowhere = 0"

lemma line_inside:
  "plain_line rt act ex s \<noteq> Outside" "name_line rt act ex d s \<noteq> Outside" "known_line cb rt act ex d s \<noteq> Outside"
  "finish_line cb rt d s \<noteq> Outside" "delete_line l cb rt d s \<noteq> Outside" "reparent_line cb rt act d s \<noteq> Outside"
  "d \<noteq> [] \<Longrightarrow> hd d \<noteq> [] \<Longrightarrow> create_line cb rt act ex par ty text ident st d s \<noteq> Outside"
  "d \<noteq> [] \<Longrightarrow> hd d \<noteq> [] \<Longrightarrow> selector_text (larg d 1) \<Longrightarrow> create_named_line cb rt par ty d s \<noteq> Outside"
proof -
  show c: "d \<noteq> [] \<Longrightarrow> hd d \<noteq> [] \<Longrightarrow> create_line cb rt act ex par ty tx ident st d s \<noteq> Outside" for rt act ex par ty tx ident st
    by (auto simp: create_line_def Let_def split: list.split option.split)
  show "d \<noteq> [] \<Longrightarrow> hd d \<noteq> [] \<Longrightarrow> selector_text (larg d 1) \<Longrightarrow> create_named_line cb rt par ty d s \<noteq> Outside"
    using c by (simp add: create_named_line_def)
qed (auto simp: plain_line_def name_line_def known_line_def finish_line_def delete_line_def reparent_line_def Let_def
    split: list.split option.split sum.split)

lemma process_inside: "line_ok l \<Longrightarrow> process_log_step (ll_type l) time (ll_text l) cb s \<noteq> Outside"
proof -
  assume l: "line_ok l"
  have "f cb (ll_text l) s \<noteq> Outside" if "line_kind (ll_type l) = Some f" for f
    using line_kind_form[OF that] l by cases (simp_all add: line_ok_def line_inside)
  then show ?thesis by (auto simp: process_log_step_def split: option.split log_result.split)
qed

lemma get_next_line_left:
  assumes "list_all line_ok (rl_lines s)"
  shows "case get_next_line v s of
      Rejected s' \<Rightarrow> rl_lines s' = rl_lines s
    | Outside \<Rightarrow> False
    | Processed _ s' \<Rightarrow> rl_lines s' = rl_lines s \<and> lines_left (length (rl_lines s)) (rl_cursor s') < lines_left (length (rl_lines s)) (rl_cursor s)
    | Thrown s' \<Rightarrow> rl_lines s' = rl_lines s \<and> lines_left (length (rl_lines s)) (rl_cursor s') < lines_left (length (rl_lines s)) (rl_cursor s)"
proof -
  have left: "next_pos n c = At i \<Longrightarrow> i < n \<and> lines_left n (At i) < lines_left n c" for n c i by (cases c) (auto split: if_splits)
  have "get_next_line v s \<noteq> Outside"
    using process_inside[OF assms[unfolded list_all_length, rule_format]] left
    by (auto simp: get_next_line_def Let_def split: cursor.split log_result.split) (blast dest: left)
  then show ?thesis using get_next_line_player[where speed = v and s = s] left
    by (cases "get_next_line v s") (auto simp: player_def count_row_def split: if_splits)
qed

text \<open>The timer fires \<open>n\<close> times while no request is pending, unless it is stopped before.\<close>

fun auto_play :: "nat \<Rightarrow> 'a rep_log_scheme \<Rightarrow> 'a rep_log_scheme option" where
  "auto_play 0 s = Some s"
| "auto_play (Suc n) s = (case rl_timers s of [] \<Rightarrow> Some s
     | (k, v) # _ \<Rightarrow> (case log_handle (Tick k 0) s of None \<Rightarrow> None | Some s' \<Rightarrow> auto_play n s'))"

lemma auto_play_idle: "rl_timers s = [] \<Longrightarrow> auto_play n s = Some s"
  by (cases n) simp_all

lemma auto_play_more: "auto_play j s = Some s' \<Longrightarrow> rl_timers s' = [] \<Longrightarrow> auto_play (j + m) s = Some s'"
  by (induction j s rule: auto_play.induct) (auto simp: auto_play_idle split: list.splits option.splits)

text \<open>
  C20. Playing a log by the timer ends: started anywhere in the log, the timer is cleared after it has fired
  at most once more than there are lines left, whether the lines are processed, refused or fail.
\<close>

theorem auto_play_ends:
  assumes "one_timer s" "list_all line_ok (rl_lines s)"
  shows "\<exists>s'. auto_play (Suc (lines_left (length (rl_lines s)) (rl_cursor s))) s = Some s' \<and> rl_timers s' = [] \<and> rl_interval s' = None"
  using assms
proof (induction "lines_left (length (rl_lines s)) (rl_cursor s)" arbitrary: s rule: less_induct)
  case less
  show ?case
  proof (cases "rl_timers s")
    case Nil
    then show ?thesis using less.prems(1) by (simp add: one_timer_idle)
  next
    case (Cons kv ts)
    then obtain k v where kv: "rl_timers s = [(k, v)]" using less.prems(1) by (auto simp: one_timer_def split: option.splits)
    note left = get_next_line_left[OF less.prems(2), of v]
    have tick: "log_handle (Tick k 0) s = after (case get_next_line v s of
        Rejected s1 \<Rightarrow> Rejected (clear_interval (enable refresh_all_btn (disable stop_btn s1))) | r \<Rightarrow> r)"
      by (simp add: interval_tick_def kv)
    have step: ?thesis if s': "log_handle (Tick k 0) s = Some s'" "one_timer s'" "rl_lines s' = rl_lines s"
      "lines_left (length (rl_lines s)) (rl_cursor s') < lines_left (length (rl_lines s)) (rl_cursor s)" for s'
    proof -
      obtain m where m: "lines_left (length (rl_lines s)) (rl_cursor s) = Suc (lines_left (length (rl_lines s)) (rl_cursor s') + m)"
        using s'(4) less_iff_Suc_add by auto
      obtain s2 where s2: "auto_play (Suc (lines_left (length (rl_lines s')) (rl_cursor s'))) s' = Some s2" "rl_timers s2 = []" "rl_interval s2 = None"
        using less.hyps[of s'] s'(2-4) less.prems(2) by auto
      have "auto_play (Suc (lines_left (length (rl_lines s)) (rl_cursor s')) + m) s' = Some s2"
        using auto_play_more[OF s2(1,2), of m] s'(3) by simp
      then have "auto_play (Suc (lines_left (length (rl_lines s)) (rl_cursor s))) s = Some s2" using m s'(1) kv by simp
      then show ?thesis using s2 by blast
    qed
    show ?thesis
    proof (cases "get_next_line v s")
      case (Rejected s1)
      let ?s = "clear_interval (enable refresh_all_btn (disable stop_btn s1))"
      have "one_timer s1" using one_timer_cong[of s s1] get_next_line_timing[of v s s1] Rejected less.prems(1) by simp
      then have "rl_timers ?s = []" "one_timer ?s" using clear_switched[of s1 "enable refresh_all_btn (disable stop_btn s1)"] by simp_all
      then show ?thesis using tick Rejected kv by (simp add: auto_play_idle one_timer_idle)
    next
      case (Processed u s1)
      then show ?thesis using step[of s1] tick left one_timer_cong[of s s1] get_next_line_timing[of v s s1] less.prems(1) by simp
    next
      case (Thrown s1)
      then show ?thesis using step[of s1] tick left one_timer_cong[of s s1] get_next_line_timing[of v s s1] less.prems(1) by simp
    qed (use left in simp)
  qed
qed

end
