(* ===== verification/Report_Log_Tree.thy ===== *)
theory Report_Log_Tree
  imports Report_Log
begin

text \<open>
  What the player of report logs does to the tree of reports: the tree stays consistent and holds
  exactly the created reports, removing a report marks everything below it, and two lines on which the
  player does not behave as its other lines do.
\<close>

section \<open>The tree behind the widget\<close>

definition holds :: "string set \<Rightarrow> rep_data jstree \<Rightarrow> bool" where
  "holds D t = (jt_ok (jt_model t) \<and> dom (jt_model t) = D)"

definition tree_holds :: "string set \<Rightarrow> 'a rep_log_scheme \<Rightarrow> bool" where
  "tree_holds D s = (case rl_tree s of None \<Rightarrow> False | Some t \<Rightarrow> holds D t)"

lemma dom_paths [simp]: "dom (paths_of m) = dom m"
  by (auto simp: paths_of_def dom_def)

lemma dom_paths_move: "dom (paths_move a b A) = dom A"
  by (auto simp: paths_move_def split: option.splits if_splits)

lemma jt_model_select [simp]: "jt_model (deselect_all t) = jt_model t" "jt_model (snd (jt_select_node i t)) = jt_model t"
  by (auto simp: deselect_all_def jt_select_node_def split: option.split)

lemma tree_select_tree: "\<exists>t'. rl_tree (tree_select nd t s) = Some t' \<and> jt_model t' = jt_model t"
proof (cases nd)
  case (Some n)
  obtain m t' where mt: "jt_select_node (j_id n) (deselect_all t) = (m, t')" by fastforce
  have "jt_model t' = jt_model t" using jt_model_select(2)[of "j_id n" "deselect_all t"] mt by simp
  then show ?thesis using Some mt by (simp add: tree_select_def split: option.split)
qed (simp add: tree_select_def)

lemma follow_tree: "rl_tree s = Some t \<Longrightarrow> \<exists>t'. rl_tree (follow_node b nd t s) = Some t' \<and> jt_model t' = jt_model t"
  using tree_select_tree[of nd t s] by (simp add: follow_node_def)

lemma tree_holdsE:
  assumes "tree_holds D s"
  obtains t where "rl_tree s = Some t" "holds D t"
  using assms that by (auto simp: tree_holds_def split: option.splits)

lemma holds_tree: "rl_tree s = Some t \<Longrightarrow> tree_holds D s = holds D t"
  by (simp add: tree_holds_def)

lemma follow_holds: "rl_tree s = Some t \<Longrightarrow> holds D t \<Longrightarrow> tree_holds D (follow_node b nd t s)"
  using follow_tree[of s t b nd] by (auto simp: tree_holds_def holds_def)

lemma writes_hold: "holds D t \<Longrightarrow> holds D (set_status i st t)" "holds D t \<Longrightarrow> holds D (set_type i ty t)"
  using field_writes_ok[of t] unfolding holds_def set_status_def dom_paths[symmetric] by simp_all

lemma create_holds:
  assumes "holds D t" "i \<notin> D" "create_node par i tx ty d t = Some (r, t')"
  shows "holds (insert i D) t'"
proof -
  have "jt_model t i = None" using assms(1,2) by (auto simp: holds_def)
  then obtain p where p: "jt_ok (jt_model t')" "get_node t par = Some p" "paths_of (jt_model t') = paths_add i (j_id p) (paths_of (jt_model t))"
    using create_node_ok[OF _ _ assms(3)] assms(1) by (auto simp: holds_def)
  have "jt_model t (j_id p) = Some p" using get_node_id[OF _ p(2)] assms(1) by (simp add: holds_def)
  then have "dom (paths_of (jt_model t')) = insert i (dom (paths_of (jt_model t)))"
    unfolding p(3) paths_add_def by (auto simp: paths_of_def)
  then show ?thesis using p(1) assms(1) by (simp add: holds_def)
qed

lemma move_holds:
  assumes "holds D t" "move_node i par t = Some t'"
  shows "holds D t'"
proof -
  obtain c p :: "rep_data jnode" where c: "jt_ok (jt_model t')" "paths_of (jt_model t') = paths_move (j_id c) (j_id p) (paths_of (jt_model t))"
    using move_node_ok[OF _ assms(2)] assms(1) unfolding holds_def by blast
  have "dom (paths_of (jt_model t')) = dom (paths_of (jt_model t))"
    unfolding c(2) by (rule dom_paths_move)
  then show ?thesis using c(1) assms(1) by (simp add: holds_def)
qed

lemma mark_children_holds:
  "holds D t \<Longrightarrow> set vs \<subseteq> D \<Longrightarrow> \<exists>b' t'. mark_children vs b t = Inr (b', t') \<and> holds D t'"
proof (induction vs b t rule: mark_children.induct)
  case (2 v vs b t)
  obtain c where c: "get_node t v = Some c" using 2(3,4) by (auto simp: holds_def get_node_def split: option.split)
  show ?case using 2(1)[OF c] 2(2)[OF c] 2(3,4) c by (auto simp: writes_hold)
qed simp

section \<open>Lines and the tree\<close>

definition creates :: "string \<Rightarrow> string list \<Rightarrow> string set" where
  "creates ty d = (if creating ty \<or> naming ty then set (take 1 d) else {})"

definition fine :: "string set \<Rightarrow> ('x, 'a rep_log_scheme) log_result \<Rightarrow> bool" where
  "fine D r = (case r of Processed _ s \<Rightarrow> tree_holds D s | Thrown _ \<Rightarrow> False | _ \<Rightarrow> True)"

lemma create_line_fine:
  "tree_holds D s \<Longrightarrow> set (take 1 d) \<inter> D = {} \<Longrightarrow> fine (set (take 1 d) \<union> D) (create_line cb rt act ex par ty tx ident st d s)"
  "tree_holds D s \<Longrightarrow> set (take 1 d) \<inter> D = {} \<Longrightarrow> fine (set (take 1 d) \<union> D) (create_named_line cb rt par ty d s)"
proof -
  show c: "tree_holds D s \<Longrightarrow> set (take 1 d) \<inter> D = {} \<Longrightarrow> fine (set (take 1 d) \<union> D) (create_line cb rt act ex par ty tx ident st d s)"
    for act ex tx ident st
    by (elim tree_holdsE, simp add: fine_def create_line_def Let_def split: list.split option.split)
      (auto simp: holds_tree intro!: follow_holds intro: create_holds)
  show "tree_holds D s \<Longrightarrow> set (take 1 d) \<inter> D = {} \<Longrightarrow> fine (set (take 1 d) \<union> D) (create_named_line cb rt par ty d s)"
    using c by (simp add: create_named_line_def) (simp add: fine_def)
qed

lemma plain_lines_fine:
  assumes "tree_holds D s"
  shows "fine D (plain_line rt act ex s)" "fine D (name_line rt act ex d s)" "fine D (known_line cb rt act ex d s)"
proof -
  obtain t where t: "rl_tree s = Some t" "holds D t" using assms by (rule tree_holdsE)
  show "fine D (plain_line rt act ex s)" "fine D (name_line rt act ex d s)" "fine D (known_line cb rt act ex d s)"
    using t by (auto simp: fine_def plain_line_def name_line_def known_line_def holds_tree intro!: follow_holds split: list.split)
qed

lemma node_writes_fine:
  assumes "tree_holds D s"
  shows "fine D (finish_line cb rt d s)" "fine D (reparent_line cb rt act d s)"
proof -
  obtain t where t: "rl_tree s = Some t" "holds D t" using assms by (rule tree_holdsE)
  show "fine D (finish_line cb rt d s)" "fine D (reparent_line cb rt act d s)"
    using t by (auto simp: fine_def finish_line_def reparent_line_def Let_def holds_tree intro!: follow_holds writes_hold
        intro: move_holds split: list.split option.split)
qed

lemma delete_line_fine:
  assumes "tree_holds D s" "rl_ids s \<subseteq> D"
  shows "fine D (delete_line l cb rt d s)"
proof (cases "\<exists>i ds. d = i # ds \<and> i \<in> rl_ids s")
  case True
  then obtain i ds where d: "d = i # ds" "i \<in> rl_ids s" by blast
  obtain t where t: "rl_tree s = Some t" "holds D t" using assms(1) by (auto simp: tree_holds_def split: option.splits)
  obtain n where n: "get_node t i = Some n" using d(2) t(2) assms(2) by (auto simp: holds_def get_node_def split: option.split)
  let ?t = "set_type (j_id n) ''deleted'' (set_status (j_id n) ''Deleted'' t)"
  have "jt_model t (j_id n) = Some n" using get_node_id[OF _ n] t(2) by (simp add: holds_def)
  then have "set (j_children_d n) \<subseteq> D" using t(2) node_okD(7)[OF jt_okD(2)] by (fastforce simp: holds_def desc_of_def paths_of_def)
  then obtain b t' where bt: "mark_children (j_children_d n) False ?t = Inr (b, t')" "holds D t'"
    using mark_children_holds[of D ?t] writes_hold t(2) by meson
  show ?thesis using d t n bt by (auto simp: fine_def delete_line_def Let_def err_notify_def holds_tree intro!: follow_holds)
qed (auto simp: fine_def delete_line_def split: list.split)

text \<open>The reports that the player knows are those it has put into the tree, while no line is refused.\<close>

lemma follow_ids [simp]: "rl_ids (follow_node b nd t s) = rl_ids s"
  by (simp add: follow_node_def tree_select_def split: option.split prod.split)

lemma line_ids:
  "plain_line rt act ex s = Processed x s' \<Longrightarrow> rl_ids s' = rl_ids s"
  "name_line rt act ex d s = Processed x s' \<Longrightarrow> rl_ids s' = rl_ids s"
  "known_line cb rt act ex d s = Processed x s' \<Longrightarrow> rl_ids s' = rl_ids s"
  "finish_line cb rt d s = Processed x s' \<Longrightarrow> rl_ids s' = rl_ids s"
  "delete_line l cb rt d s = Processed x s' \<Longrightarrow> rl_ids s' = rl_ids s"
  "reparent_line cb rt act d s = Processed x s' \<Longrightarrow> rl_ids s' = rl_ids s"
  "create_line cb rt act ex par ty tx ident st d s = Processed x s' \<Longrightarrow> rl_ids s' = set (take 1 d) \<union> rl_ids s"
  "create_named_line cb rt par ty d s = Processed x s' \<Longrightarrow> rl_ids s' = set (take 1 d) \<union> rl_ids s"
  by (auto simp: plain_line_def name_line_def known_line_def finish_line_def delete_line_def reparent_line_def create_line_def
      create_named_line_def Let_def err_notify_def split: list.splits option.splits if_splits sum.splits)

definition stepped :: "string \<Rightarrow> string list \<Rightarrow> string set \<Rightarrow> 'a rep_log_scheme \<Rightarrow> ('x, 'a rep_log_scheme) log_result \<Rightarrow> bool" where
  "stepped ty d D s r = (case r of
       Processed _ s' \<Rightarrow> tree_holds (creates ty d \<union> D) s' \<and> rl_ids s' = creates ty d \<union> rl_ids s
     | Thrown _ \<Rightarrow> False | _ \<Rightarrow> True)"

lemma steppedI:
  assumes "fine (creates ty d \<union> D) r" "\<And>x s'. r = Processed x s' \<Longrightarrow> rl_ids s' = creates ty d \<union> rl_ids s"
  shows "stepped ty d D s r"
  using assms by (auto simp: stepped_def fine_def split: log_result.splits)

lemma line_kind_tree:
  assumes "line_kind ty = Some f" "tree_holds D s" "rl_ids s \<subseteq> D" "creates ty d \<inter> D = {}"
  shows "stepped ty d D s (f cb d s)"
proof (rule steppedI)
  note fines = plain_lines_fine[OF assms(2)] node_writes_fine[OF assms(2)] delete_line_fine[OF assms(2,3)]
  show "fine (creates ty d \<union> D) (f cb d s)"
    using line_kind_form[OF assms(1)] assms(4) create_line_fine[OF assms(2)] by cases (simp_all add: creates_def fines)
  show "rl_ids s' = creates ty d \<union> rl_ids s" if "f cb d s = Processed x s'" for x s'
    using line_kind_form[OF assms(1)] that by cases (simp_all add: creates_def line_ids)
qed

lemma report_tree_holds: "holds {''#'', ''#0''} (report_tree name)"
proof -
  let ?t = "empty_tree report_types [] :: rep_data jstree"
  have "holds {jroot} ?t" by (simp add: holds_def empty_tree_def one_node_ok)
  moreover obtain r t' where t': "create_node jroot ''#0'' name ''root'' [] ?t = Some (r, t')" "report_tree name = t'"
    by (simp add: report_tree_def init_tree_def empty_tree_def create_node_def get_node_def valid_child_def report_types_def jroot_def Let_def)
  ultimately have "holds (insert ''#0'' {jroot}) t'" by (intro create_holds[OF _ _ t'(1)]) (auto simp: jroot_def)
  then show ?thesis using t'(2) by (simp add: jroot_def insert_commute)
qed

lemma get_next_line_tree:
  assumes "played n s" "get_next_line v s = Processed u s'" "tree_holds D s" "rl_ids s \<subseteq> D"
    and "creates (ll_type (rl_lines s ! n)) (ll_text (rl_lines s ! n)) \<inter> D = {}"
  shows "tree_holds (creates (ll_type (rl_lines s ! n)) (ll_text (rl_lines s ! n)) \<union> D) s'"
    "rl_ids s' = creates (ll_type (rl_lines s ! n)) (ll_text (rl_lines s ! n)) \<union> rl_ids s" "n < length (rl_lines s)"
proof -
  let ?l = "rl_lines s ! n" and ?s = "s\<lparr>rl_cursor := At n\<rparr>"
  have n: "next_pos (length (rl_lines s)) (rl_cursor s) = At n" "n < length (rl_lines s)"
    using assms(1,2) by (auto simp: played_def get_next_line_def Let_def split: if_splits)
  then obtain f x s1 where f: "line_kind (ll_type ?l) = Some f" "f (v \<le> 2) (ll_text ?l) ?s = Processed x s1"
    "rl_tree s' = rl_tree s1" "rl_ids s' = rl_ids s1"
    using assms(2) by (auto simp: get_next_line_def process_log_step_def Let_def count_row_def split: option.splits log_result.splits if_splits)
  have "stepped (ll_type ?l) (ll_text ?l) D ?s (f (v \<le> 2) (ll_text ?l) ?s)"
    by (rule line_kind_tree[OF f(1)]) (use assms(3-5) in \<open>simp_all add: tree_holds_def\<close>)
  then show "tree_holds (creates (ll_type ?l) (ll_text ?l) \<union> D) s'" "rl_ids s' = creates (ll_type ?l) (ll_text ?l) \<union> rl_ids s"
    using f by (simp_all add: stepped_def tree_holds_def)
  show "n < length (rl_lines s)" by (rule n(2))
qed

definition created_ids :: "log_line list \<Rightarrow> string list" where
  "created_ids ls = concat (map (\<lambda>l. if creating (ll_type l) \<or> naming (ll_type l) then take 1 (ll_text l) else []) ls)"

lemma created_ids_set: "set (created_ids ls) = (\<Union>l \<in> set ls. creates (ll_type l) (ll_text l))"
  by (simp add: created_ids_def creates_def if_distrib[of set] cong: if_cong)

lemma created_step:
  assumes "n < length ls"
  shows "set (created_ids (take (Suc n) ls)) = creates (ll_type (ls ! n)) (ll_text (ls ! n)) \<union> set (created_ids (take n ls))"
    "distinct (created_ids (take (Suc n) ls)) \<Longrightarrow> creates (ll_type (ls ! n)) (ll_text (ls ! n)) \<inter> set (created_ids (take n ls)) = {}"
  using assms by (auto simp: created_ids_def creates_def take_Suc_conv_app_nth split: if_splits)

lemma created_prefix: "distinct (created_ids ls) \<Longrightarrow> distinct (created_ids (take n ls))"
proof -
  assume "distinct (created_ids ls)"
  then have "distinct (created_ids (take n ls @ drop n ls))" by simp
  then show ?thesis by (simp add: created_ids_def del: append_take_drop_id)
qed

definition has_created :: "nat \<Rightarrow> 'a rep_log_scheme \<Rightarrow> bool" where
  "has_created n s = (played n s \<and> tree_holds (set (created_ids (take n (rl_lines s))) \<union> {''#'', ''#0''}) s
     \<and> rl_ids s \<subseteq> set (created_ids (take n (rl_lines s))))"

lemma play_created:
  assumes "play vs s = Some s'" "has_created n s" "distinct (created_ids (rl_lines s))" "{''#'', ''#0''} \<inter> set (created_ids (rl_lines s)) = {}"
  shows "has_created (n + length vs) s' \<and> rl_lines s' = rl_lines s"
  using assms
proof (induction vs arbitrary: n s)
  case (Cons v vs)
  then obtain u s1 where s1: "get_next_line v s = Processed u s1" "play vs s1 = Some s'" by (auto split: log_result.splits)
  let ?l = "rl_lines s ! n" and ?D = "set (created_ids (take n (rl_lines s)))"
  have pl: "played n s" using Cons.prems(2) by (simp add: has_created_def)
  have n: "n < length (rl_lines s)" using pl s1(1) by (auto simp: played_def get_next_line_def Let_def split: if_splits)
  have "creates (ll_type ?l) (ll_text ?l) \<subseteq> set (created_ids (rl_lines s))"
    using nth_mem[OF n] unfolding created_ids_set by blast
  then have "creates (ll_type ?l) (ll_text ?l) \<inter> (?D \<union> {''#'', ''#0''}) = {}"
    using created_step(2)[OF n] created_prefix[OF Cons.prems(3), of "Suc n"] Cons.prems(4) by blast
  note tr = get_next_line_tree[OF pl s1(1) _ _ this]
  have "has_created (Suc n) s1"
    using tr(1,2) Cons.prems(2) played_step[OF pl s1(1)] created_step(1)[OF n]
    by (auto simp: has_created_def Un_assoc)
  then show ?case using Cons.IH[OF s1(2), of "Suc n"] Cons.prems(3,4) played_step(2)[OF pl s1(1)] by simp
qed simp

text \<open>
  C8. Playing the first \<open>n\<close> lines of a log in which no report is created twice leaves a consistent tree
  with exactly the root, the decision and the reports these lines created: finished, changed and
  deleted reports stay, and a changed parent never detaches a report.
\<close>

theorem played_tree_has_created_reports:
  assumes "rl_cursor s = Unset" "rl_rows s = []" "rl_rows_number s = 0" "rl_ids s = {}" "rl_tree s = Some (report_tree name)"
    and "distinct (created_ids (rl_lines s))" "{''#'', ''#0''} \<inter> set (created_ids (rl_lines s)) = {}" "play vs s = Some s'"
  shows "\<exists>t. rl_tree s' = Some t \<and> jt_ok (jt_model t)
    \<and> dom (jt_model t) = {''#'', ''#0''} \<union> set (created_ids (take (length vs) (rl_lines s)))"
proof -
  have "has_created 0 s" using assms(1-5) report_tree_holds[of name]
    by (simp add: has_created_def played_def tree_holds_def created_ids_def)
  then have "has_created (length vs) s'" "rl_lines s' = rl_lines s" using play_created[OF assms(8) _ assms(6,7), of 0] by simp_all
  then show ?thesis by (auto simp: has_created_def tree_holds_def holds_def split: option.splits)
qed

section \<open>Deleted reports\<close>

definition is_deleted :: "rep_data jnode \<Rightarrow> bool" where
  "is_deleted n = (obj_get (j_data n) ''status'' = JStr ''Deleted'')"

definition mark_node :: "rep_data jnode \<Rightarrow> rep_data jnode" where
  "mark_node n = (if is_deleted n then n else n\<lparr>j_data := obj_set ''status'' (JStr ''Deleted'') (j_data n), j_type := ''deleted''\<rparr>)"

lemma mark_node_idem [simp]: "mark_node (mark_node n) = mark_node n" "is_deleted (mark_node n)"
  by (simp_all add: mark_node_def is_deleted_def)

lemma write_deleted:
  assumes "map_of (jt_types t) ''deleted'' \<noteq> None" "jt_model t v = Some c" "j_id c = v"
  shows "jt_model (set_type v ''deleted'' (set_status v ''Deleted'' t)) =
      (jt_model t)(v \<mapsto> c\<lparr>j_data := obj_set ''status'' (JStr ''Deleted'') (j_data c), j_type := ''deleted''\<rparr>)"
    "jt_types (set_type v ''deleted'' (set_status v ''Deleted'' t)) = jt_types t"
  using assms by (auto simp: set_type_def set_status_def set_node_data_def get_node_def jupd_def fun_eq_iff split: option.split)

lemma mark_children_marks:
  assumes "holds D t" "set vs \<subseteq> D" "map_of (jt_types t) ''deleted'' \<noteq> None"
  shows "\<exists>b' t'. mark_children vs b t = Inr (b', t') \<and> jt_types t' = jt_types t
    \<and> jt_model t' = (\<lambda>k. if k \<in> set vs then map_option mark_node (jt_model t k) else jt_model t k)"
  using assms
proof (induction vs b t rule: mark_children.induct)
  case (2 v vs b t)
  obtain c where m: "jt_model t v = Some c" using 2(3,4) by (auto simp: holds_def)
  have c: "get_node t v = Some c" "j_id c = v" using m 2(3) jt_okD(2)[of "jt_model t" v c] by (auto simp: get_node_def holds_def node_ok_def)
  let ?t = "set_type (j_id c) ''deleted'' (set_status (j_id c) ''Deleted'' t)"
  show ?case
  proof (cases "is_deleted c")
    case True
    then have d: "mark_node c = c" "obj_get (j_data c) ''status'' = JStr ''Deleted''" by (simp_all add: mark_node_def is_deleted_def)
    obtain b' t' where t': "mark_children vs b t = Inr (b', t')" "jt_types t' = jt_types t"
      "jt_model t' = (\<lambda>k. if k \<in> set vs then map_option mark_node (jt_model t k) else jt_model t k)"
      using 2(2)[OF c(1)] d 2(3-5) by auto
    show ?thesis using t' c d m by (auto simp: fun_eq_iff)
  next
    case False
    then have d: "obj_get (j_data c) ''status'' \<noteq> JStr ''Deleted''" by (simp add: is_deleted_def)
    have w: "jt_model ?t = (jt_model t)(v \<mapsto> mark_node c)" "jt_types ?t = jt_types t"
      using write_deleted[OF 2(5) m c(2)] False c(2) by (simp_all add: mark_node_def)
    obtain b' t' where t': "mark_children vs True ?t = Inr (b', t')" "jt_types t' = jt_types t"
      "jt_model t' = (\<lambda>k. if k \<in> set vs then map_option mark_node (jt_model ?t k) else jt_model ?t k)"
      using 2(1)[OF c(1) d] 2(3-5) w(2) by (auto simp: writes_hold)
    show ?thesis using t' c(1) d m w by (auto simp: fun_eq_iff)
  qed
qed simp

text \<open>
  C22. A line that deletes a report marks the report and every report below it as deleted, whatever was
  known about them, changes no other report, and keeps the shape of the tree. In a consistent tree
  it does not fail half way.
\<close>

theorem deleting_marks_all_below:
  assumes "jt_ok (jt_model t)" "rl_tree s = Some t" "map_of (jt_types t) ''deleted'' \<noteq> None" "i \<in> rl_ids s" "jt_model t i = Some n"
  shows "\<exists>t' s'. delete_line l False rt (i # ds) s = Processed (rt, ''Deleting report'', Some i, ''-'') s' \<and> rl_tree s' = Some t'
    \<and> (\<forall>k. if k \<in> subtree (paths_of (jt_model t)) i then (\<exists>m. jt_model t' k = Some m \<and> is_deleted m) else jt_model t' k = jt_model t k)
    \<and> paths_of (jt_model t') = paths_of (jt_model t)"
proof -
  let ?D = "dom (jt_model t)" and ?t = "set_type i ''deleted'' (set_status i ''Deleted'' t)"
  note ni = node_okD[OF jt_okD(2)[OF assms(1,5)]]
  have g: "get_node t i = Some n" "j_id n = i" using assms(5) ni(1) by (auto simp: get_node_def)
  have w: "jt_model ?t = (jt_model t)(i \<mapsto> n\<lparr>j_data := obj_set ''status'' (JStr ''Deleted'') (j_data n), j_type := ''deleted''\<rparr>)"
    "jt_types ?t = jt_types t" using write_deleted[OF assms(3,5) g(2)] by simp_all
  have "holds ?D ?t" using writes_hold assms(1) by (simp add: holds_def)
  moreover have sub: "set (j_children_d n) \<subseteq> ?D" using ni(7) by (auto simp: desc_of_def paths_of_def)
  ultimately obtain b t' where t': "mark_children (j_children_d n) False ?t = Inr (b, t')"
    "jt_model t' = (\<lambda>k. if k \<in> set (j_children_d n) then map_option mark_node (jt_model ?t k) else jt_model ?t k)"
    using mark_children_marks[of ?D ?t "j_children_d n" False] assms(3) w(2) by auto
  obtain s' where s': "delete_line l False rt (i # ds) s = Processed (rt, ''Deleting report'', Some i, ''-'') s'" "rl_tree s' = Some t'"
    using assms(2,4) g t'(1) by (auto simp: delete_line_def Let_def err_notify_def)
  have "if k \<in> subtree (paths_of (jt_model t)) i then (\<exists>m. jt_model t' k = Some m \<and> is_deleted m) else jt_model t' k = jt_model t k" for k
  proof -
    have sb: "k \<in> subtree (paths_of (jt_model t)) i \<longleftrightarrow> k = i \<or> k \<in> set (j_children_d n)" using ni(7) by (simp add: subtree_def)
    have del: "is_deleted (n\<lparr>j_data := obj_set ''status'' (JStr ''Deleted'') (j_data n), j_type := ''deleted''\<rparr>)" by (simp add: is_deleted_def)
    show ?thesis
    proof (cases "k \<in> set (j_children_d n)")
      case True
      then obtain m where "jt_model ?t k = Some m" using sub by (cases "k = i") (auto simp: w(1))
      then show ?thesis using True sb by (simp add: t'(2))
    qed (use sb del in \<open>simp add: t'(2) w(1)\<close>)
  qed
  moreover have "paths_of (jt_model t') k = paths_of (jt_model t) k" for k
    by (cases "k = i"; cases "jt_model t k") (simp_all add: paths_of_def t'(2) w(1) assms(5) mark_node_def)
  ultimately show ?thesis using s' by (simp add: fun_eq_iff)
qed

section \<open>Examples\<close>

definition demo_lines :: "log_line list" where
  "demo_lines = [\<lparr>ll_time = ''t1'', ll_type = ''S1'', ll_text = [''Core'', ''/'', ''NULL'']\<rparr>,
     \<lparr>ll_time = ''t2'', ll_type = ''S2'', ll_text = [''10'', ''/'', ''NULL'']\<rparr>,
     \<lparr>ll_time = ''t3'', ll_type = ''UF1'', ll_text = [''11'', ''10'']\<rparr>]"

definition demo_buttons :: "elem list" where
  "demo_buttons = [new_elem\<lparr>el_key := 1, el_classes := [''autofill-btn'']\<rparr>,
     new_elem\<lparr>el_key := 2, el_id := ''autofill_stop_btn'', el_classes := [''disabled'']\<rparr>,
     new_elem\<lparr>el_key := 3, el_id := ''next_step_btn''\<rparr>, new_elem\<lparr>el_key := 4, el_id := ''refresh_log_btn''\<rparr>]"

definition demo_log :: rep_log where
  "demo_log = \<lparr>doc = demo_buttons, out = [], href = [], rl_lines = demo_lines, rl_cursor = Unset, rl_rows = [], rl_rows_number = 0,
     rl_ids = {}, rl_names = [], rl_tree = Some (report_tree ''Decision''), rl_pending = None, rl_sel = None, rl_timers = [], rl_interval = None\<rparr>"

lemmas log_eval = get_next_line_def process_log_step_def line_kind_def line_kinds plain_line_def name_line_def
  create_named_line_def create_line_def known_line_def follow_node_def tree_select_def open_node_content_def show_datum_def
  cached_name_def larg_def selector_text_def is_line_end_def count_row_def report_data_def jt_select_node_def deselect_all_def
  update_id_def report_tree_def init_tree_def report_types_def

lemma demo_play:
  "map_option (\<lambda>s. (rl_cursor s, map lr_time (rl_rows s), rl_ids s)) (play [5, 5, 5] demo_log) = Some (At 2, [''t3'', ''t2'', ''t1''], {''11'', ''10''})"
  by (simp add: demo_log_def demo_lines_def log_eval jt_eval js_eval)

theorem played_tree_has_created_reports_witness:
  "\<exists>s' t. play [5, 5, 5] demo_log = Some s' \<and> rl_tree s' = Some t \<and> jt_ok (jt_model t)
     \<and> dom (jt_model t) = {''#'', ''#0''} \<union> {''10'', ''11''}"
proof -
  obtain s' where s': "play [5, 5, 5] demo_log = Some s'" using demo_play by auto
  have c: "created_ids (take (length [5, 5, 5 :: int]) (rl_lines demo_log)) = [''10'', ''11'']"
    "created_ids (rl_lines demo_log) = [''10'', ''11'']"
    by (simp_all add: created_ids_def demo_log_def demo_lines_def creating_def naming_def)
  obtain t where "rl_tree s' = Some t" "jt_ok (jt_model t)"
    "dom (jt_model t) = {''#'', ''#0''} \<union> set (created_ids (take (length [5, 5, 5 :: int]) (rl_lines demo_log)))"
    using played_tree_has_created_reports[of demo_log "''Decision''" "[5, 5, 5]" s'] s' c(2) by (auto simp: demo_log_def)
  then show ?thesis unfolding c(1) using s' by auto
qed

theorem deleting_marks_all_below_witness:
  "\<exists>t' s' s'' t n m. play [5, 5, 5] demo_log = Some s' \<and> rl_tree s' = Some t \<and> jt_model t ''10'' = Some n
     \<and> delete_line True False ''Finish'' [''10''] s' = Processed (''Finish'', ''Deleting report'', Some ''10'', ''-'') s''
     \<and> rl_tree s'' = Some t' \<and> jt_model t' ''11'' = Some m \<and> is_deleted m"
proof -
  have "map_option (\<lambda>s. (map_option (\<lambda>t. (map_of (jt_types t) ''deleted'' \<noteq> None, jt_model t ''10'' \<noteq> None, paths_of (jt_model t) ''11''))
      (rl_tree s), rl_ids s)) (play [5, 5, 5] demo_log) = Some (Some (True, True, Some [''10'', ''#0'', ''#'']), {''11'', ''10''})"
    by (simp add: demo_log_def demo_lines_def log_eval jt_eval js_eval paths_of_def)
  then obtain s' t where s': "play [5, 5, 5] demo_log = Some s'" "rl_tree s' = Some t" "rl_ids s' = {''11'', ''10''}"
    and t: "map_of (jt_types t) ''deleted'' \<noteq> None" "jt_model t ''10'' \<noteq> None" "paths_of (jt_model t) ''11'' = Some [''10'', ''#0'', ''#'']"
    by auto
  obtain n where n: "jt_model t ''10'' = Some n" using t(2) by auto
  have ids: "created_ids (rl_lines demo_log) = [''10'', ''11'']"
    by (simp add: created_ids_def demo_log_def demo_lines_def creating_def naming_def)
  have h: "has_created 0 demo_log" using report_tree_holds[of "''Decision''"]
    by (simp add: has_created_def demo_log_def played_def tree_holds_def created_ids_def[of "[]"])
  have "has_created (0 + length [5, 5, 5 :: int]) s'" using play_created[OF s'(1) h] ids by simp
  then have ok: "jt_ok (jt_model t)" using s'(2) by (simp add: has_created_def tree_holds_def holds_def)
  have i: "''10'' \<in> rl_ids s'" using s'(3) by simp
  have "''11'' \<in> subtree (paths_of (jt_model t)) ''10''" using t(3) by (simp add: subtree_def desc_of_def)
  then show ?thesis using deleting_marks_all_below[OF ok s'(2) t(1) i n, of True "''Finish''" "[]"] s' n by metis
qed

section \<open>Refused lines\<close>

text \<open>
  C32. A refused line is tried again by the next step, except the first line of the log: after it has been
  refused, the next step reports the end of the log although no line was processed.
\<close>

theorem refused_first_line_is_the_end:
  assumes "get_next_line v s = Rejected s1" "next_pos (length (rl_lines s)) (rl_cursor s) = At i"
  shows "rl_cursor s1 = prev_pos (At i) \<and> (if i = 0 then get_next_line w s1 = Rejected (err_notify ''The end is reached!'' None s1)
    else next_pos (length (rl_lines s1)) (rl_cursor s1) = At i)"
proof -
  have p: "player s1 = player (s\<lparr>rl_cursor := prev_pos (At i)\<rparr>)"
    using get_next_line_player[where speed = v and s = s] assms by simp
  have i: "i < length (rl_lines s)" using assms(2) by (cases "rl_cursor s") (auto split: if_splits)
  have c: "rl_cursor s1 = prev_pos (At i)" "rl_lines s1 = rl_lines s" using p by (simp_all add: player_def)
  have e: "s1\<lparr>rl_cursor := Nowhere\<rparr> = s1" if "rl_cursor s1 = Nowhere" using that by simp
  show ?thesis
  proof (cases i)
    case 0
    then have n: "rl_cursor s1 = Nowhere" using c(1) by simp
    then have "get_next_line w s1 = Rejected (err_notify ''The end is reached!'' None (s1\<lparr>rl_cursor := Nowhere\<rparr>))"
      by (simp add: get_next_line_def Let_def)
    then show ?thesis using 0 c(1) unfolding e[OF n] by simp
  qed (use c i in simp)
qed

theorem refused_first_line_is_the_end_witness:
  "\<exists>s1. get_next_line 3 (demo_log\<lparr>rl_lines := tl demo_lines, rl_tree := Some (empty_tree [] [])\<rparr>) = Rejected s1
     \<and> rl_rows s1 = [] \<and> length (rl_lines s1) = 2
     \<and> get_next_line 3 s1 = Rejected (err_notify ''The end is reached!'' None s1)"
proof -
  let ?s = "demo_log\<lparr>rl_lines := tl demo_lines, rl_tree := Some (empty_tree [] [])\<rparr>"
  obtain s1 where s1: "get_next_line 3 ?s = Rejected s1" "rl_rows s1 = []" "length (rl_lines s1) = 2"
    by (simp add: demo_log_def demo_lines_def log_eval jt_eval js_eval empty_tree_def err_notify_def)
  have "next_pos (length (rl_lines ?s)) (rl_cursor ?s) = At 0" by (simp add: demo_log_def demo_lines_def)
  then show ?thesis using refused_first_line_is_the_end[OF s1(1), of 0 3] s1 by auto
qed

theorem played_log_shows_newest_lines_witness:
  "\<exists>s'. play [5, 5, 5] demo_log = Some s' \<and> map lr_time (rl_rows s') = [''t3'', ''t2'', ''t1'']"
proof -
  obtain s' where s': "play [5, 5, 5] demo_log = Some s'" using demo_play by auto
  show ?thesis using played_log_shows_newest_lines[of demo_log "[5, 5, 5]" s'] s' by (simp add: demo_log_def demo_lines_def)
qed

theorem auto_play_ends_witness:
  "\<exists>s'. auto_play 4 (start_click 5 1 demo_log) = Some s' \<and> rl_timers s' = [] \<and> rl_interval s' = None"
proof -
  have "one_timer (start_click 5 1 demo_log)"
    by (rule start_one_timer) (simp_all add: one_timer_def clickable_def demo_log_def demo_buttons_def new_elem_def
        start_btn_def stop_btn_def by_class_def by_id_def has_class_def)
  moreover have "rl_lines (start_click 5 1 demo_log) = demo_lines" "rl_cursor (start_click 5 1 demo_log) = Unset"
    by (simp_all add: start_click_def demo_log_def)
  moreover have "list_all line_ok demo_lines"
    by (simp add: demo_lines_def line_ok_def creating_def naming_def selector_text_def larg_def is_line_end_def)
  ultimately show ?thesis using auto_play_ends[of "start_click 5 1 demo_log"] by (simp add: demo_lines_def numeral_eq_Suc)
qed

theorem player_buttons_safe_witness:
  "log_reach demo_log (start_click 5 1 demo_log) \<and> rl_timers (start_click 5 1 demo_log) = [(1, 5)]
   \<and> \<not> clickable start_btn (start_click 5 1 demo_log) \<and> rl_timers (stop_click (start_click 5 1 demo_log)) = []"
proof -
  have "log_enabled (Start 5 1) demo_log"
    by (simp add: clickable_def demo_log_def demo_buttons_def new_elem_def start_btn_def by_class_def has_class_def)
  then have r: "log_reach demo_log (start_click 5 1 demo_log)" by (rule log_event[OF log_refl]) simp
  show ?thesis using player_buttons_safe[OF r] r
    by (simp add: demo_log_def demo_buttons_def new_elem_def start_btn_def stop_btn_def by_class_def by_id_def has_class_def) (simp add: start_click_def)
qed

end
