(* ===== verification/Coverage_View.thy ===== *)
theory Coverage_View
  imports Source_View Tree_Table
begin

text \<open>
  The coverage of a report (\<open>reports/static/reports/js/coverage.js\<close>, \<open>leaf-coverage.js\<close>): the tree of
  directories with its statistics, and the buttons that step through covered and uncovered functions
  and the most covered lines of the shown file or of all files. It drives the source code window.
\<close>

section \<open>State\<close>

record stat_row =
  sr_id :: string
  sr_parent :: "string option"
  sr_expander :: bool
  sr_leaf :: bool
  sr_open :: bool
  sr_expanded :: bool
  sr_hidden :: bool
  sr_path :: "string option"
  sr_bg :: string

text \<open>
  The cached collections hold elements, lines of a content of the container, with their value.
  \<open>cv_global_spans\<close> are the texts of the page's list of most covered lines.
\<close>

type_synonym line_el = "nat \<times> int"
type_synonym cov_el = "line_el \<times> int"

record cov_page = source_page +
  cv_initial :: string
  cv_covered :: "cov_el list option"
  cv_uncovered :: "cov_el list option"
  cv_sorted :: "cov_el list option"
  cv_most :: "cov_el list option"
  cv_global :: "string list option"
  cv_global_spans :: "string list"
  cv_rows :: "stat_row list"
  cv_alternate :: bool

section \<open>The statistics table\<close>

definition child_rows :: "nat \<Rightarrow> nat \<Rightarrow> stat_row list \<Rightarrow> nat list" where
  "child_rows n k rs = filter (\<lambda>j. sr_parent (rs ! j) = Some (sr_id (rs ! k))) [Suc k..<n]"

definition upd_rows :: "nat list \<Rightarrow> (stat_row \<Rightarrow> stat_row) \<Rightarrow> stat_row list \<Rightarrow> stat_row list" where
  "upd_rows js f rs = map (\<lambda>(j, r). if j \<in> set js then f r else r) (enumerate 0 rs)"

text \<open>\<open>n\<close> is the number of rows. The rows a node looks at come after it.\<close>

function collapseStatTree :: "nat \<Rightarrow> nat \<Rightarrow> stat_row list \<Rightarrow> stat_row list" where
  "collapseStatTree n k rs =
     (let ch = child_rows n k rs;
          rs1 = foldl (\<lambda>rs' j. collapseStatTree n j rs') rs (filter (\<lambda>j. sr_expanded (rs ! j)) ch);
          rs2 = upd_rows ch (\<lambda>r. r\<lparr>sr_hidden := True\<rparr>) rs1 in
      upd_rows [k] (\<lambda>r. r\<lparr>sr_open := False, sr_expanded := False\<rparr>) rs2)"
  by pat_completeness auto
termination by (relation "measure (\<lambda>(n, k, rs). n - k)") (auto simp: child_rows_def)

function expandStatTree :: "nat \<Rightarrow> bool \<Rightarrow> nat \<Rightarrow> stat_row list \<Rightarrow> stat_row list" where
  "expandStatTree n chain k rs =
     (let ch = child_rows n k rs;
          rs1 = upd_rows ch (\<lambda>r. r\<lparr>sr_hidden := False\<rparr>) rs;
          rs2 = upd_rows [k] (\<lambda>r. r\<lparr>sr_open := True, sr_expanded := True\<rparr>) rs1 in
      if chain then foldl (\<lambda>rs' j. expandStatTree n chain j rs') rs2 (filter (\<lambda>j. \<not> sr_leaf (rs2 ! j)) ch) else rs2)"
  by pat_completeness auto
termination by (relation "measure (\<lambda>(n, chain, k, rs). n - k)") (auto simp: child_rows_def)

declare collapseStatTree.simps [simp del] expandStatTree.simps [simp del]

definition color_stat :: "'a cov_page_scheme \<Rightarrow> 'a cov_page_scheme" where
  "color_stat p = (if cv_alternate p
     then p\<lparr>cv_rows := color_rows (\<lambda>r. \<not> sr_hidden r) (\<lambda>c r. r\<lparr>sr_bg := c\<rparr>) False (cv_rows p)\<rparr> else p)"

definition toggle_stat :: "bool \<Rightarrow> nat \<Rightarrow> stat_row list \<Rightarrow> stat_row list" where
  "toggle_stat shift k rs =
     (if sr_expanded (rs ! k) then collapseStatTree (length rs) k rs else expandStatTree (length rs) shift k rs)"

definition stat_expander_click :: "bool \<Rightarrow> nat \<Rightarrow> 'a cov_page_scheme \<Rightarrow> 'a cov_page_scheme" where
  "stat_expander_click shift k p = color_stat (p\<lparr>cv_rows := toggle_stat shift k (cv_rows p)\<rparr>)"

text \<open>\<open>cb\<close> is \<open>onSelectionChange\<close>, doing nothing where the page gives none.\<close>

definition empty_data :: "'a cov_page_scheme \<Rightarrow> 'a cov_page_scheme" where
  "empty_data p = p\<lparr>sv_data_html := [], sv_data_names := [], sv_data_values := []\<rparr>"

type_synonym 'a cov_callback = "'a cov_page_scheme \<Rightarrow> 'a cov_page_scheme"

definition file_link_click :: "'a cov_callback \<Rightarrow> string \<Rightarrow> 'a cov_page_scheme \<Rightarrow> 'a cov_page_scheme" where
  "file_link_click cb path p = get_source 1 path True (cb (empty_data p))"

section \<open>Collections\<close>

definition clearCache :: "'a cov_page_scheme \<Rightarrow> 'a cov_page_scheme" where
  "clearCache p = p\<lparr>cv_covered := None, cv_uncovered := None, cv_sorted := None, cv_most := None, cv_initial := sv_title p\<rparr>"

definition checkCache :: "'a cov_page_scheme \<Rightarrow> 'a cov_page_scheme" where
  "checkCache p = (if sv_title p \<noteq> cv_initial p then clearCache p else p)"

text \<open>The elements of the container that have a value, with a filter on the value.\<close>

definition valued :: "(src_line \<Rightarrow> int option) \<Rightarrow> (int \<Rightarrow> bool) \<Rightarrow> 'a cov_page_scheme \<Rightarrow> cov_el list" where
  "valued f P p = concat (map (\<lambda>l. case f l of None \<Rightarrow> [] | Some v \<Rightarrow> if P v then [((sv_gen p, sl_num l), v)] else [])
     (fr_lines (sv_content p)))"

definition by_value :: "cov_el list \<Rightarrow> cov_el list" where
  "by_value = sort_key (\<lambda>e. - snd e)"

definition coveredFunctions :: "'a cov_page_scheme \<Rightarrow> cov_el list \<times> 'a cov_page_scheme" where
  "coveredFunctions p =
     (let p1 = checkCache p in
      case cv_covered p1 of
        Some c \<Rightarrow> (c, p1)
      | None \<Rightarrow> (let c = valued sl_func_cov (\<lambda>v. v > 0) p1 in (c, p1\<lparr>cv_covered := Some c\<rparr>)))"

definition uncoveredFunctions :: "'a cov_page_scheme \<Rightarrow> cov_el list \<times> 'a cov_page_scheme" where
  "uncoveredFunctions p =
     (let p1 = checkCache p in
      case cv_uncovered p1 of
        Some c \<Rightarrow> (c, p1)
      | None \<Rightarrow> (let c = valued sl_func_cov (\<lambda>v. v = 0) p1 in (c, p1\<lparr>cv_uncovered := Some c\<rparr>)))"

text \<open>
  The sorting is stable. It sorts the cached collection of covered functions in place, so that both
  caches are the sorted one.
\<close>

definition sortedCoveredFunctions :: "'a cov_page_scheme \<Rightarrow> cov_el list \<times> 'a cov_page_scheme" where
  "sortedCoveredFunctions p =
     (let p1 = checkCache p in
      case cv_sorted p1 of
        Some c \<Rightarrow> (c, p1)
      | None \<Rightarrow>
          (let (cf, p2) = coveredFunctions p1; c = by_value cf in
           (c, p2\<lparr>cv_covered := Some c, cv_sorted := Some c\<rparr>)))"

definition mostCoveredLines :: "'a cov_page_scheme \<Rightarrow> cov_el list \<times> 'a cov_page_scheme" where
  "mostCoveredLines p =
     (let p1 = checkCache p in
      case cv_most p1 of
        Some c \<Rightarrow> (c, p1)
      | None \<Rightarrow> (let c = take 30 (by_value (valued sl_line_cov (\<lambda>v. v > 0) p1)) in (c, p1\<lparr>cv_most := Some c\<rparr>)))"

definition mostGlobalCoveredLines :: "'a cov_page_scheme \<Rightarrow> string list \<times> 'a cov_page_scheme" where
  "mostGlobalCoveredLines p =
     (case cv_global p of Some c \<Rightarrow> (c, p) | None \<Rightarrow> (cv_global_spans p, p\<lparr>cv_global := Some (cv_global_spans p)\<rparr>))"

section \<open>Navigation\<close>

definition getNewIndex :: "int \<Rightarrow> int \<Rightarrow> int \<Rightarrow> int" where
  "getNewIndex currentIndex listSize change =
     (if currentIndex < 0 then (if change > 0 then 0 else listSize - 1)
      else
        (let i = currentIndex + change in
         if i < 0 then listSize - 1 else if i < listSize then i else 0))"

definition index_of :: "'b \<Rightarrow> 'b list \<Rightarrow> int" where
  "index_of x xs = (if x \<in> set xs then int (length (takeWhile (\<lambda>y. y \<noteq> x) xs)) else - 1)"

text \<open>
  A selected line always has an entry to search for: the page gives every line of a source both of its coverage
  elements, so the case of a selected line without one, where the script starts from the first entry, does not arise.
\<close>

definition changeSelection ::
    "'a cov_callback \<Rightarrow> cov_el list \<Rightarrow> int \<Rightarrow> 'a cov_page_scheme \<Rightarrow> 'a cov_page_scheme" where
  "changeSelection cb coll change p =
     (let p1 = cb (empty_data p) in
      if coll = [] then p1
      else
        (let ind = (case sv_selected p1 of None \<Rightarrow> 0 | Some l \<Rightarrow> getNewIndex (index_of l (map fst coll)) (int (length coll)) change) in
         select_span (Some (fst (coll ! nat ind))) p1))"

text \<open>
  An entry of the global list: the part after the last colon is the line. An entry without a colon is
  skipped, a line that is not a number is outside the model.
\<close>

definition split_entry :: "string \<Rightarrow> (string \<times> string) option" where
  "split_entry s =
     (let parts = split_on '':'' s in
      if length parts > 2 then Some (join '':'' (butlast parts), last parts)
      else if length parts = 2 then Some (parts ! 0, parts ! 1)
      else None)"

definition changeGlobalSelection ::
    "'a cov_callback \<Rightarrow> string list \<Rightarrow> int \<Rightarrow> 'a cov_page_scheme \<Rightarrow> 'a cov_page_scheme option" where
  "changeGlobalSelection cb coll change p =
     (let p1 = cb (empty_data p) in
      if coll = [] then Some p1
      else
        (let ind = (case sv_selected p1 of
                      None \<Rightarrow> 0
                    | Some (_, line) \<Rightarrow> getNewIndex (index_of (sv_title p1 @ '':'' @ show_int line) coll) (int (length coll)) change) in
         case split_entry (coll ! nat ind) of
           None \<Rightarrow> Some p1
         | Some (file, line) \<Rightarrow>
             (case parse_nat line of None \<Rightarrow> None | Some n \<Rightarrow> Some (get_source n file True p1))))"

datatype cov_button = Next_cov | Prev_cov | Next_uncov | Prev_uncov | Next_srt | Prev_srt | Next_most | Prev_most
  | Next_global | Prev_global

definition initCodeNavigation ::
    "'a cov_callback \<Rightarrow> cov_button \<Rightarrow> 'a cov_page_scheme \<Rightarrow> 'a cov_page_scheme option" where
  "initCodeNavigation cb b p = (case b of
       Next_cov \<Rightarrow> (let (c, q) = coveredFunctions p in Some (changeSelection cb c 1 q))
     | Prev_cov \<Rightarrow> (let (c, q) = coveredFunctions p in Some (changeSelection cb c (-1) q))
     | Next_uncov \<Rightarrow> (let (c, q) = uncoveredFunctions p in Some (changeSelection cb c 1 q))
     | Prev_uncov \<Rightarrow> (let (c, q) = uncoveredFunctions p in Some (changeSelection cb c (-1) q))
     | Next_srt \<Rightarrow> (let (c, q) = sortedCoveredFunctions p in Some (changeSelection cb c 1 q))
     | Prev_srt \<Rightarrow> (let (c, q) = sortedCoveredFunctions p in Some (changeSelection cb c (-1) q))
     | Next_most \<Rightarrow> (let (c, q) = mostCoveredLines p in Some (changeSelection cb c 1 q))
     | Prev_most \<Rightarrow> (let (c, q) = mostCoveredLines p in Some (changeSelection cb c (-1) q))
     | Next_global \<Rightarrow> (let (c, q) = mostGlobalCoveredLines p in changeGlobalSelection cb c 1 q)
     | Prev_global \<Rightarrow> (let (c, q) = mostGlobalCoveredLines p in changeGlobalSelection cb c (-1) q))"

section \<open>Opening the page\<close>

text \<open>The expanders are clicked up to the first row without one.\<close>

fun open_dirs :: "nat list \<Rightarrow> 'a cov_page_scheme \<Rightarrow> 'a cov_page_scheme" where
  "open_dirs [] p = p"
| "open_dirs (k # ks) p = (if sr_expander (cv_rows p ! k) then open_dirs ks (stat_expander_click False k p) else p)"

definition first_file :: "stat_row list \<Rightarrow> string option" where
  "first_file rs = (case filter (\<lambda>r. \<not> sr_hidden r \<and> sr_path r \<noteq> None) rs of [] \<Rightarrow> None | r # _ \<Rightarrow> sr_path r)"

definition openFirstFile :: "'a cov_callback \<Rightarrow> 'a cov_page_scheme \<Rightarrow> js_error + 'a cov_page_scheme option" where
  "openFirstFile cb p =
     (let p1 = open_dirs [0..<length (cv_rows p)] p in
      bindE (getUrlParameter (location_search (href p1)) ''source'') (\<lambda>file.
      bindE (getUrlParameter (location_search (href p1)) ''sourceline'') (\<lambda>line.
        if truthy file then
          Inr (map_option (\<lambda>n. emit (ReplaceState (JArr [file, line]) (href p1)) (get_source n (to_str file) False p1))
            (parse_nat (to_str line)))
        else Inr (Some (case first_file (cv_rows p1) of None \<Rightarrow> p1 | Some f \<Rightarrow> file_link_click cb f p1)))))"

text \<open>The constructor, and the page of a leaf report's coverage, which gives no callback.\<close>

definition newCoverageProcessor :: "'a cov_page_scheme \<Rightarrow> 'a cov_page_scheme" where
  "newCoverageProcessor p = color_stat (p\<lparr>cv_initial := sv_title p\<rparr>)"

definition leaf_coverage_ready :: "'a cov_page_scheme \<Rightarrow> js_error + 'a cov_page_scheme option" where
  "leaf_coverage_ready p = openFirstFile (\<lambda>q. q) (newCoverageProcessor p)"

section \<open>Consistent statistics tables\<close>

definition stat_shape :: "stat_row list \<Rightarrow> (string \<times> string option \<times> bool \<times> bool \<times> string option) list" where
  "stat_shape rs = map (\<lambda>r. (sr_id r, sr_parent r, sr_expander r, sr_leaf r, sr_path r)) rs"

definition stat_child :: "stat_row list \<Rightarrow> nat \<Rightarrow> nat \<Rightarrow> bool" where
  "stat_child rs i j = (i < length rs \<and> j < length rs \<and> sr_parent (rs ! j) = Some (sr_id (rs ! i)))"

text \<open>Identifiers are unique and a parent comes before its children.\<close>

definition stat_wf :: "stat_row list \<Rightarrow> bool" where
  "stat_wf rs = (distinct (map sr_id rs)
     \<and> (\<forall>j < length rs. \<forall>q. sr_parent (rs ! j) = Some q \<longrightarrow> (\<exists>i < j. sr_id (rs ! i) = q)))"

definition stat_ok :: "stat_row list \<Rightarrow> bool" where
  "stat_ok rs = (stat_wf rs
     \<and> (\<forall>i j. stat_child rs i j \<longrightarrow> sr_hidden (rs ! j) = (\<not> sr_expanded (rs ! i)) \<and> (sr_expanded (rs ! j) \<longrightarrow> sr_expanded (rs ! i)))
     \<and> (\<forall>j < length rs. sr_parent (rs ! j) = None \<longrightarrow> \<not> sr_hidden (rs ! j)))"

lemma upd_rows_nth [simp]:
  "length (upd_rows js f rs) = length rs"
  "i < length rs \<Longrightarrow> upd_rows js f rs ! i = (if i \<in> set js then f (rs ! i) else rs ! i)"
  by (simp_all add: upd_rows_def nth_enumerate_eq)

lemma stat_shape_length: "stat_shape rs = stat_shape rs' \<Longrightarrow> length rs = length rs'"
  unfolding stat_shape_def by (rule map_eq_imp_length_eq)

lemma stat_shape_nth:
  assumes "stat_shape rs = stat_shape rs'" "i < length rs"
  shows "sr_id (rs ! i) = sr_id (rs' ! i)" "sr_parent (rs ! i) = sr_parent (rs' ! i)" "sr_leaf (rs ! i) = sr_leaf (rs' ! i)"
    "sr_expander (rs ! i) = sr_expander (rs' ! i)" "sr_path (rs ! i) = sr_path (rs' ! i)"
  using arg_cong[OF assms(1), of "\<lambda>xs. xs ! i"] stat_shape_length[OF assms(1)] assms(2) by (simp_all add: stat_shape_def)

lemma stat_shape_upd: "(\<And>r. stat_shape [f r] = stat_shape [r]) \<Longrightarrow> stat_shape (upd_rows js f rs) = stat_shape rs"
  by (rule nth_equalityI) (auto simp: stat_shape_def)

lemma stat_shape_upds [simp]:
  "stat_shape (upd_rows js (\<lambda>r. r\<lparr>sr_hidden := b\<rparr>) rs) = stat_shape rs"
  "stat_shape (upd_rows js (\<lambda>r. r\<lparr>sr_open := b, sr_expanded := c\<rparr>) rs) = stat_shape rs"
  by (rule stat_shape_upd; simp add: stat_shape_def)+

lemma stat_shape_child: "stat_shape rs = stat_shape rs' \<Longrightarrow> stat_child rs = stat_child rs'"
proof (intro ext)
  fix i j assume "stat_shape rs = stat_shape rs'"
  then show "stat_child rs i j = stat_child rs' i j"
    using stat_shape_nth(1)[of rs rs' i] stat_shape_nth(2)[of rs rs' j] stat_shape_length[of rs rs'] by (auto simp: stat_child_def)
qed

lemma stat_shape_wf:
  assumes "stat_shape rs = stat_shape rs'" "stat_wf rs"
  shows "stat_wf rs'"
proof -
  note l = stat_shape_length[OF assms(1)] and nth = stat_shape_nth(1,2)[OF assms(1)]
  have "map sr_id rs = map sr_id rs'" by (rule nth_equalityI) (use l nth(1) in auto)
  moreover have "\<exists>i < j. sr_id (rs' ! i) = q" if j: "j < length rs'" "sr_parent (rs' ! j) = Some q" for j q
  proof -
    have "j < length rs" "sr_parent (rs ! j) = Some q" using j l nth(2)[of j] by simp_all
    then obtain i where "i < j" "sr_id (rs ! i) = q" using assms(2) by (auto simp: stat_wf_def)
    then show ?thesis using nth(1)[of i] j(1) l by (intro exI[of _ i]) simp
  qed
  ultimately show ?thesis using assms(2) by (simp add: stat_wf_def)
qed

lemma stat_child_order: "stat_wf rs \<Longrightarrow> stat_child rs i j \<Longrightarrow> i < j"
proof -
  assume a: "stat_wf rs" "stat_child rs i j"
  then obtain i' where i': "i' < j" "sr_id (rs ! i') = sr_id (rs ! i)" by (auto simp: stat_wf_def stat_child_def)
  have "distinct (map sr_id rs)" "i < length rs" "i' < length rs" using a i'(1) by (auto simp: stat_wf_def stat_child_def)
  then have "i' = i" using i'(2) nth_eq_iff_index_eq[of "map sr_id rs" i' i] by simp
  then show ?thesis using i' by simp
qed

lemma stat_child_unique: "stat_wf rs \<Longrightarrow> stat_child rs i j \<Longrightarrow> stat_child rs i' j \<Longrightarrow> i = i'"
  using nth_eq_iff_index_eq[of "map sr_id rs" i i'] by (simp add: stat_wf_def stat_child_def)

lemma child_rows_iff:
  "stat_wf rs \<Longrightarrow> k < length rs \<Longrightarrow> j \<in> set (child_rows (length rs) k rs) \<longleftrightarrow> stat_child rs k j"
  using stat_child_order[of rs k j] by (auto simp: child_rows_def stat_child_def)

lemma stat_okD:
  assumes "stat_ok rs"
  shows "stat_wf rs" "stat_child rs i j \<Longrightarrow> sr_hidden (rs ! j) = (\<not> sr_expanded (rs ! i))"
    "stat_child rs i j \<Longrightarrow> sr_expanded (rs ! j) \<Longrightarrow> sr_expanded (rs ! i)"
    "j < length rs \<Longrightarrow> sr_parent (rs ! j) = None \<Longrightarrow> \<not> sr_hidden (rs ! j)"
  using assms by (auto simp: stat_ok_def)

text \<open>An invariant of a fold, and what each step achieves and later steps keep.\<close>

lemma foldl_achieves:
  assumes "\<And>s x. x \<in> set xs \<Longrightarrow> I s \<Longrightarrow> I (f s x) \<and> D x (f s x)"
    and "\<And>s x y. y \<in> set xs \<Longrightarrow> x \<in> set xs \<Longrightarrow> I s \<Longrightarrow> D x s \<Longrightarrow> D x (f s y)" and "I s"
  shows "I (foldl f s xs) \<and> (\<forall>x \<in> set xs. D x (foldl f s xs))"
  using assms
proof (induction xs rule: rev_induct)
  case (snoc x xs)
  have "I (foldl f s xs) \<and> (\<forall>x \<in> set xs. D x (foldl f s xs))"
    using snoc.prems by (intro snoc.IH) auto
  then show ?case using snoc.prems(1)[of x "foldl f s xs"] snoc.prems(2)[of x _ "foldl f s xs"] by auto
qed simp

text \<open>What collapsing row \<open>k\<close> may change, and what expanding it may change.\<close>

definition below_only :: "nat \<Rightarrow> stat_row list \<Rightarrow> stat_row list \<Rightarrow> bool" where
  "below_only k rs rs' = (stat_shape rs' = stat_shape rs \<and> (\<forall>i < k. rs' ! i = rs ! i) \<and> (k < length rs \<longrightarrow> sr_hidden (rs' ! k) = sr_hidden (rs ! k)))"

lemma below_onlyD:
  assumes "below_only k rs rs'"
  shows "stat_shape rs' = stat_shape rs" "length rs' = length rs" "i < k \<Longrightarrow> rs' ! i = rs ! i"
  using assms stat_shape_length[of rs' rs] by (auto simp: below_only_def)

lemma close_row_ok:
  assumes ok: "stat_ok rs" and k: "k < length rs" and ch: "\<And>j. stat_child rs k j \<Longrightarrow> \<not> sr_expanded (rs ! j)"
    and rs': "rs' = upd_rows [k] (\<lambda>r. r\<lparr>sr_open := False, sr_expanded := False\<rparr>) (upd_rows cs (\<lambda>r. r\<lparr>sr_hidden := True\<rparr>) rs)"
    and cs: "\<And>j. j \<in> set cs \<longleftrightarrow> stat_child rs k j"
  shows "stat_ok rs' \<and> below_only k rs rs' \<and> (\<forall>j < length rs. sr_expanded (rs' ! j) = (sr_expanded (rs ! j) \<and> j \<noteq> k))"
proof -
  note wf = stat_okD(1)[OF ok]
  have sh: "stat_shape rs' = stat_shape rs" unfolding rs' by simp
  note chd = stat_shape_child[OF sh]
  have len: "length rs' = length rs" by (simp add: rs')
  have nth: "rs' ! i = (let r = (if i \<in> set cs then (rs ! i)\<lparr>sr_hidden := True\<rparr> else rs ! i) in
      if i = k then r\<lparr>sr_open := False, sr_expanded := False\<rparr> else r)" if "i < length rs" for i
    using that by (simp add: rs' Let_def)
  have kcs: "k \<notin> set cs" using cs[of k] stat_child_order[OF wf, of k k] by auto
  have e: "sr_expanded (rs' ! j) = (sr_expanded (rs ! j) \<and> j \<noteq> k)" if "j < length rs" for j using nth[OF that] by (simp add: Let_def)
  have h: "sr_hidden (rs' ! j) = (sr_hidden (rs ! j) \<or> stat_child rs k j)" if "j < length rs" for j using nth[OF that] cs by (simp add: Let_def)
  have "stat_ok rs'" unfolding stat_ok_def
  proof (intro conjI allI impI)
    show "stat_wf rs'" using stat_shape_wf[OF sh[symmetric] wf] .
    fix i j assume "stat_child rs' i j"
    then have c: "stat_child rs i j" "i < length rs" "j < length rs" unfolding chd by (auto simp: stat_child_def)
    have u: "stat_child rs k j \<longleftrightarrow> i = k" using stat_child_unique[OF wf c(1), of k] c(1) by auto
    show "sr_hidden (rs' ! j) = (\<not> sr_expanded (rs' ! i))" using e[OF c(2)] h[OF c(3)] u stat_okD(2)[OF ok c(1)] by auto
    show "sr_expanded (rs' ! i)" if "sr_expanded (rs' ! j)"
      using that e[OF c(2)] e[OF c(3)] u ch[of j] c(1) stat_okD(3)[OF ok c(1)] by auto
  next
    fix j assume j: "j < length rs'" "sr_parent (rs' ! j) = None"
    then have "sr_parent (rs ! j) = None" using stat_shape_nth(2)[OF sh j(1)] by simp
    then show "\<not> sr_hidden (rs' ! j)" using h[of j] j(1) len stat_okD(4)[OF ok] by (auto simp: stat_child_def)
  qed
  moreover have "i \<notin> set cs" if "i < k" for i using that cs[of i] stat_child_order[OF wf, of k i] by auto
  then have "below_only k rs rs'" unfolding below_only_def using sh nth kcs k by (auto simp: Let_def)
  ultimately show ?thesis using e by blast
qed

lemma collapse_ok:
  assumes "n = length rs" "k < n" "stat_ok rs"
  shows "stat_ok (collapseStatTree n k rs) \<and> below_only k rs (collapseStatTree n k rs)
    \<and> (\<forall>j < n. sr_expanded (collapseStatTree n k rs ! j) \<longrightarrow> sr_expanded (rs ! j) \<and> j \<noteq> k)"
  using assms
proof (induction n k rs rule: collapseStatTree.induct)
  case (1 n k rs)
  let ?ch = "child_rows n k rs" and ?f = "\<lambda>rs' j. collapseStatTree n j rs'"
  let ?js = "filter (\<lambda>j. sr_expanded (rs ! j)) ?ch"
  let ?I = "\<lambda>rs'. stat_ok rs' \<and> below_only k rs rs' \<and> (\<forall>j < n. sr_expanded (rs' ! j) \<longrightarrow> sr_expanded (rs ! j)) \<and> rs' ! k = rs ! k"
  have ch: "j \<in> set ?ch \<longleftrightarrow> stat_child rs k j" for j using child_rows_iff[OF stat_okD(1)] 1(2-4) by simp
  have step: "?I (?f rs' j) \<and> \<not> sr_expanded (?f rs' j ! j) \<and> (\<forall>i < n. sr_expanded (?f rs' j ! i) \<longrightarrow> sr_expanded (rs' ! i))"
    if j: "j \<in> set ?js" and I: "?I rs'" for rs' j
  proof -
    have jk: "k < j" "j < n" using j by (auto simp: child_rows_def)
    have l: "n = length rs'" using I below_onlyD(2) 1(2) by fastforce
    note ih = 1(1)[OF refl j l jk(2)] 
    have r: "stat_ok (?f rs' j)" "below_only j rs' (?f rs' j)"
      "\<forall>i < n. sr_expanded (?f rs' j ! i) \<longrightarrow> sr_expanded (rs' ! i) \<and> i \<noteq> j" using ih I by blast+
    have "below_only k rs (?f rs' j)"
      using I r(2) jk below_onlyD(3)[OF r(2)] by (auto simp: below_only_def)
    moreover have "?f rs' j ! k = rs ! k" using below_onlyD(3)[OF r(2) jk(1)] I by simp
    ultimately show ?thesis using r I jk by blast
  qed
  define rs1 where "rs1 = foldl ?f rs ?js"
  have fold: "?I rs1 \<and> (\<forall>j \<in> set ?js. \<not> sr_expanded (rs1 ! j))"
    unfolding rs1_def
  proof (rule foldl_achieves)
    show "?I rs" using 1(4) by (simp add: below_only_def)
    show "?I (?f rs' j) \<and> \<not> sr_expanded (?f rs' j ! j)" if "j \<in> set ?js" "?I rs'" for rs' j using step[OF that] by blast
    fix rs' i j assume a: "j \<in> set ?js" "i \<in> set ?js" "?I rs'" "\<not> sr_expanded (rs' ! i)"
    have "i < n" using a(2) by (simp add: child_rows_def)
    then show "\<not> sr_expanded (?f rs' j ! i)" using step[OF a(1,3)] a(4) by blast
  qed
  have I1: "stat_ok rs1" "below_only k rs rs1" "\<forall>j < n. sr_expanded (rs1 ! j) \<longrightarrow> sr_expanded (rs ! j)" "rs1 ! k = rs ! k" using fold by blast+
  have c1: "stat_child rs1 = stat_child rs" "length rs1 = n"
    using stat_shape_child[OF below_onlyD(1)[OF I1(2)]] below_onlyD(2)[OF I1(2)] 1(2) by simp_all
  have "\<not> sr_expanded (rs1 ! j)" if "stat_child rs1 k j" for j
  proof -
    have c: "stat_child rs k j" using that c1(1) by simp
    have "j \<in> set ?ch" using c ch[of j] by blast
    moreover have "j < n" using c 1(2) by (simp add: stat_child_def)
    ultimately show ?thesis using fold I1(3) by (cases "sr_expanded (rs ! j)") auto
  qed
  moreover have "collapseStatTree n k rs = upd_rows [k] (\<lambda>r. r\<lparr>sr_open := False, sr_expanded := False\<rparr>)
      (upd_rows ?ch (\<lambda>r. r\<lparr>sr_hidden := True\<rparr>) rs1)"
    by (subst collapseStatTree.simps) (simp only: Let_def rs1_def)
  ultimately have fin: "stat_ok (collapseStatTree n k rs) \<and> below_only k rs1 (collapseStatTree n k rs)
    \<and> (\<forall>j < length rs1. sr_expanded (collapseStatTree n k rs ! j) = (sr_expanded (rs1 ! j) \<and> j \<noteq> k))"
    using 1(3) ch c1 by (intro close_row_ok[OF I1(1), of k _ ?ch]) simp_all
  have "below_only k rs (collapseStatTree n k rs)"
    using fin I1(2,4) 1(2,3) c1(2) by (auto simp: below_only_def)
  then show ?case using fin I1(3) c1(2) by auto
qed

lemma open_row_ok:
  assumes ok: "stat_ok rs" and k: "k < length rs" and vis: "\<not> sr_hidden (rs ! k)"
    and rs': "rs' = upd_rows [k] (\<lambda>r. r\<lparr>sr_open := True, sr_expanded := True\<rparr>) (upd_rows cs (\<lambda>r. r\<lparr>sr_hidden := False\<rparr>) rs)"
    and cs: "\<And>j. j \<in> set cs \<longleftrightarrow> stat_child rs k j"
  shows "stat_ok rs' \<and> below_only k rs rs'
    \<and> (\<forall>j < length rs. sr_expanded (rs' ! j) = (sr_expanded (rs ! j) \<or> j = k) \<and> sr_hidden (rs' ! j) = (sr_hidden (rs ! j) \<and> \<not> stat_child rs k j))"
proof -
  note wf = stat_okD(1)[OF ok]
  have sh: "stat_shape rs' = stat_shape rs" unfolding rs' by simp
  note chd = stat_shape_child[OF sh]
  have len: "length rs' = length rs" by (simp add: rs')
  have nth: "rs' ! i = (let r = (if i \<in> set cs then (rs ! i)\<lparr>sr_hidden := False\<rparr> else rs ! i) in
      if i = k then r\<lparr>sr_open := True, sr_expanded := True\<rparr> else r)" if "i < length rs" for i
    using that by (simp add: rs' Let_def)
  have kcs: "k \<notin> set cs" using cs[of k] stat_child_order[OF wf, of k k] by auto
  have e: "sr_expanded (rs' ! j) = (sr_expanded (rs ! j) \<or> j = k)" if "j < length rs" for j using nth[OF that] by (simp add: Let_def)
  have h: "sr_hidden (rs' ! j) = (sr_hidden (rs ! j) \<and> \<not> stat_child rs k j)" if "j < length rs" for j using nth[OF that] cs by (simp add: Let_def)
  have "stat_ok rs'" unfolding stat_ok_def
  proof (intro conjI allI impI)
    show "stat_wf rs'" using stat_shape_wf[OF sh[symmetric] wf] .
    fix i j assume "stat_child rs' i j"
    then have c: "stat_child rs i j" "i < length rs" "j < length rs" unfolding chd by (auto simp: stat_child_def)
    have u: "stat_child rs k j \<longleftrightarrow> i = k" using stat_child_unique[OF wf c(1), of k] c(1) by auto
    show "sr_hidden (rs' ! j) = (\<not> sr_expanded (rs' ! i))" using e[OF c(2)] h[OF c(3)] u stat_okD(2)[OF ok c(1)] by auto
    show "sr_expanded (rs' ! i)" if "sr_expanded (rs' ! j)"
      using that e[OF c(2)] e[OF c(3)] vis stat_okD(2,3)[OF ok c(1)] by auto
  next
    fix j assume j: "j < length rs'" "sr_parent (rs' ! j) = None"
    then have "sr_parent (rs ! j) = None" using stat_shape_nth(2)[OF sh j(1)] by simp
    then show "\<not> sr_hidden (rs' ! j)" using h[of j] j(1) len stat_okD(4)[OF ok] by (auto simp: stat_child_def)
  qed
  moreover have "i \<notin> set cs" if "i < k" for i using that cs[of i] stat_child_order[OF wf, of k i] by auto
  then have "below_only k rs rs'" unfolding below_only_def using sh nth kcs k by (auto simp: Let_def)
  ultimately show ?thesis using e h by blast
qed

text \<open>Expanding only makes rows visible and only opens rows.\<close>

definition grows :: "stat_row list \<Rightarrow> stat_row list \<Rightarrow> bool" where
  "grows rs rs' = (\<forall>j < length rs. (sr_expanded (rs ! j) \<longrightarrow> sr_expanded (rs' ! j)) \<and> (sr_hidden (rs' ! j) \<longrightarrow> sr_hidden (rs ! j)))"

lemma expand_ok:
  assumes "n = length rs" "k < n" "stat_ok rs" "\<not> sr_hidden (rs ! k)"
  shows "stat_ok (expandStatTree n chain k rs) \<and> below_only k rs (expandStatTree n chain k rs)
    \<and> grows rs (expandStatTree n chain k rs) \<and> sr_expanded (expandStatTree n chain k rs ! k)"
  using assms
proof (induction n chain k rs rule: expandStatTree.induct)
  case (1 n chain k rs)
  let ?ch = "child_rows n k rs" and ?f = "\<lambda>rs' j. expandStatTree n chain j rs'"
  have ch: "j \<in> set ?ch \<longleftrightarrow> stat_child rs k j" for j using child_rows_iff[OF stat_okD(1)] 1(2-4) by simp
  define rs2 where rs2: "rs2 = upd_rows [k] (\<lambda>r. r\<lparr>sr_open := True, sr_expanded := True\<rparr>) (upd_rows ?ch (\<lambda>r. r\<lparr>sr_hidden := False\<rparr>) rs)"
  have ok2: "stat_ok rs2" "below_only k rs rs2" "\<forall>j < length rs. sr_expanded (rs2 ! j) = (sr_expanded (rs ! j) \<or> j = k) \<and> sr_hidden (rs2 ! j) = (sr_hidden (rs ! j) \<and> \<not> stat_child rs k j)"
    using open_row_ok[OF 1(4) _ 1(5) rs2 ch] 1(2,3) by blast+
  have base: "stat_ok rs2 \<and> below_only k rs rs2 \<and> grows rs rs2 \<and> sr_expanded (rs2 ! k)" using ok2 1(2,3) by (auto simp: grows_def)
  let ?js = "filter (\<lambda>j. \<not> sr_leaf (rs2 ! j)) ?ch"
  have eq: "expandStatTree n chain k rs = (if chain then foldl ?f rs2 ?js else rs2)"
    by (subst expandStatTree.simps) (simp only: Let_def rs2)
  let ?I = "\<lambda>rs'. stat_ok rs' \<and> below_only k rs rs' \<and> grows rs2 rs' \<and> rs' ! k = rs2 ! k"
  have len2: "length rs2 = n" using below_onlyD(2)[OF ok2(2)] 1(2) by simp
  have step: "?I (?f rs' j)" if j: "chain" "j \<in> set ?js" and I: "?I rs'" for rs' j
  proof -
    have jk: "k < j" "j < n" using j by (auto simp: child_rows_def)
    have l: "n = length rs'" using I below_onlyD(2)[of k rs rs'] 1(2) by simp
    have "\<not> sr_hidden (rs2 ! j)" using ok2(3) j(2) ch[of j] jk(2) 1(2) by auto
    then have v: "\<not> sr_hidden (rs' ! j)" using I jk(2) len2 by (auto simp: grows_def)
    have r: "stat_ok (?f rs' j)" "below_only j rs' (?f rs' j)" "grows rs' (?f rs' j)"
      using 1(1)[OF refl refl rs2 j(1,2) l jk(2)] I v by blast+
    have "below_only k rs (?f rs' j)" using I r(2) jk below_onlyD(3)[OF r(2)] by (auto simp: below_only_def)
    moreover have "grows rs2 (?f rs' j)" using I r(3) len2 l by (auto simp: grows_def)
    moreover have "?f rs' j ! k = rs2 ! k" using below_onlyD(3)[OF r(2) jk(1)] I by simp
    ultimately show ?thesis using r(1) by blast
  qed
  show ?case
  proof (cases chain)
    case True
    have "?I (foldl ?f rs2 ?js) \<and> (\<forall>j \<in> set ?js. True)"
    proof (rule foldl_achieves)
      show "?I rs2" using base by (simp add: grows_def)
      show "?I (?f rs' j) \<and> True" if "j \<in> set ?js" "?I rs'" for rs' j using step[OF True that] by blast
    qed simp
    then have "?I (expandStatTree n chain k rs)" using eq True by simp
    moreover have "grows rs (expandStatTree n chain k rs)" using calculation base 1(2) len2 by (auto simp: grows_def)
    ultimately show ?thesis using base by auto
  qed (use base eq in simp)
qed

text \<open>Colours do not matter.\<close>

lemma color_nth:
  "length (color_rows vis paint d rs) = length rs"
  "(\<And>c r. f (paint c r) = f r) \<Longrightarrow> i < length rs \<Longrightarrow> f (color_rows vis paint d rs ! i) = f (rs ! i)"
proof -
  show l: "length (color_rows vis paint d rs) = length rs" by (induction rs arbitrary: d) auto
  show "f (color_rows vis paint d rs ! i) = f (rs ! i)" if "\<And>c r. f (paint c r) = f r" "i < length rs"
    using arg_cong[OF color_rows_map[where f = f and paint = paint and vis = vis and d = d and rs = rs], of "\<lambda>xs. xs ! i"] that l by simp
qed

lemma color_stat_rows:
  "length (cv_rows (color_stat p)) = length (cv_rows p)"
  "stat_shape (cv_rows (color_stat p)) = stat_shape (cv_rows p)"
  "i < length (cv_rows p) \<Longrightarrow> sr_hidden (cv_rows (color_stat p) ! i) = sr_hidden (cv_rows p ! i)"
  "i < length (cv_rows p) \<Longrightarrow> sr_expanded (cv_rows (color_stat p) ! i) = sr_expanded (cv_rows p ! i)"
  by (simp_all add: color_stat_def color_nth stat_shape_def color_rows_map)

lemma stat_ok_flags:
  assumes "stat_ok rs" "stat_shape rs' = stat_shape rs"
    "\<And>i. i < length rs \<Longrightarrow> sr_hidden (rs' ! i) = sr_hidden (rs ! i) \<and> sr_expanded (rs' ! i) = sr_expanded (rs ! i)"
  shows "stat_ok rs'"
proof -
  note len = stat_shape_length[OF assms(2)] and chd = stat_shape_child[OF assms(2)]
  have "stat_wf rs'" using stat_shape_wf[OF assms(2)[symmetric]] stat_okD(1)[OF assms(1)] by simp
  moreover have "sr_hidden (rs' ! j) = (\<not> sr_expanded (rs' ! i)) \<and> (sr_expanded (rs' ! j) \<longrightarrow> sr_expanded (rs' ! i))" if "stat_child rs' i j" for i j
  proof -
    have c: "stat_child rs i j" "i < length rs" "j < length rs" using that unfolding chd by (auto simp: stat_child_def)
    show ?thesis using stat_okD(2,3)[OF assms(1) c(1)] assms(3)[OF c(2)] assms(3)[OF c(3)] by simp
  qed
  moreover have "\<not> sr_hidden (rs' ! j)" if "j < length rs'" "sr_parent (rs' ! j) = None" for j
    using that stat_shape_nth(2)[OF assms(2) that(1)] stat_okD(4)[OF assms(1), of j] assms(3)[of j] len by simp
  ultimately show ?thesis by (simp add: stat_ok_def)
qed

lemma color_stat_ok: "stat_ok (cv_rows p) \<Longrightarrow> stat_ok (cv_rows (color_stat p))"
  by (erule stat_ok_flags) (simp_all add: color_stat_rows)

definition stat_user_click :: "'a cov_page_scheme \<Rightarrow> bool \<times> nat \<Rightarrow> 'a cov_page_scheme" where
  "stat_user_click p e = (case e of (shift, k) \<Rightarrow>
     if k < length (cv_rows p) \<and> sr_expander (cv_rows p ! k) \<and> \<not> sr_hidden (cv_rows p ! k) then stat_expander_click shift k p else p)"

lemma stat_user_click_ok:
  assumes "stat_ok (cv_rows p)"
  shows "stat_ok (cv_rows (stat_user_click p e)) \<and> stat_shape (cv_rows (stat_user_click p e)) = stat_shape (cv_rows p)"
proof (cases e)
  case (Pair shift k)
  have "stat_ok (toggle_stat shift k (cv_rows p)) \<and> stat_shape (toggle_stat shift k (cv_rows p)) = stat_shape (cv_rows p)"
    if "k < length (cv_rows p)" "\<not> sr_hidden (cv_rows p ! k)"
    using collapse_ok[OF refl that(1) assms] expand_ok[OF refl that(1) assms that(2), of shift] below_onlyD(1)
    by (auto simp: toggle_stat_def)
  then show ?thesis using assms Pair color_stat_ok[of "p\<lparr>cv_rows := toggle_stat shift k (cv_rows p)\<rparr>"]
      color_stat_rows(2)[of "p\<lparr>cv_rows := toggle_stat shift k (cv_rows p)\<rparr>"]
    by (auto simp: stat_user_click_def stat_expander_click_def)
qed

inductive stat_above :: "stat_row list \<Rightarrow> nat \<Rightarrow> nat \<Rightarrow> bool" for rs where
  parent: "stat_child rs i j \<Longrightarrow> stat_above rs i j"
| grand: "stat_above rs i m \<Longrightarrow> stat_child rs m j \<Longrightarrow> stat_above rs i j"

lemma expanded_above: "stat_above rs i j \<Longrightarrow> stat_ok rs \<Longrightarrow> sr_expanded (rs ! j) \<Longrightarrow> sr_expanded (rs ! i)"
  by (induction rule: stat_above.induct) (auto dest: stat_okD(3))

lemma stat_ok_hidden:
  assumes "stat_ok rs" "j < length rs"
  shows "sr_hidden (rs ! j) \<longleftrightarrow> (\<exists>i. stat_above rs i j \<and> \<not> sr_expanded (rs ! i))"
proof
  assume h: "sr_hidden (rs ! j)"
  then obtain q where q: "sr_parent (rs ! j) = Some q" using stat_okD(4)[OF assms] by (cases "sr_parent (rs ! j)") auto
  then obtain i where "i < j" "sr_id (rs ! i) = q" using stat_okD(1)[OF assms(1)] assms(2) by (auto simp: stat_wf_def)
  then have "stat_child rs i j" using q assms(2) by (simp add: stat_child_def)
  then show "\<exists>i. stat_above rs i j \<and> \<not> sr_expanded (rs ! i)" using stat_okD(2)[OF assms(1)] h parent by blast
next
  assume "\<exists>i. stat_above rs i j \<and> \<not> sr_expanded (rs ! i)"
  then obtain i where i: "stat_above rs i j" "\<not> sr_expanded (rs ! i)" by blast
  from i(1) show "sr_hidden (rs ! j)"
  proof cases
    case parent
    then show ?thesis using stat_okD(2)[OF assms(1)] i(2) by blast
  next
    case (grand m)
    then show ?thesis using stat_okD(2)[OF assms(1) grand(2)] expanded_above[OF grand(1) assms(1)] i(2) by blast
  qed
qed

interpretation stat_tree: event_machine "\<lambda>p. stat_ok (cv_rows p)" stat_user_click "\<lambda>p. stat_ok (cv_rows p)"
  by unfold_locales (simp_all add: stat_user_click_ok)

text \<open>
  C16. However directories of the statistics table are expanded (also all at once with the shift key) and
  collapsed, the recursion ends, the table keeps its rows, and a row is hidden exactly if one of the
  directories above it is not expanded.
\<close>

theorem stat_clicks_consistent:
  assumes "stat_ok (cv_rows p)" "j < length (cv_rows p)"
  shows "let rs = cv_rows (foldl stat_user_click p es) in stat_shape rs = stat_shape (cv_rows p)
    \<and> (sr_hidden (rs ! j) \<longleftrightarrow> (\<exists>i. stat_above rs i j \<and> \<not> sr_expanded (rs ! i)))"
proof -
  have ok: "stat_ok (cv_rows (foldl stat_user_click p es))" by (rule stat_tree.run_inv[OF assms(1)])
  have sh: "stat_shape (cv_rows (foldl stat_user_click p es)) = stat_shape (cv_rows p)" using assms(1)
  proof (induction es arbitrary: p)
    case (Cons e es)
    show ?case using Cons.IH[of "stat_user_click p e"] stat_user_click_ok[OF Cons.prems] by simp
  qed simp
  show ?thesis using stat_ok_hidden[OF ok] sh stat_shape_length[OF sh] assms(2) by (simp add: Let_def)
qed

section \<open>Opening the first file\<close>

text \<open>After \<open>m\<close> rows: exactly these are expanded.\<close>

definition opened :: "nat \<Rightarrow> stat_row list \<Rightarrow> stat_row list \<Rightarrow> bool" where
  "opened m rs0 rs = (stat_ok rs \<and> stat_shape rs = stat_shape rs0 \<and> (\<forall>i < length rs. sr_expanded (rs ! i) \<longleftrightarrow> i < m))"

lemma opened_visible:
  assumes "opened m rs0 rs" "m < length rs"
  shows "\<not> sr_hidden (rs ! m)"
proof
  assume h: "sr_hidden (rs ! m)"
  then obtain q where q: "sr_parent (rs ! m) = Some q"
    using stat_okD(4)[of rs m] assms by (cases "sr_parent (rs ! m)") (auto simp: opened_def)
  then obtain i where i: "i < m" "sr_id (rs ! i) = q" using assms by (auto simp: opened_def stat_ok_def stat_wf_def)
  then have "stat_child rs i m" using q assms(2) by (simp add: stat_child_def)
  then show False using stat_okD(2)[of rs i m] h i(1) assms by (auto simp: opened_def)
qed

lemma opened_step:
  assumes "opened m rs0 (cv_rows p)" "m < length (cv_rows p)"
  shows "opened (Suc m) rs0 (cv_rows (stat_expander_click False m p))"
proof -
  let ?rs = "cv_rows p" and ?rs' = "expandStatTree (length (cv_rows p)) False m (cv_rows p)"
  have ok: "stat_ok ?rs" using assms(1) by (simp add: opened_def)
  note vis = opened_visible[OF assms]
  have e: "?rs' = upd_rows [m] (\<lambda>r. r\<lparr>sr_open := True, sr_expanded := True\<rparr>) (upd_rows (child_rows (length ?rs) m ?rs) (\<lambda>r. r\<lparr>sr_hidden := False\<rparr>) ?rs)"
    by (subst expandStatTree.simps) (simp only: Let_def if_False)
  have c: "j \<in> set (child_rows (length ?rs) m ?rs) \<longleftrightarrow> stat_child ?rs m j" for j using child_rows_iff[OF stat_okD(1)[OF ok] assms(2)] .
  note o = open_row_ok[OF ok assms(2) vis e c]
  have l: "length ?rs' = length ?rs" using o below_onlyD(2) by blast
  have "opened (Suc m) rs0 ?rs'"
    using o assms(1) below_onlyD(1)[of m ?rs ?rs'] l by (auto simp: opened_def)
  moreover have "toggle_stat False m ?rs = ?rs'" using assms by (simp add: toggle_stat_def opened_def)
  ultimately show ?thesis using color_stat_ok[of "p\<lparr>cv_rows := ?rs'\<rparr>"] color_stat_rows[where p = "p\<lparr>cv_rows := ?rs'\<rparr>"]
    by (simp add: opened_def stat_expander_click_def)
qed

lemma open_dirs_opened:
  assumes "opened m rs0 (cv_rows p)" "n = length (cv_rows p)" "k < n" "m \<le> k" "\<not> sr_expander (rs0 ! k)" "\<forall>i < k. sr_expander (rs0 ! i)"
  shows "opened k rs0 (cv_rows (open_dirs [m..<n] p))"
  using assms
proof (induction "k - m" arbitrary: m p)
  case 0
  then have m: "m = k" "[m..<n] = k # [Suc k..<n]" by (simp_all add: upt_conv_Cons)
  have "\<not> sr_expander (cv_rows p ! k)" using 0 stat_shape_nth(4)[of "cv_rows p" rs0 k] by (simp add: opened_def)
  then show ?case using 0(2) m by simp
next
  case (Suc d)
  have u: "[m..<n] = m # [Suc m..<n]" using Suc by (simp add: upt_conv_Cons)
  have e: "sr_expander (cv_rows p ! m)" using Suc stat_shape_nth(4)[of "cv_rows p" rs0 m] by (auto simp: opened_def)
  have o: "opened (Suc m) rs0 (cv_rows (stat_expander_click False m p))" using opened_step[OF Suc(3)] Suc by simp
  have "n = length (cv_rows (stat_expander_click False m p))"
    using o Suc(3,4) stat_shape_length[of _ rs0] by (metis opened_def)
  moreover have "d = k - Suc m" "Suc m \<le> k" using Suc(2) by linarith+
  ultimately have "opened k rs0 (cv_rows (open_dirs [Suc m..<n] (stat_expander_click False m p)))"
    using Suc(1)[of "Suc m" "stat_expander_click False m p"] o Suc(5,7,8) by simp
  then show ?case unfolding u using e by simp
qed

lemma filter_first:
  assumes "k < length xs" "P (xs ! k)" "filter P (take k xs) = []"
  shows "filter P xs = xs ! k # filter P (drop (Suc k) xs)"
proof -
  have "filter P xs = filter P (take k xs @ xs ! k # drop (Suc k) xs)" using assms(1) by (simp only: id_take_nth_drop[symmetric])
  then show ?thesis using assms(2,3) by simp
qed

text \<open>
  On a page whose directories are all collapsed, opening the page without a file in its address
  expands the directories down to the first file of the table, makes this file visible, and requests
  its source.
\<close>

theorem first_file_is_opened:
  assumes "stat_ok (cv_rows p)" "\<forall>r \<in> set (cv_rows p). \<not> sr_expanded r" "k < length (cv_rows p)"
    and "\<forall>i < k. sr_expander (cv_rows p ! i) \<and> sr_path (cv_rows p ! i) = None"
    and "\<not> sr_expander (cv_rows p ! k)" "sr_path (cv_rows p ! k) = Some f"
  shows "let q = open_dirs [0..<length (cv_rows p)] p in
    (\<forall>i \<le> k. \<not> sr_hidden (cv_rows q ! i)) \<and> (\<forall>i < length (cv_rows q). sr_expanded (cv_rows q ! i) \<longleftrightarrow> i < k)
    \<and> first_file (cv_rows q) = Some f"
proof -
  let ?q = "open_dirs [0..<length (cv_rows p)] p"
  have "opened 0 (cv_rows p) (cv_rows p)" using assms(1,2) by (simp add: opened_def)
  then have o: "opened k (cv_rows p) (cv_rows ?q)" using open_dirs_opened[of 0 "cv_rows p" p _ k] assms(3-5) by simp
  then have sh: "stat_shape (cv_rows ?q) = stat_shape (cv_rows p)" and ok: "stat_ok (cv_rows ?q)" by (simp_all add: opened_def)
  have k: "k < length (cv_rows ?q)" using stat_shape_length[OF sh] assms(3) by simp
  have vis: "\<not> sr_hidden (cv_rows ?q ! i)" if ik: "i \<le> k" for i
  proof
    assume "sr_hidden (cv_rows ?q ! i)"
    then obtain j where j: "stat_above (cv_rows ?q) j i" "\<not> sr_expanded (cv_rows ?q ! j)" using stat_ok_hidden[OF ok, of i] ik k by auto
    have lt: "j' < i'" if "stat_above (cv_rows ?q) j' i'" for j' i'
      using that by induction (use stat_child_order[OF stat_okD(1)[OF ok]] in \<open>auto intro: less_trans\<close>)
    show False using lt[OF j(1)] j(2) o ik k by (auto simp: opened_def)
  qed
  let ?P = "\<lambda>r. \<not> sr_hidden r \<and> sr_path r \<noteq> None"
  have pk: "?P (cv_rows ?q ! k)" "sr_path (cv_rows ?q ! k) = Some f" using vis[of k] stat_shape_nth(5)[OF sh k] assms(6) by simp_all
  have "filter ?P (take k (cv_rows ?q)) = []"
    using stat_shape_nth(5)[OF sh] assms(4) k by (auto simp: filter_empty_conv in_set_conv_nth)
  then have "filter ?P (cv_rows ?q) = cv_rows ?q ! k # filter ?P (drop (Suc k) (cv_rows ?q))"
    by (rule filter_first[where P = ?P, OF k pk(1)])
  then show ?thesis using vis o pk(2) by (simp add: Let_def first_file_def opened_def)
qed

section \<open>Stepping through a collection\<close>

lemma getNewIndex_next: "0 \<le> i \<Longrightarrow> i < n \<Longrightarrow> getNewIndex i n 1 = (i + 1) mod n"
  by (cases "i + 1 = n") (auto simp: getNewIndex_def Let_def)

lemma getNewIndex_prev: "0 \<le> i \<Longrightarrow> i < n \<Longrightarrow> getNewIndex i n (-1) = (i - 1) mod n"
  by (cases "i = 0") (auto simp: getNewIndex_def Let_def zmod_minus1)

lemma index_of_nth: "distinct xs \<Longrightarrow> i < length xs \<Longrightarrow> index_of (xs ! i) xs = int i"
proof -
  assume a: "distinct xs" "i < length xs"
  have "takeWhile (\<lambda>y. y \<noteq> xs ! i) xs = take i xs"
    using a by (intro takeWhile_eq_take_P_nth) (auto simp: nth_eq_iff_index_eq)
  then show ?thesis using a by (simp add: index_of_def)
qed

lemma index_of_less: "xs \<noteq> [] \<Longrightarrow> index_of x xs < int (length xs)"
proof -
  have "x \<in> set xs \<Longrightarrow> length (takeWhile (\<lambda>y. y \<noteq> x) xs) < length xs" by (induction xs) auto
  then show "xs \<noteq> [] \<Longrightarrow> index_of x xs < int (length xs)" by (simp add: index_of_def)
qed

lemma selected_ops [simp]:
  "sv_selected (empty_data p) = sv_selected p" "sv_selected (select_span (Some l) p) = Some l"
  by (cases l; simp add: empty_data_def select_span_def Let_def)+

definition steady :: "'a cov_callback \<Rightarrow> bool" where
  "steady cb = (\<forall>p. sv_selected (cb p) = sv_selected p)"

lemma new_index_nat:
  assumes "i < n"
  shows "nat (getNewIndex (int i) (int n) 1) = Suc i mod n" "nat (getNewIndex (int i) (int n) (-1)) = (i + n - 1) mod n"
proof -
  show "nat (getNewIndex (int i) (int n) 1) = Suc i mod n"
    using getNewIndex_next[of "int i" "int n"] assms by (simp add: nat_mod_as_int add.commute)
  have "(int i - 1) mod int n = int ((i + n - 1) mod n)"
    using assms by (simp add: zmod_int of_nat_diff) (metis add_diff_eq diff_add_eq mod_add_self2)
  then show "nat (getNewIndex (int i) (int n) (-1)) = (i + n - 1) mod n"
    using getNewIndex_prev[of "int i" "int n"] assms by simp
qed

lemma changeSelection_step:
  assumes "steady cb" "distinct (map fst coll)" "i < length coll" "sv_selected p = Some (fst (coll ! i))"
  shows "sv_selected (changeSelection cb coll 1 p) = Some (fst (coll ! (Suc i mod length coll)))"
    "sv_selected (changeSelection cb coll (-1) p) = Some (fst (coll ! ((i + length coll - 1) mod length coll)))"
proof -
  have ne: "coll \<noteq> []" "0 < int (length coll)" using assms(3) by auto
  have idx: "index_of (fst (coll ! i)) (map fst coll) = int i" using index_of_nth[OF assms(2), of i] assms(3) by simp
  show "sv_selected (changeSelection cb coll 1 p) = Some (fst (coll ! (Suc i mod length coll)))"
    "sv_selected (changeSelection cb coll (-1) p) = Some (fst (coll ! ((i + length coll - 1) mod length coll)))"
    using ne assms(1,4) idx new_index_nat[OF assms(3)] by (simp_all add: changeSelection_def Let_def steady_def)
qed

text \<open>
  C26. Pressing a next button repeatedly goes through the whole collection, every element once, and starts
  again; a previous button undoes a next button.
\<close>

theorem navigation_cycles:
  assumes "steady cb" "distinct (map fst coll)" "i < length coll" "sv_selected p = Some (fst (coll ! i))"
  shows "sv_selected ((changeSelection cb coll 1 ^^ m) p) = Some (fst (coll ! ((i + m) mod length coll)))
    \<and> sv_selected (changeSelection cb coll (-1) (changeSelection cb coll 1 p)) = Some (fst (coll ! i))"
proof
  show "sv_selected ((changeSelection cb coll 1 ^^ m) p) = Some (fst (coll ! ((i + m) mod length coll)))"
  proof (induction m)
    case (Suc m)
    have "0 < length coll" using assms(3) by linarith
    then show ?case using changeSelection_step(1)[OF assms(1,2) mod_less_divisor Suc] by (simp add: mod_Suc_eq)
  qed (use assms in simp)
  have "((Suc i mod length coll) + length coll - 1) mod length coll = i"
    using assms(3) by (cases "Suc i = length coll") simp_all
  then show "sv_selected (changeSelection cb coll (-1) (changeSelection cb coll 1 p)) = Some (fst (coll ! i))"
    using changeSelection_step(2)[OF assms(1,2) mod_less_divisor changeSelection_step(1)[OF assms]] assms(3) by fastforce
qed

section \<open>The most covered lines\<close>

lemma by_value_sorted: "sorted_wrt (\<lambda>a b. snd b \<le> snd a) (by_value es)"
proof -
  have "sorted (map (\<lambda>e. - snd e) (by_value es))" unfolding by_value_def by (rule sorted_sort_key)
  then show ?thesis by (simp add: sorted_wrt_map)
qed

lemma clearCache_caches [simp]:
  "cv_covered (clearCache p) = None" "cv_uncovered (clearCache p) = None" "cv_sorted (clearCache p) = None" "cv_most (clearCache p) = None"
  "cv_initial (clearCache p) = sv_title p" "sv_title (clearCache p) = sv_title p"
  by (simp_all add: clearCache_def)

lemma valued_cache [simp]: "valued f P (clearCache p) = valued f P p"
proof -
  have "sv_gen (clearCache p) = sv_gen p" "sv_content (clearCache p) = sv_content p" by (simp_all add: clearCache_def)
  then show ?thesis by (simp only: valued_def)
qed

text \<open>
  C27. For a newly opened file, the most covered lines are at most 30 elements of covered lines of this file
  in descending order of their counts, and no other covered line of the file has a higher count than
  any of them.
\<close>

theorem most_covered_lines_are_top:
  assumes "sv_title p \<noteq> cv_initial p"
  shows "let c = fst (mostCoveredLines p); all = valued sl_line_cov (\<lambda>v. v > 0) p in
    length c = min 30 (length all) \<and> sorted_wrt (\<lambda>a b. snd b \<le> snd a) c
    \<and> (\<exists>rest. mset all = mset c + mset rest \<and> (\<forall>a \<in> set c. \<forall>b \<in> set rest. snd b \<le> snd a))"
proof -
  let ?all = "valued sl_line_cov (\<lambda>v. v > 0) p"
  have c: "fst (mostCoveredLines p) = take 30 (by_value ?all)"
    using assms by (simp add: mostCoveredLines_def checkCache_def Let_def)
  have s: "sorted_wrt (\<lambda>a b. snd b \<le> snd a) (take 30 (by_value ?all) @ drop 30 (by_value ?all))"
    using by_value_sorted[of ?all] by simp
  have "mset ?all = mset (by_value ?all)" by (simp add: by_value_def)
  also have "\<dots> = mset (take 30 (by_value ?all)) + mset (drop 30 (by_value ?all))" by (metis append_take_drop_id mset_append)
  finally have "mset ?all = mset (take 30 (by_value ?all)) + mset (drop 30 (by_value ?all))" .
  then show ?thesis using s[unfolded sorted_wrt_append] unfolding c Let_def by (intro conjI exI[of _ "drop 30 (by_value ?all)"]) (auto simp: by_value_def)
qed

section \<open>Two effects of the caches\<close>

text \<open>
  Stepping through the functions sorted by coverage changes the order of stepping through the covered
  functions: the cached collection is sorted in place.
\<close>

theorem sorting_reorders_covered:
  shows "let (c, p1) = coveredFunctions p; (_, p2) = sortedCoveredFunctions p1 in
    cv_sorted (checkCache p) = None \<longrightarrow> fst (coveredFunctions p2) = by_value c"
  by (auto simp: coveredFunctions_def sortedCoveredFunctions_def checkCache_def clearCache_def Let_def split: option.split)

text \<open>The source window does not touch the caches; every loaded file is a new content.\<close>

lemma cov_frame_ops:
  "cv_initial (emit x p) = cv_initial p" "cv_initial (update_id i u p) = cv_initial p" "cv_initial (mark_line g n b p) = cv_initial p"
  "cv_covered (emit x p) = cv_covered p" "cv_covered (update_id i u p) = cv_covered p" "cv_covered (mark_line g n b p) = cv_covered p"
  "sv_gen (mark_line g n b p) = sv_gen p" "sv_title (mark_line g n b p) = sv_title p"
  by (simp_all add: emit_def update_id_def mark_line_def)

lemma cov_frame_select:
  "cv_initial (select_line n p) = cv_initial p" "cv_covered (select_line n p) = cv_covered p"
  "sv_gen (select_line n p) = sv_gen p" "sv_title (select_line n p) = sv_title p"
  by (simp_all add: select_line_def select_span_def unselect_line_def err_notify_def Let_def cov_frame_ops split: option.split prod.split)

lemma cov_frame_refresh:
  "cv_initial (refresh p) = cv_initial p" "cv_covered (refresh p) = cv_covered p" "sv_gen (refresh p) = sv_gen p"
  by (auto simp: refresh_def Let_def cov_frame_ops split: option.split)

lemma cov_frame:
  "cv_initial (get_source_success n h r p) = cv_initial p" "cv_covered (get_source_success n h r p) = cv_covered p"
  "sv_title (get_source_success n h r p) = h"
  by (simp_all add: get_source_success_def Let_def cov_frame_refresh cov_frame_select cov_frame_ops refresh_keeps)

lemma source_gen: "sv_gen (get_source_success n h r p) = Suc (sv_gen p)" for p :: "'a cov_page_scheme"
  by (simp add: get_source_success_def Let_def cov_frame_refresh cov_frame_select cov_frame_ops)

text \<open>
  C33. The caches are dropped only when the shown file has another name than when they were filled. After
  another file was opened and the first one opened again, a next button takes an element of the old
  content: the highlight of the current line is removed and no line of the shown file gets one.
\<close>

theorem reopened_file_loses_highlight:
  assumes "cv_initial p = f" "sv_title p = f" "g \<noteq> f" "cv_covered p = Some c" "c \<noteq> []" "\<forall>e \<in> set c. fst (fst e) \<le> sv_gen p"
    and "list_all (\<lambda>l. \<not> sl_selected l) (fr_lines r2)" "\<not> fr_not_found r2"
  shows "let q = get_source_success 1 f r2 (get_source_success 1 g r1 p); (c', q') = coveredFunctions q; q'' = changeSelection (\<lambda>x. x) c' d q' in
    c' = c \<and> sv_selected q'' \<noteq> None \<and> filter sl_selected (fr_lines (sv_content q'')) = []"
proof -
  let ?p1 = "get_source_success 1 g r1 p"
  let ?q = "get_source_success 1 f r2 ?p1"
  have cq: "coveredFunctions ?q = (c, ?q)" using assms(1,4) by (simp add: coveredFunctions_def checkCache_def cov_frame Let_def)
  have ok: "src_ok (empty_data ?q)" using get_source_success_ok[OF assms(7), of 1 f ?p1] by (simp add: src_ok_def empty_data_def)
  obtain e where e: "changeSelection (\<lambda>x. x) c d ?q = select_span (Some (fst (c ! nat e))) (empty_data ?q)"
    "0 \<le> e" "e < int (length c)"
  proof -
    let ?e = "case sv_selected (empty_data ?q) of None \<Rightarrow> 0 | Some l \<Rightarrow> getNewIndex (index_of l (map fst c)) (int (length c)) d"
    have "index_of l (map fst c) < int (length c)" for l using index_of_less[of "map fst c" l] assms(5) by simp
    then have "0 \<le> ?e" "?e < int (length c)" using assms(5) by (auto simp: getNewIndex_def Let_def split: option.split)
    then show thesis using that[of ?e] assms(5) by (simp add: changeSelection_def Let_def)
  qed
  have old: "fst (fst (c ! nat e)) \<noteq> sv_gen ?q" using assms(6) e(2,3) nth_mem[of "nat e" c] by (fastforce simp: source_gen)
  let ?s = "select_span (Some (fst (c ! nat e))) (empty_data ?q)"
  have "src_ok ?s" by (rule select_span_ok[OF ok])
  moreover have "sv_selected ?s = Some (fst (c ! nat e))" by simp
  moreover have "sv_gen ?s = sv_gen ?q"
    by (simp add: select_span_def Let_def empty_data_def unselect_line_def mark_line_def split: prod.split option.split)
  ultimately have "list_all (\<lambda>l. \<not> sl_selected l) (fr_lines (sv_content ?s))" using old by (auto simp: src_ok_def list_all_iff)
  then show ?thesis using e(1) by (simp add: cq filter_empty_conv list_all_iff Let_def)
qed

section \<open>Stepping through all files\<close>

lemma split_on_parts: "join [c] (split_on [c] s) = s \<and> split_on [c] s \<noteq> [] \<and> (\<forall>x \<in> set (split_on [c] s). c \<notin> set x)"
proof (induction "[c]" s rule: split_on.induct)
  case (1 s)
  show ?case
  proof (cases "break_at [c] s")
    case None
    then have "split_on [c] s = [s]" by (subst split_on.simps) simp
    then show ?thesis using None by (simp add: break_at_None sublist_single)
  next
    case (Some ab)
    obtain a b where ab: "ab = (a, b)" by (cases ab)
    have s: "s = a @ c # b" using break_at_Some[of "[c]" s a b] Some ab by simp
    have a: "c \<notin> set a"
    proof
      assume "c \<in> set a"
      then obtain u v where "a = u @ c # v" "c \<notin> set u" by (meson split_list_first)
      then show False using Some ab break_at_char[of c u "v @ c # b"] by (simp add: s)
    qed
    have e: "split_on [c] s = a # split_on [c] b" using Some ab by (subst split_on.simps) simp
    have ih: "join [c] (split_on [c] b) = b" "split_on [c] b \<noteq> []" "\<forall>x \<in> set (split_on [c] b). c \<notin> set x"
      using 1[OF _ Some ab[symmetric]] by auto
    obtain y ys where y: "split_on [c] b = y # ys" using ih(2) by (cases "split_on [c] b") auto
    show ?thesis using ih a s unfolding e y by simp
  qed
qed

lemma join_snoc: "xs \<noteq> [] \<Longrightarrow> join sep (xs @ [l]) = join sep xs @ sep @ l"
  by (induction sep xs rule: join.induct) auto

lemma split_on_last: "c \<notin> set l \<Longrightarrow> split_on [c] (f @ c # l) = split_on [c] f @ [l]"
proof -
  assume l: "c \<notin> set l"
  note f = split_on_parts[of c f]
  have "f @ c # l = join [c] (split_on [c] f @ [l])" using join_snoc[of "split_on [c] f" "[c]" l] f by simp
  then show ?thesis using split_on_join[of "split_on [c] f @ [l]" c] f l by auto
qed

lemma split_entry_colon:
  assumes "CHR '':'' \<notin> set l"
  shows "split_entry (f @ '':'' @ l) = Some (f, l)"
proof -
  note f = split_on_parts[of "CHR '':''" f]
  have e: "split_on '':'' (f @ '':'' @ l) = split_on '':'' f @ [l]" using split_on_last[OF assms] by simp
  show ?thesis
  proof (cases "split_on '':'' f")
    case (Cons x xs)
    then show ?thesis using e f by (cases xs) (auto simp: split_entry_def)
  qed (use f in simp)
qed

definition entry_text :: "string \<times> nat \<Rightarrow> string" where
  "entry_text e = fst e @ '':'' @ show_nat (snd e)"

lemma show_nat_no_colon: "CHR '':'' \<notin> set (show_nat n)"
proof
  assume "CHR '':'' \<in> set (show_nat n)"
  then have "is_digit (CHR '':'')" using show_nat_digits by blast
  then show False by (simp add: is_digit_def digit_of_def)
qed

lemma entry_text_inj: "entry_text a = entry_text b \<Longrightarrow> a = b"
proof -
  assume e: "entry_text a = entry_text b"
  have x: "split_entry (entry_text x) = Some (fst x, show_nat (snd x))" for x
    unfolding entry_text_def using show_nat_no_colon by (rule split_entry_colon)
  have ab: "fst a = fst b" "show_nat (snd a) = show_nat (snd b)" using x[of a, unfolded e] x[of b] by simp_all
  have "snd a = snd b" using arg_cong[OF ab(2), of "read_digits 0"] unfolding read_show_nat .
  then show ?thesis using ab(1) by (intro prod_eqI)
qed

text \<open>
  C28. From a line of the list of most covered lines of all files, the next and previous buttons request
  exactly the neighbouring entry (cyclically), whatever the file names are: also names with colons
  are taken apart correctly.
\<close>

theorem global_navigation_opens_neighbour:
  assumes "distinct es" "i < length es" "es ! i = (sv_title p, n)" "sv_selected p = Some (g, int n)"
    and "\<And>q. sv_selected (cb q) = sv_selected q \<and> sv_title (cb q) = sv_title q"
  shows "changeGlobalSelection cb (map entry_text es) 1 p =
      (let (f, m) = es ! (Suc i mod length es) in Some (get_source (int m) f True (cb (empty_data p))))
    \<and> changeGlobalSelection cb (map entry_text es) (-1) p =
      (let (f, m) = es ! ((i + length es - 1) mod length es) in Some (get_source (int m) f True (cb (empty_data p))))"
proof -
  let ?coll = "map entry_text es"
  have ne: "0 < length es" using assms(2) by linarith
  have d: "distinct ?coll" using assms(1) entry_text_inj by (auto simp: distinct_map inj_on_def)
  have "sv_title p @ '':'' @ show_int (int n) = ?coll ! i" using assms(2,3) by (simp add: entry_text_def show_int_def)
  then have idx: "index_of (sv_title p @ '':'' @ show_int (int n)) ?coll = int i" using index_of_nth[OF d, of i] assms(2) by simp
  have go: "(case split_entry (?coll ! k) of None \<Rightarrow> Some q
      | Some (file, line) \<Rightarrow> (case parse_nat line of None \<Rightarrow> None | Some m \<Rightarrow> Some (get_source m file True q)))
    = (let (f, m) = es ! k in Some (get_source (int m) f True q))" if "k < length es" for k and q :: "'a cov_page_scheme"
    using that split_entry_colon[OF show_nat_no_colon] by (simp add: entry_text_def split: prod.split)
  have "nat (getNewIndex (int i) (int (length es)) 1) = Suc i mod length es" "nat (getNewIndex (int i) (int (length es)) (-1)) = (i + length es - 1) mod length es"
    using new_index_nat[OF assms(2)] by simp_all
  then show ?thesis using assms(4,5) idx ne go by (simp add: changeGlobalSelection_def Let_def empty_data_def)
qed

section \<open>Examples\<close>

definition demo_srow :: "string \<Rightarrow> string option \<Rightarrow> bool \<Rightarrow> string option \<Rightarrow> stat_row" where
  "demo_srow i q e f = \<lparr>sr_id = i, sr_parent = q, sr_expander = e, sr_leaf = \<not> e, sr_open = False, sr_expanded = False,
     sr_hidden = (q \<noteq> None), sr_path = f, sr_bg = []\<rparr>"

definition demo_cov_line :: "int \<Rightarrow> int \<Rightarrow> src_line" where
  "demo_cov_line n v = \<lparr>sl_num = n, sl_selected = False, sl_popup = False, sl_func_cov = Some v, sl_line_cov = Some v\<rparr>"

definition demo_cov_file :: fragment where
  "demo_cov_file = \<lparr>fr_lines = [demo_cov_line 1 2, demo_cov_line 2 5], fr_not_found = False, fr_cov_url = None, fr_legend = None, fr_files = []\<rparr>"

definition demo_cov :: cov_page where
  "demo_cov = \<lparr>doc = [], out = [], href = ''/cov/'', sv_content = demo_cov_file, sv_gen = 1, sv_title = ''a.c'', sv_selected = None,
     sv_cov_data_url = None, sv_url = ''/src/'', sv_legend = None, sv_data_html = [], sv_data_names = [], sv_data_values = [],
     sv_refs_line = None, sv_decl_line = None, sv_line_not_found = ''Line not found'', sv_no_text = [],
     cv_initial = ''a.c'', cv_covered = Some [((1, 1), 2), ((1, 2), 5)], cv_uncovered = None, cv_sorted = None, cv_most = None, cv_global = None,
     cv_global_spans = [], cv_rows = [demo_srow ''1'' None True None, demo_srow ''2'' (Some ''1'') False (Some ''a.c'')], cv_alternate = True\<rparr>"

lemma demo_rows_ok: "stat_ok (cv_rows demo_cov)"
  by (auto simp: demo_cov_def demo_srow_def stat_ok_def stat_wf_def stat_child_def less_Suc_eq nth_Cons')

theorem stat_clicks_consistent_witness:
  "stat_ok (cv_rows demo_cov) \<and> (let rs = cv_rows (foldl stat_user_click demo_cov [(True, 0), (False, 0)]) in
     sr_hidden (rs ! 1) \<longleftrightarrow> (\<exists>i. stat_above rs i 1 \<and> \<not> sr_expanded (rs ! i)))"
  using demo_rows_ok stat_clicks_consistent[OF demo_rows_ok, of 1 "[(True, 0), (False, 0)]"] by (simp add: demo_cov_def Let_def)

theorem first_file_is_opened_witness:
  "first_file (cv_rows (open_dirs [0..<length (cv_rows demo_cov)] demo_cov)) = Some ''a.c''"
  using first_file_is_opened[of demo_cov 1 "''a.c''"] demo_rows_ok by (simp add: demo_cov_def demo_srow_def Let_def)

theorem navigation_cycles_witness:
  "sv_selected ((changeSelection (\<lambda>q. q) [((1, 1), 2), ((1, 2), 5)] 1 ^^ 3) (demo_cov\<lparr>sv_selected := Some (1, 1)\<rparr>)) = Some (1, 2)"
  using navigation_cycles[of "\<lambda>q. q" "[((1, 1), 2), ((1, 2), 5)]" 0 "demo_cov\<lparr>sv_selected := Some (1, 1)\<rparr>" 3] by (simp add: steady_def numeral_3_eq_3 mod_Suc)

theorem most_covered_lines_are_top_witness:
  "sv_title (demo_cov\<lparr>cv_initial := []\<rparr>) \<noteq> cv_initial (demo_cov\<lparr>cv_initial := []\<rparr>)
   \<and> length (fst (mostCoveredLines (demo_cov\<lparr>cv_initial := []\<rparr>))) = 2"
  using most_covered_lines_are_top[of "demo_cov\<lparr>cv_initial := []\<rparr>"]
  by (simp add: demo_cov_def demo_cov_file_def demo_cov_line_def valued_def Let_def)

theorem reopened_file_loses_highlight_witness:
  "filter sl_selected (fr_lines (sv_content (changeSelection (\<lambda>x. x) [((1, 1), 2), ((1, 2), 5)] 1
     (get_source_success 1 ''a.c'' demo_cov_file (get_source_success 1 ''b.c'' demo_cov_file demo_cov))))) = []"
proof -
  let ?q = "get_source_success 1 ''a.c'' demo_cov_file (get_source_success 1 ''b.c'' demo_cov_file demo_cov)"
  have "coveredFunctions ?q = ([((1, 1), 2), ((1, 2), 5)], ?q)"
    by (simp add: coveredFunctions_def checkCache_def cov_frame Let_def demo_cov_def)
  then show ?thesis
    using reopened_file_loses_highlight[of demo_cov "''a.c''" "''b.c''" "[((1, 1), 2), ((1, 2), 5)]" demo_cov_file demo_cov_file 1]
    by (simp add: demo_cov_def demo_cov_file_def demo_cov_line_def Let_def)
qed

theorem global_navigation_opens_neighbour_witness:
  "changeGlobalSelection (\<lambda>q. q) (map entry_text [(''a.c'', 1), (''c:/b.c'', 7)]) 1 (demo_cov\<lparr>sv_selected := Some (1, 1)\<rparr>)
   = Some (get_source 7 ''c:/b.c'' True (empty_data (demo_cov\<lparr>sv_selected := Some (1, 1)\<rparr>)))"
  using global_navigation_opens_neighbour[of "[(''a.c'', 1), (''c:/b.c'', 7)]" 0 "demo_cov\<lparr>sv_selected := Some (1, 1)\<rparr>" 1 1 "\<lambda>q. q"]
  by (simp add: demo_cov_def Let_def)

end
