(* ===== verification/Files_Tree.thy ===== *)
theory Files_Tree
  imports JS_Tree View_Settings "HOL-Library.AList"
begin

text \<open>
  The editor of the files of a decision (\<open>jobs/static/jobs/js/decisionFilesEdit.js\<close>), the read-only view of
  the files of a job (\<open>jobFilesView.js\<close>) and the form of a job (\<open>jobForm.js\<close>). The files are nodes of
  the tree widget (theory \<open>JS_Tree\<close>); the widget's \<open>unique\<close> plugin keeps the names of siblings apart. The
  editor loads and commits files with requests whose callbacks refer to a node object: the answers
  still to come and the timers still to fire are part of the state, and they may come in any order.
\<close>

section \<open>Names of siblings\<close>

text \<open>\<open>s.toLowerCase()\<close> of Latin-1 strings.\<close>

definition lower_char :: "char \<Rightarrow> char" where
  "lower_char c = (let n = (of_char c :: nat) in
     if (65 \<le> n \<and> n \<le> 90) \<or> (192 \<le> n \<and> n \<le> 222 \<and> n \<noteq> 215) then char_of (n + 32) else c)"

definition to_lower :: "string \<Rightarrow> string" where
  "to_lower s = map lower_char s"

definition child_names :: "'d jstree \<Rightarrow> 'd jnode \<Rightarrow> string list" where
  "child_names t par = map (\<lambda>c. case jt_model t c of None \<Rightarrow> [] | Some n \<Rightarrow> to_lower (j_text n)) (j_children par)"

text \<open>
  The name of a new node: \<open>name\<close>, \<open>name (2)\<close>, \<open>name (3)\<close> and so on, the first that no sibling has. One of
  the first numbers is free, because every sibling takes at most one.
\<close>

definition numbered_name :: "nat \<Rightarrow> string" where
  "numbered_name k = ''name ('' @ show_nat k @ '')''"

definition new_name :: "string list \<Rightarrow> string" where
  "new_name names =
     (if ''name'' \<notin> set names then ''name''
      else case find (\<lambda>k. to_lower (numbered_name k) \<notin> set names) [2..<length names + 3] of
        Some k \<Rightarrow> numbered_name k
      | None \<Rightarrow> numbered_name (length names + 3))"

text \<open>\<open>create_node\<close> and \<open>rename_node\<close> with the checks of the plugin and of the editor's \<open>check_callback\<close>.\<close>

definition put_first :: "string \<Rightarrow> string \<Rightarrow> 'd jstree \<Rightarrow> 'd jstree" where
  "put_first par i t =
     t\<lparr>jt_model := jupd par (\<lambda>x. x\<lparr>j_children := i # remove1 i (j_children x)\<rparr>) (jt_model t)\<rparr>"

definition create_unique :: "string \<Rightarrow> string \<Rightarrow> string \<Rightarrow> bool \<Rightarrow> 'd \<Rightarrow> 'd jstree \<Rightarrow> 'd jstree option" where
  "create_unique par i ty to_first d t =
     (case get_node t par of
        None \<Rightarrow> None
      | Some c \<Rightarrow>
          (case create_node par i (new_name (child_names t c)) ty d t of
             None \<Rightarrow> None
           | Some (_, t') \<Rightarrow> Some (if to_first then put_first (j_id c) i t' else t')))"

definition rename_unique :: "string \<Rightarrow> string \<Rightarrow> 'd jstree \<Rightarrow> 'd jstree option" where
  "rename_unique i s t =
     (case get_node t i of
        None \<Rightarrow> None
      | Some n \<Rightarrow>
          if j_type n = ''root'' then None
          else
            (let taken = (case j_parent n of None \<Rightarrow> []
                          | Some q \<Rightarrow> (case jt_model t q of None \<Rightarrow> [] | Some par \<Rightarrow> child_names t par)) in
             if to_lower s \<in> set taken \<and> \<not> (j_text n \<noteq> [] \<and> to_lower (j_text n) = to_lower s) then None
             else map_option snd (rename_node i s t)))"

definition jt_deselect :: "string \<Rightarrow> 'd jstree \<Rightarrow> 'd jstree" where
  "jt_deselect i t = (case get_node t i of None \<Rightarrow> t
     | Some n \<Rightarrow> t\<lparr>jt_selected := filter (\<lambda>k. k \<noteq> j_id n) (jt_selected t)\<rparr>)"

section \<open>The state of the editor\<close>

text \<open>
  A span of the editor's cache: the attribute the cache is searched by and the text. (jQuery's
  \<open>.data(key, value)\<close> sets no attribute.)
\<close>

record cache_span =
  cs_hashsum :: "string option"
  cs_text :: string

text \<open>The data of a node is the hash sum of the file, if it has one.\<close>

type_synonym file_node = "string option jnode"

text \<open>
  A node object held by a callback: a node of the tree, or a node that has left the tree since and
  stays as it was.
\<close>

datatype nref = Live string | Detached file_node

datatype waiting =
    W_load nref
  | W_commit nref string
  | W_replace string
  | W_upload string
  | W_edit string
  | W_add nref string string string

record files_page = page +
  ft_init :: bool
  ft_tree :: "string option jstree"
  ft_value :: string
  ft_readonly :: bool
  ft_mode :: jsval
  ft_filename :: string
  ft_status :: bool
  ft_cache :: "cache_span list"
  ft_messages :: "(string \<times> jsval) list"
  ft_labels :: "(string \<times> jsval) list"
  ft_waiting :: "waiting list"

abbreviation upload_file_url :: string where "upload_file_url \<equiv> ''/jobs/api/file/''"
abbreviation get_file_url :: string where "get_file_url \<equiv> ''/jobs/api/file/{0}/''"
abbreviation download_file_url :: string where "download_file_url \<equiv> ''/jobs/downloadfile/{0}/?name={1}''"
abbreviation def_file_to_open :: string where "def_file_to_open \<equiv> ''job.json''"
abbreviation replace_modal :: string where "replace_modal \<equiv> ''filetree_replace_modal''"
abbreviation upload_modal :: string where "upload_modal \<equiv> ''filetree_upload_model''"

definition files_types :: "(string \<times> string list option) list" where
  "files_types = [(''#'', None), (''default'', None), (''root'', None), (''folder'', None), (''file'', Some [])]"

definition default_messages :: "(string \<times> jsval) list" where
  "default_messages =
     [(''not_ascii'', JStr ''File name is not ascii''),
      (''filename_required'', JStr ''File name is required''),
      (''file_commited'', JStr ''The file was committed''),
      (''file_not_commited'', JStr ''The file was not committed''),
      (''file_required'', JStr ''Please select the file''),
      (''commit_required'', JStr ''Please commit the changed file'')]"

definition default_labels :: "(string \<times> jsval) list" where
  "default_labels =
     [(''new'', JStr ''New''), (''folder'', JStr ''Directory''), (''file'', JStr ''File''),
      (''upload'', JStr ''Upload''), (''rename'', JStr ''Rename''), (''delete'', JStr ''Delete''),
      (''replace'', JStr ''Replace''), (''download'', JStr ''Download'')]"

definition FilesTree :: "elem list \<Rightarrow> files_page" where
  "FilesTree document =
     \<lparr>doc = document, out = [], href = [], ft_init = False, ft_tree = empty_tree files_types None,
      ft_value = [], ft_readonly = True, ft_mode = JUndef, ft_filename = [], ft_status = False,
      ft_cache = [], ft_messages = default_messages, ft_labels = default_labels, ft_waiting = []\<rparr>"

text \<open>\<open>node.data && node.data.hashsum\<close>\<close>

definition hash_of :: "file_node \<Rightarrow> string option" where
  "hash_of n = (case j_data n of None \<Rightarrow> None | Some h \<Rightarrow> if h = [] then None else Some h)"

definition selected_node :: "files_page \<Rightarrow> file_node option" where
  "selected_node p = (case jt_selected (ft_tree p) of [] \<Rightarrow> None | i # _ \<Rightarrow> get_node (ft_tree p) i)"

fun ref_id :: "nref \<Rightarrow> string" where
  "ref_id (Live i) = i"
| "ref_id (Detached n) = j_id n"

definition ref_text :: "files_page \<Rightarrow> nref \<Rightarrow> string" where
  "ref_text p r = (case r of
     Live i \<Rightarrow> (case jt_model (ft_tree p) i of None \<Rightarrow> [] | Some n \<Rightarrow> j_text n)
   | Detached n \<Rightarrow> j_text n)"

text \<open>\<open>node.data = {hashsum: h}\<close>; the object of a detached node is in no tree.\<close>

definition ref_set_hash :: "nref \<Rightarrow> string \<Rightarrow> files_page \<Rightarrow> files_page" where
  "ref_set_hash r h p = (case r of
     Live i \<Rightarrow> p\<lparr>ft_tree := set_node_data i (\<lambda>_. Some h) (ft_tree p)\<rparr>
   | Detached n \<Rightarrow> p)"

definition detach_ref :: "file_node list \<Rightarrow> nref \<Rightarrow> nref" where
  "detach_ref gone r = (case r of
     Live i \<Rightarrow> (case find (\<lambda>n. j_id n = i) gone of None \<Rightarrow> r | Some n \<Rightarrow> Detached n)
   | Detached n \<Rightarrow> r)"

fun detach :: "file_node list \<Rightarrow> waiting \<Rightarrow> waiting" where
  "detach gone (W_load r) = W_load (detach_ref gone r)"
| "detach gone (W_commit r c) = W_commit (detach_ref gone r) c"
| "detach gone (W_add r par name h) = W_add (detach_ref gone r) par name h"
| "detach gone w = w"

definition await :: "waiting \<Rightarrow> files_page \<Rightarrow> files_page" where
  "await w p = p\<lparr>ft_waiting := ft_waiting p @ [w]\<rparr>"

section \<open>The editor\<close>

definition not_commited :: "files_page \<Rightarrow> bool" where
  "not_commited p = ft_status p"

definition set_messages :: "(string \<times> jsval) list \<Rightarrow> files_page \<Rightarrow> files_page" where
  "set_messages ms p = p\<lparr>ft_messages := foldl (\<lambda>a (k, v). obj_set k v a) (ft_messages p) ms\<rparr>"

definition set_labels :: "(string \<times> jsval) list \<Rightarrow> files_page \<Rightarrow> files_page" where
  "set_labels ls p = p\<lparr>ft_labels := foldl (\<lambda>a (k, v). obj_set k v a) (ft_labels p) ls\<rparr>"

definition message :: "files_page \<Rightarrow> string \<Rightarrow> string" where
  "message p k = to_str (obj_get (ft_messages p) k)"

definition label :: "files_page \<Rightarrow> string \<Rightarrow> string" where
  "label p k = to_str (obj_get (ft_labels p) k)"

definition clear_editor :: "files_page \<Rightarrow> files_page" where
  "clear_editor p = p\<lparr>ft_value := [], ft_readonly := True, ft_filename := [], ft_status := False\<rparr>"

definition highlight_mode :: "string \<Rightarrow> jsval" where
  "highlight_mode filename =
     (let ext = getFileExtension filename in
      if ext = ''json'' then JObj [(''name'', JStr ''javascript''), (''json'', JBool True)]
      else if ext \<in> {''c'', ''h'', ''i'', ''aspect'', ''tmpl''} then JStr ''text/x-csrc''
      else if ext = ''xml'' then JStr ''application/xml''
      else if ext = ''py'' then JStr ''text/x-python''
      else if ext = ''yml'' then JStr ''text/x-yaml''
      else JStr ''text/plain'')"

definition set_editor_value :: "string \<Rightarrow> string \<Rightarrow> files_page \<Rightarrow> files_page" where
  "set_editor_value filename content p =
     p\<lparr>ft_value := content, ft_readonly := False, ft_mode := highlight_mode filename, ft_filename := filename\<rparr>"

definition cached :: "string \<Rightarrow> files_page \<Rightarrow> cache_span list" where
  "cached h p = filter (\<lambda>s. cs_hashsum s = Some h) (ft_cache p)"

definition load_file_content :: "file_node \<Rightarrow> files_page \<Rightarrow> files_page" where
  "load_file_content n p =
     (if \<not> isFileReadable (j_text n) then p
      else case hash_of n of
        Some h \<Rightarrow>
          (if cached h p \<noteq> [] then set_editor_value (j_text n) (concat (map cs_text (cached h p))) p
           else await (W_load (Live (j_id n))) (send ''GET'' (format_str [h] get_file_url) (JObj []) ''load_file_content'' p))
      | None \<Rightarrow> set_editor_value (j_text n) [] p)"

definition load_file_done :: "nref \<Rightarrow> string \<Rightarrow> files_page \<Rightarrow> files_page" where
  "load_file_done r resp p =
     (let q = set_editor_value (ref_text p r) resp p in
      q\<lparr>ft_cache := ft_cache q @ [\<lparr>cs_hashsum = None, cs_text = resp\<rparr>]\<rparr>)"

text \<open>The handler of \<open>select_node.jstree\<close>, and the widget's selection that triggers it.\<close>

definition on_select :: "file_node \<Rightarrow> files_page \<Rightarrow> files_page" where
  "on_select n p = (let q = clear_editor p in if j_type n = ''file'' then load_file_content n q else q)"

definition select_in_tree :: "string \<Rightarrow> files_page \<Rightarrow> files_page" where
  "select_in_tree i p = (case jt_select_node i (ft_tree p) of
     (None, t) \<Rightarrow> p\<lparr>ft_tree := t\<rparr>
   | (Some n, t) \<Rightarrow> on_select n (p\<lparr>ft_tree := t\<rparr>))"

definition deselect_in_tree :: "string \<Rightarrow> files_page \<Rightarrow> files_page" where
  "deselect_in_tree i p = p\<lparr>ft_tree := jt_deselect i (ft_tree p)\<rparr>"

text \<open>A click on a node replaces the selection; with the control key it can also take it away.\<close>

definition click_node :: "bool \<Rightarrow> string \<Rightarrow> files_page \<Rightarrow> files_page" where
  "click_node ctrl i p =
     (case get_node (ft_tree p) i of
        None \<Rightarrow> p
      | Some n \<Rightarrow>
          if ctrl \<and> j_id n \<in> set (jt_selected (ft_tree p)) then deselect_in_tree i p
          else select_in_tree i (p\<lparr>ft_tree := deselect_all (ft_tree p)\<rparr>))"

text \<open>The loop of \<open>open_first_file\<close>: the default file ends it, the first readable file is remembered.\<close>

fun first_file_loop :: "'d jmodel \<Rightarrow> string list \<Rightarrow> string option \<Rightarrow> js_error + string option" where
  "first_file_loop m [] found = Inr found"
| "first_file_loop m (c # cs) found =
     (case m c of
        None \<Rightarrow> Inl TypeError
      | Some n \<Rightarrow>
          if j_type n = ''file'' then
            (if j_text n = def_file_to_open then Inr (Some c)
             else if found = None \<and> isFileReadable (j_text n) then first_file_loop m cs (Some c)
             else first_file_loop m cs found)
          else first_file_loop m cs found)"

text \<open>The handlers that may throw return the error and the state they leave.\<close>

definition open_first_file :: "files_page \<Rightarrow> js_error option \<times> files_page" where
  "open_first_file p =
     (let q = clear_editor p; m = jt_model (ft_tree q) in
      case m jroot of
        None \<Rightarrow> (Some TypeError, q)
      | Some tree_top \<Rightarrow>
          (case j_children tree_top of
             [] \<Rightarrow> (Some TypeError, q)
           | root_id # _ \<Rightarrow>
               (case m root_id of
                  None \<Rightarrow> (Some TypeError, q)
                | Some root \<Rightarrow>
                    (case first_file_loop m (j_children root) None of
                       Inl e \<Rightarrow> (Some e, q)
                     | Inr None \<Rightarrow> (None, q)
                     | Inr (Some i) \<Rightarrow> (None, select_in_tree i q)))))"

section \<open>Uploading and committing\<close>

text \<open>The answer to a request: the file's text, a hash sum, an error in the answer, or a failure.\<close>

datatype answer =
    Text_resp string
  | Hash_resp string
  | Error_resp string
  | Fail_resp jsval

definition upload_file :: "jsval \<Rightarrow> string \<Rightarrow> files_page \<Rightarrow> files_page" where
  "upload_file data tag p = send ''POST'' upload_file_url data tag p"

definition upload_errors :: "jsval \<Rightarrow> files_page \<Rightarrow> files_page" where
  "upload_errors json p = foldl (\<lambda>q err. err_notify err None q) p (flatten_api_errors json [])"

datatype promise = Unsettled | Resolved | Rejected string

definition commit_file :: "files_page \<Rightarrow> promise \<times> files_page" where
  "commit_file p =
     (if \<not> ft_status p then (Unsettled, p)
      else case selected_node p of
        None \<Rightarrow> (Rejected ''There are no selected node'', p)
      | Some node \<Rightarrow>
          (Unsettled,
           await (W_commit (Live (j_id node)) (ft_value p))
             (upload_file (JObj [(''file'', JObj [(''name'', JStr (j_text node)), (''content'', JStr (ft_value p))])])
               ''commit_file'' p)))"

definition commit_done :: "nref \<Rightarrow> string \<Rightarrow> answer \<Rightarrow> files_page \<Rightarrow> promise \<times> files_page" where
  "commit_done r content resp p =
     (case resp of
        Hash_resp hash_sum \<Rightarrow>
          (let q = ref_set_hash r hash_sum p;
               q1 = (if cached hash_sum q = []
                     then q\<lparr>ft_cache := ft_cache q @ [\<lparr>cs_hashsum = None, cs_text = content\<rparr>]\<rparr> else q);
               q2 = success_notify (message q1 ''file_commited'') None q1 in
           (Resolved, q2\<lparr>ft_status := False\<rparr>))
      | Error_resp err \<Rightarrow> (Unsettled, err_notify err None p)
      | Fail_resp json \<Rightarrow> (Rejected ''File uploading failed'', upload_errors json p)
      | Text_resp s \<Rightarrow> (Unsettled, p))"

text \<open>The key of the editor reports a rejected promise.\<close>

definition report_rejected :: "promise \<times> files_page \<Rightarrow> files_page" where
  "report_rejected r = (case r of (Rejected err, p) \<Rightarrow> err_notify err None p | (_, p) \<Rightarrow> p)"

definition commit_key :: "files_page \<Rightarrow> files_page" where
  "commit_key p = report_rejected (commit_file p)"

definition check_filename :: "string \<Rightarrow> files_page \<Rightarrow> bool \<times> files_page" where
  "check_filename str p =
     (if str \<noteq> [] then
        (if isASCII str \<or> length str < 30 then (True, p)
         else (False, err_notify (message p ''not_ascii'') None p))
      else (False, err_notify (message p ''filename_required'') None p))"

section \<open>The menu of a node\<close>

text \<open>An item: its key, label, icon and the items of its submenu.\<close>

datatype menu_item = Menu_item string string string "menu_item list"

definition get_menu :: "file_node \<Rightarrow> files_page \<Rightarrow> menu_item list" where
  "get_menu node p =
     (let rename = Menu_item ''rename'' (label p ''rename'') ''pencil icon'' [];
          remove_it = Menu_item ''remove'' (label p ''delete'') ''remove icon'' [];
          create = Menu_item ''create'' (label p ''new'') []
            [Menu_item ''create_folder'' (label p ''folder'') ''folder outline icon'' [],
             Menu_item ''create_file'' (label p ''file'') ''file outline icon'' [],
             Menu_item ''upload_file'' (label p ''upload'') ''upload icon'' []] in
      if j_type node = ''file'' then
        [rename, remove_it, Menu_item ''replace'' (label p ''replace'') ''file icon'' []]
        @ (if hash_of node \<noteq> None then [Menu_item ''download'' (label p ''download'') ''download icon'' []] else [])
      else if j_type node = ''root'' then [create]
      else [create, rename, remove_it])"

definition menu_replace :: "file_node \<Rightarrow> files_page \<Rightarrow> files_page" where
  "menu_replace node p =
     modal replace_modal ''show'' (update (inside replace_modal (by_class ''modal-title'') p) (set_text (j_text node)) p)"

definition download_file :: "files_page \<Rightarrow> js_error option \<times> files_page" where
  "download_file p = (case selected_node p of
     None \<Rightarrow> (Some TypeError, p)
   | Some node \<Rightarrow>
       (None, case hash_of node of
          Some h \<Rightarrow> navigate (format_str [h, encodeURIComponent (j_text node)] download_file_url) p
        | None \<Rightarrow> p))"

definition create_in :: "string \<Rightarrow> string \<Rightarrow> string \<Rightarrow> bool \<Rightarrow> (string \<Rightarrow> waiting) \<Rightarrow> files_page \<Rightarrow> files_page" where
  "create_in par i ty to_first timer p =
     (case create_unique par i ty to_first None (ft_tree p) of
        None \<Rightarrow> p
      | Some t \<Rightarrow> await (timer i) (p\<lparr>ft_tree := t\<rparr>))"

definition create_folder :: "string \<Rightarrow> string \<Rightarrow> files_page \<Rightarrow> files_page" where
  "create_folder par i = create_in par i ''folder'' True W_edit"

definition create_file :: "string \<Rightarrow> string \<Rightarrow> files_page \<Rightarrow> files_page" where
  "create_file par i = create_in par i ''file'' False W_edit"

definition add_file_node :: "string \<Rightarrow> string \<Rightarrow> string \<Rightarrow> files_page \<Rightarrow> files_page" where
  "add_file_node filename hashsum i p = (case selected_node p of
     None \<Rightarrow> p
   | Some par \<Rightarrow> create_in (j_id par) i ''file'' False (\<lambda>i. W_add (Live i) (j_id par) filename hashsum) p)"

text \<open>Renaming a node in place: an empty name stands for the old one.\<close>

definition rename_in_place :: "string \<Rightarrow> string \<Rightarrow> files_page \<Rightarrow> files_page" where
  "rename_in_place i s p = (case get_node (ft_tree p) i of
     None \<Rightarrow> p
   | Some n \<Rightarrow>
       (case rename_unique i (if s = [] then j_text n else s) (ft_tree p) of
          None \<Rightarrow> p | Some t \<Rightarrow> p\<lparr>ft_tree := t\<rparr>))"

definition add_file_timer :: "nref \<Rightarrow> string \<Rightarrow> string \<Rightarrow> string \<Rightarrow> files_page \<Rightarrow> files_page" where
  "add_file_timer r par filename hashsum p =
     (let p1 = (case rename_unique (ref_id r) filename (ft_tree p) of None \<Rightarrow> p | Some t \<Rightarrow> p\<lparr>ft_tree := t\<rparr>);
          p2 = emit (Widget ''.file-tree'' ''open_node'' [JStr par]) p1;
          p3 = ref_set_hash r hashsum p2;
          p4 = deselect_in_tree par p3 in
      select_in_tree (ref_id r) p4)"

text \<open>Removing a node; \<open>delete_node.jstree\<close> clears the editor.\<close>

definition remove_node :: "string \<Rightarrow> files_page \<Rightarrow> files_page" where
  "remove_node i p =
     (case get_node (ft_tree p) i of
        None \<Rightarrow> p
      | Some n \<Rightarrow>
          if j_type n = ''root'' then p
          else case delete_node i (ft_tree p) of
            None \<Rightarrow> p
          | Some t \<Rightarrow>
              (let gone = List.map_filter (jt_model (ft_tree p)) (j_children_d n @ [j_id n]) in
               clear_editor (p\<lparr>ft_tree := t, ft_waiting := map (detach gone) (ft_waiting p)\<rparr>)))"

section \<open>The two forms\<close>

definition form_name :: "string \<Rightarrow> files_page \<Rightarrow> string" where
  "form_name m p = (case select (inside m (by_name ''input'' ''name'') p) p of
     [] \<Rightarrow> to_str JUndef | e # _ \<Rightarrow> to_str (elem_val e))"

definition form_files_chosen :: "string \<Rightarrow> files_page \<Rightarrow> string list option" where
  "form_files_chosen m p = (case select (inside m (by_name ''input'' ''file'') p) p of
     [] \<Rightarrow> None | e # _ \<Rightarrow> Some (el_files e))"

text \<open>
  The confirm buttons. A missing file is appended to the form as the string \<open>undefined\<close>, which has no
  name: reading its length throws.
\<close>

definition confirm_form :: "string \<Rightarrow> (string \<Rightarrow> waiting) \<Rightarrow> files_page \<Rightarrow> js_error option \<times> files_page" where
  "confirm_form m wait p =
     (case form_files_chosen m p of
        Some (file # _) \<Rightarrow>
          (if file = [] then (None, err_notify (message p ''file_required'') None p)
           else
             (let name = form_name m p; (ok, p1) = check_filename name p in
              if \<not> ok then (None, p1)
              else
                (None, await (wait name)
                   (upload_file (JObj [(''name'', JStr name), (''file'', JStr file)]) m
                     (update (inside m (by_class ''modal-confirm'') p1) (add_class ''loading'' \<circ> add_class ''disabled'') p1)))))
      | _ \<Rightarrow> (Some TypeError, p))"

definition replace_confirm :: "files_page \<Rightarrow> js_error option \<times> files_page" where
  "replace_confirm = confirm_form replace_modal W_replace"

definition new_file_confirm :: "files_page \<Rightarrow> js_error option \<times> files_page" where
  "new_file_confirm = confirm_form upload_modal W_upload"

definition confirm_ready :: "string \<Rightarrow> files_page \<Rightarrow> files_page" where
  "confirm_ready m p = update (inside m (by_class ''modal-confirm'') p) (remove_class ''loading'' \<circ> remove_class ''disabled'') p"

text \<open>The file input is replaced by its clone; \<open>clone_files\<close> are the files the browser keeps in it.\<close>

definition clear_form :: "(string list \<Rightarrow> string list) \<Rightarrow> string \<Rightarrow> files_page \<Rightarrow> files_page" where
  "clear_form clone_files m p =
     (let p1 = update (inside m (by_name ''input'' ''name'') p) (set_val (JStr [])) p in
      update (inside m (by_name ''input'' ''file'') p1) (\<lambda>e. e\<lparr>el_files := clone_files (el_files e)\<rparr>) p1)"

definition replace_done :: "(string list \<Rightarrow> string list) \<Rightarrow> string \<Rightarrow> string \<Rightarrow> files_page \<Rightarrow> js_error option \<times> files_page" where
  "replace_done clone_files name hash_sum p =
     (let p1 = confirm_ready replace_modal p in
      case selected_node p1 of
        None \<Rightarrow> (Some TypeError, p1)
      | Some node \<Rightarrow>
          (let i = j_id node;
               p2 = (case rename_unique i name (ft_tree p1) of None \<Rightarrow> p1 | Some t \<Rightarrow> p1\<lparr>ft_tree := t\<rparr>);
               p3 = ref_set_hash (Live i) hash_sum p2;
               p4 = (deselect_in_tree i p3)\<lparr>ft_value := [], ft_readonly := True\<rparr>;
               p5 = select_in_tree i p4;
               p6 = modal replace_modal ''hide'' p5 in
           (None, clear_form clone_files replace_modal p6)))"

definition upload_done :: "(string list \<Rightarrow> string list) \<Rightarrow> string \<Rightarrow> string \<Rightarrow> string \<Rightarrow> files_page \<Rightarrow> files_page" where
  "upload_done clone_files name hash_sum i p =
     (let p1 = modal upload_modal ''hide'' (confirm_ready upload_modal p);
          p2 = clear_form clone_files upload_modal p1 in
      add_file_node name hash_sum i p2)"

text \<open>Choosing a file puts its label into the name input.\<close>

definition form_fileselect :: "string \<Rightarrow> string \<Rightarrow> files_page \<Rightarrow> files_page" where
  "form_fileselect m chosen p = update (inside m (by_name ''input'' ''name'') p) (set_val (JStr (file_label chosen))) p"

definition form_cancel :: "string \<Rightarrow> files_page \<Rightarrow> files_page" where
  "form_cancel m = modal m ''hide''"

section \<open>Initialization\<close>

definition files_initialize :: "files_page \<Rightarrow> files_page" where
  "files_initialize p =
     (if ft_init p then emit (Widget ''.file-tree'' ''refresh'' []) p
      else
        (let p1 = emit (Widget ''.editor-help-icon'' ''popup'' []) p;
             p2 = p1\<lparr>ft_mode := JObj [(''name'', JStr ''javascript''), (''json'', JBool True)], ft_readonly := True\<rparr>;
             p3 = emit (Widget ''.CodeMirror'' ''setSize'' [JStr ''100%'', JStr ''85vh'']) p2 in
         modal upload_modal ''init'' (modal replace_modal ''init'' p3)))"

text \<open>The widget has loaded the nodes. A refresh detaches the nodes it had before.\<close>

definition files_tree_ready :: "string option jstree \<Rightarrow> files_page \<Rightarrow> js_error option \<times> files_page" where
  "files_tree_ready t p =
     (let roots = (case jt_model t jroot of None \<Rightarrow> [] | Some n \<Rightarrow> take 1 (j_children n)) in
      open_first_file (emit (Widget ''.file-tree'' ''open_node'' (map JStr roots)) (p\<lparr>ft_init := True, ft_tree := t\<rparr>)))"

definition tree_refreshed :: "string option jstree \<Rightarrow> files_page \<Rightarrow> js_error option \<times> files_page" where
  "tree_refreshed t p =
     (let gone = (case jt_model (ft_tree p) jroot of None \<Rightarrow> []
                  | Some n \<Rightarrow> List.map_filter (jt_model (ft_tree p)) (j_children_d n)) in
      open_first_file (p\<lparr>ft_tree := t, ft_waiting := map (detach gone) (ft_waiting p)\<rparr>))"

text \<open>A change of the user, not one of \<open>setValue\<close>; a read-only editor takes none.\<close>

definition editor_change :: "string \<Rightarrow> files_page \<Rightarrow> files_page" where
  "editor_change s p = (if ft_readonly p then p else p\<lparr>ft_value := s, ft_status := True\<rparr>)"

section \<open>Events\<close>

text \<open>
  What the user, the server and the timers do. A new node takes an identifier the widget has not used.
  An answer names the waiting callback it is for, so answers may come in any order.
\<close>

datatype ft_event =
    Click bool string
  | New_folder string string
  | New_file string string
  | Rename string string
  | Remove_node string
  | Change string
  | Commit_key
  | Replace_confirm
  | Upload_confirm
  | Download
  | Answer nat answer
  | Added nat string string
  | Timer nat

definition answered :: "nat \<Rightarrow> files_page \<Rightarrow> files_page" where
  "answered k p = p\<lparr>ft_waiting := take k (ft_waiting p) @ drop (Suc k) (ft_waiting p)\<rparr>"

text \<open>A failed request also reaches the handler of all pages.\<close>

definition on_answer :: "(string list \<Rightarrow> string list) \<Rightarrow> waiting \<Rightarrow> answer \<Rightarrow> files_page \<Rightarrow> files_page" where
  "on_answer clone_files w resp p =
     (let done = (case (w, resp) of
          (W_load r, Text_resp s) \<Rightarrow> load_file_done r s p
        | (W_commit r content, _) \<Rightarrow> report_rejected (commit_done r content resp p)
        | (W_replace name, Hash_resp h) \<Rightarrow> snd (replace_done clone_files name h p)
        | (W_replace name, Fail_resp json) \<Rightarrow> confirm_ready replace_modal (upload_errors json p)
        | (W_upload name, Fail_resp json) \<Rightarrow> confirm_ready upload_modal (upload_errors json p)
        | (W_replace name, Error_resp err) \<Rightarrow> err_notify err None p
        | (W_upload name, Error_resp err) \<Rightarrow> err_notify err None p
        | _ \<Rightarrow> p) in
      case resp of Fail_resp json \<Rightarrow> ajaxError json done | _ \<Rightarrow> done)"

text \<open>Which answers a request can have; the hash sum of an uploaded new file comes with \<open>Added\<close>.\<close>

definition answers :: "waiting \<Rightarrow> answer \<Rightarrow> bool" where
  "answers w resp = (case (w, resp) of
     (W_load _, Text_resp _) \<Rightarrow> True
   | (W_load _, Fail_resp _) \<Rightarrow> True
   | (W_commit _ _, Text_resp _) \<Rightarrow> False
   | (W_commit _ _, _) \<Rightarrow> True
   | (W_replace _, Text_resp _) \<Rightarrow> False
   | (W_replace _, _) \<Rightarrow> True
   | (W_upload _, Error_resp _) \<Rightarrow> True
   | (W_upload _, Fail_resp _) \<Rightarrow> True
   | _ \<Rightarrow> False)"

definition is_timer :: "waiting \<Rightarrow> bool" where
  "is_timer w = (case w of W_edit _ \<Rightarrow> True | W_add _ _ _ _ \<Rightarrow> True | _ \<Rightarrow> False)"

definition on_timer :: "waiting \<Rightarrow> files_page \<Rightarrow> files_page" where
  "on_timer w p = (case w of
     W_edit i \<Rightarrow> emit (Widget ''.file-tree'' ''edit'' [JStr i]) p
   | W_add r par name h \<Rightarrow> add_file_timer r par name h p
   | _ \<Rightarrow> p)"

definition unused_id :: "string \<Rightarrow> files_page \<Rightarrow> bool" where
  "unused_id i p = (jt_model (ft_tree p) i = None)"

definition ft_step :: "(string list \<Rightarrow> string list) \<Rightarrow> files_page \<Rightarrow> ft_event \<Rightarrow> files_page" where
  "ft_step clone_files p e = (case e of
     Click ctrl i \<Rightarrow> click_node ctrl i p
   | New_folder par i \<Rightarrow> if unused_id i p then create_folder par i p else p
   | New_file par i \<Rightarrow> if unused_id i p then create_file par i p else p
   | Rename i s \<Rightarrow> rename_in_place i s p
   | Remove_node i \<Rightarrow> remove_node i p
   | Change s \<Rightarrow> editor_change s p
   | Commit_key \<Rightarrow> commit_key p
   | Replace_confirm \<Rightarrow> snd (replace_confirm p)
   | Upload_confirm \<Rightarrow> snd (new_file_confirm p)
   | Download \<Rightarrow> snd (download_file p)
   | Answer k resp \<Rightarrow>
       if k < length (ft_waiting p) \<and> answers (ft_waiting p ! k) resp
       then on_answer clone_files (ft_waiting p ! k) resp (answered k p) else p
   | Added k h i \<Rightarrow>
       if k < length (ft_waiting p) \<and> unused_id i p then
         (case ft_waiting p ! k of
            W_upload name \<Rightarrow> upload_done clone_files name h i (answered k p) | _ \<Rightarrow> p)
       else p
   | Timer k \<Rightarrow>
       if k < length (ft_waiting p) \<and> is_timer (ft_waiting p ! k)
       then on_timer (ft_waiting p ! k) (answered k p) else p)"

section \<open>The read-only tree of a job's files\<close>

record view_page = page +
  vt_init :: bool
  vt_tree :: "string option jstree"
  vt_labels :: "(string \<times> jsval) list"

definition view_set_labels :: "(string \<times> jsval) list \<Rightarrow> view_page \<Rightarrow> view_page" where
  "view_set_labels ls p = p\<lparr>vt_labels := foldl (\<lambda>a (k, v). obj_set k v a) (vt_labels p) ls\<rparr>"

definition view_menu :: "file_node \<Rightarrow> view_page \<Rightarrow> menu_item list" where
  "view_menu node p =
     (if j_type node = ''file'' then
        (if isFileReadable (j_text node)
         then [Menu_item ''view'' (to_str (obj_get (vt_labels p) ''view'')) ''eye icon'' []] else [])
        @ [Menu_item ''download'' (to_str (obj_get (vt_labels p) ''download'')) ''download icon'' []]
      else [])"

definition open_file_content :: "file_node \<Rightarrow> view_page \<Rightarrow> view_page" where
  "open_file_content node p =
     (if j_type node \<noteq> ''file'' \<or> \<not> isFileReadable (j_text node) then p
      else case hash_of node of
        Some h \<Rightarrow> send ''GET'' (format_str [h] get_file_url) (JObj []) (j_id node) p
      | None \<Rightarrow> p)"

abbreviation content_modal :: string where "content_modal \<equiv> ''filetree_file_content_modal''"

definition file_content_loaded :: "file_node \<Rightarrow> jsval \<Rightarrow> view_page \<Rightarrow> view_page" where
  "file_content_loaded node resp p =
     (if truthy (get_prop resp ''error'') then err_notify (to_str (get_prop resp ''error'')) None p
      else
        (let p1 = update (inside content_modal (by_class ''modal-title'') p) (set_text (j_text node)) p;
             p2 = update (inside content_modal (by_class ''filecontent'') p1) (set_text (to_str resp)) p1 in
         modal content_modal ''show'' p2))"

definition view_download_file :: "file_node \<Rightarrow> view_page \<Rightarrow> view_page" where
  "view_download_file node p = (case hash_of node of
     Some h \<Rightarrow> navigate (format_str [h, encodeURIComponent (j_text node)] download_file_url) p
   | None \<Rightarrow> p)"

definition view_close :: "view_page \<Rightarrow> view_page" where
  "view_close p = (let p1 = modal content_modal ''hide'' p in
     update (inside content_modal (by_class ''filecontent'') p1) set_empty p1)"

definition view_initialize :: "view_page \<Rightarrow> view_page" where
  "view_initialize p = (if vt_init p then p else modal content_modal ''setting'' p)"

definition view_ready :: "string option jstree \<Rightarrow> view_page \<Rightarrow> view_page" where
  "view_ready t p =
     (let first = (case get_node t jroot of None \<Rightarrow> [] | Some n \<Rightarrow> take 1 (j_children n)) in
      emit (Widget ''.file-tree'' ''open_node'' (map JStr first)) (p\<lparr>vt_init := True, vt_tree := t\<rparr>))"

section \<open>The form of a job\<close>

record job_form =
  jf_labels :: "(string \<times> string) list"
  jf_inputs :: "(string \<times> string) list"

definition JobForm :: job_form where
  "JobForm = \<lparr>jf_labels = [], jf_inputs = []\<rparr>"

definition put_all :: "(string \<times> 'v) list \<Rightarrow> (string \<times> 'v) list \<Rightarrow> (string \<times> 'v) list" where
  "put_all new old = foldl (\<lambda>a (k, v). AList.update k v a) old new"

definition job_form_initialize :: "(string \<times> string) list \<Rightarrow> (string \<times> string) list \<Rightarrow> job_form \<Rightarrow> job_form" where
  "job_form_initialize inputs labels f =
     f\<lparr>jf_inputs := put_all inputs (jf_inputs f), jf_labels := put_all labels (jf_labels f)\<rparr>"

definition job_form_serialize :: "job_form \<Rightarrow> 'a page_scheme \<Rightarrow> (string \<times> jsval) list" where
  "job_form_serialize f p = foldl (\<lambda>d (key, value). obj_set key (val_of value p) d) [] (jf_inputs f)"

definition job_form_save ::
    "string \<Rightarrow> string \<Rightarrow> (string \<times> jsval) list option \<Rightarrow> job_form \<Rightarrow> 'a page_scheme \<Rightarrow> 'a page_scheme" where
  "job_form_save url method extra f p =
     (let data = foldl (\<lambda>d (k, v). obj_set k v d) (job_form_serialize f p) (case extra of None \<Rightarrow> [] | Some xs \<Rightarrow> xs) in
      send method url (JStr (stringify (JObj data))) ''save'' (dimmer_on p))"

definition job_form_saved :: "jsval \<Rightarrow> 'a page_scheme \<Rightarrow> 'a page_scheme" where
  "job_form_saved resp = navigate (to_str (get_prop resp ''url''))"

definition job_form_save_failed :: "jsval \<Rightarrow> job_form \<Rightarrow> 'a page_scheme \<Rightarrow> 'a page_scheme" where
  "job_form_save_failed json f p =
     foldl (\<lambda>q err. err_notify err (Some 3000) q) (dimmer_off p) (flatten_api_errors json (jf_labels f))"

section \<open>The shape of the tree\<close>

text \<open>What a node is to the naming rules: its parent, its name and its type.\<close>

type_synonym shape = "string \<Rightarrow> (string option \<times> string \<times> string) option"

definition shape_of :: "'d jmodel \<Rightarrow> shape" where
  "shape_of m k = map_option (\<lambda>n. (j_parent n, j_text n, j_type n)) (m k)"

definition names_ok :: "shape \<Rightarrow> bool" where
  "names_ok A = (\<forall>k k' q s s' ty ty'. A k = Some (Some q, s, ty) \<and> A k' = Some (Some q, s', ty')
     \<and> to_lower s = to_lower s' \<longrightarrow> k = k')"

definition leaves_ok :: "shape \<Rightarrow> bool" where
  "leaves_ok A = (\<forall>k q s ty r s'. A k = Some (Some q, s, ty) \<longrightarrow> A q \<noteq> Some (r, s', ''file''))"

lemma names_okD:
  "names_ok A \<Longrightarrow> A k = Some (Some q, s, ty) \<Longrightarrow> A k' = Some (Some q, s', ty') \<Longrightarrow> to_lower s = to_lower s' \<Longrightarrow> k = k'"
  unfolding names_ok_def by blast

lemma leaves_okD: "leaves_ok A \<Longrightarrow> A k = Some (Some q, s, ty) \<Longrightarrow> A q \<noteq> Some (r, s', ''file'')"
  unfolding leaves_ok_def by blast

definition files_ok :: "'d jstree \<Rightarrow> bool" where
  "files_ok t = (jt_ok (jt_model t) \<and> jt_types t = files_types
     \<and> names_ok (shape_of (jt_model t)) \<and> leaves_ok (shape_of (jt_model t)))"

lemma files_okD:
  assumes "files_ok t"
  shows "jt_ok (jt_model t)" "jt_types t = files_types" "names_ok (shape_of (jt_model t))" "leaves_ok (shape_of (jt_model t))"
  using assms by (simp_all add: files_ok_def)

lemma child_iff:
  assumes "jt_ok m" "m i = Some c"
  shows "k \<in> set (j_children c) \<longleftrightarrow> (\<exists>n. m k = Some n \<and> j_parent n = Some i)"
proof -
  have "set (j_children c) = children_of (paths_of m) i" using node_okD[OF jt_okD(2)[OF assms]] by simp
  moreover have "j_parent n = (case j_parents n of [] \<Rightarrow> None | p # _ \<Rightarrow> Some p)" if "m k = Some n" for n
    using node_okD[OF jt_okD(2)[OF assms(1) that]] by simp
  ultimately show ?thesis by (force simp: children_of_def paths_of_def split: list.splits)
qed

lemma child_names_set:
  assumes "jt_ok (jt_model t)" "jt_model t i = Some c"
  shows "x \<in> set (child_names t c) \<longleftrightarrow> (\<exists>k s ty. shape_of (jt_model t) k = Some (Some i, s, ty) \<and> x = to_lower s)"
proof
  assume "x \<in> set (child_names t c)"
  then obtain k where k: "k \<in> set (j_children c)" and x: "x = (case jt_model t k of None \<Rightarrow> [] | Some n \<Rightarrow> to_lower (j_text n))"
    by (auto simp: child_names_def)
  obtain n where "jt_model t k = Some n" "j_parent n = Some i" using k unfolding child_iff[OF assms] by blast
  then show "\<exists>k s ty. shape_of (jt_model t) k = Some (Some i, s, ty) \<and> x = to_lower s"
    using x by (intro exI[of _ k] exI[of _ "j_text n"] exI[of _ "j_type n"]) (simp add: shape_of_def)
next
  assume "\<exists>k s ty. shape_of (jt_model t) k = Some (Some i, s, ty) \<and> x = to_lower s"
  then obtain k n where k: "jt_model t k = Some n" "j_parent n = Some i" and x: "x = to_lower (j_text n)"
    by (auto simp: shape_of_def)
  then have "k \<in> set (j_children c)" unfolding child_iff[OF assms] by blast
  then show "x \<in> set (child_names t c)" unfolding child_names_def set_map
    by (rule rev_image_eqI) (simp add: k x)
qed

section \<open>A free name\<close>

lemma lower_digit: "is_digit c \<Longrightarrow> lower_char c = c"
  by (auto simp: is_digit_def digit_of_def lower_char_def Let_def split: if_splits)

lemma lower_show_nat [simp]: "to_lower (show_nat k) = show_nat k"
  using show_nat_digits[of k] by (simp add: to_lower_def lower_digit map_idI)

lemma lower_numbered [simp]: "to_lower (numbered_name k) = numbered_name k"
proof -
  have "to_lower (numbered_name k) = to_lower ''name ('' @ to_lower (show_nat k) @ to_lower '')''"
    unfolding numbered_name_def by (simp only: to_lower_def map_append)
  also have "\<dots> = numbered_name k" unfolding lower_show_nat numbered_name_def by (simp add: to_lower_def lower_char_def)
  finally show ?thesis .
qed

lemma numbered_inj: "numbered_name j = numbered_name k \<Longrightarrow> j = k"
  by (simp add: numbered_name_def show_nat_inject)

lemma new_name_free: "to_lower (new_name names) \<notin> set names"
proof (cases "''name'' \<in> set names")
  case True
  let ?free = "\<lambda>k. to_lower (numbered_name k) \<notin> set names"
  have "\<exists>k \<in> set [2..<length names + 3]. ?free k"
  proof (rule ccontr)
    assume "\<not> ?thesis"
    then have "numbered_name ` set [2..<length names + 3] \<subseteq> set names" by auto
    then have "card (numbered_name ` set [2..<length names + 3]) \<le> card (set names)" by (intro card_mono) simp_all
    moreover have "card (numbered_name ` set [2..<length names + 3]) = Suc (length names)"
      by (subst card_image) (auto intro: inj_onI numbered_inj)
    ultimately show False using card_length[of names] by simp
  qed
  then have "find ?free [2..<length names + 3] \<noteq> None" unfolding find_None_iff by blast
  then obtain k where k: "find ?free [2..<length names + 3] = Some k" by blast
  have "?free k" using find_SomeD[OF k] by blast
  moreover have "new_name names = numbered_name k" unfolding new_name_def k using True by simp
  ultimately show ?thesis by simp
next
  case False
  then show ?thesis by (simp add: new_name_def to_lower_def lower_char_def)
qed

section \<open>Every operation keeps the shape\<close>

lemma shape_add:
  assumes "names_ok A" "leaves_ok A" "A i = None" "\<forall>k r s ty. A k = Some (r, s, ty) \<longrightarrow> r \<noteq> Some i"
    and "\<forall>k s' ty'. A k = Some (Some p, s', ty') \<longrightarrow> to_lower s' \<noteq> to_lower s"
    and "\<forall>r s'. A p \<noteq> Some (r, s', ''file'')" "p \<noteq> i"
  shows "names_ok (A(i \<mapsto> (Some p, s, ty)))" "leaves_ok (A(i \<mapsto> (Some p, s, ty)))"
proof -
  let ?B = "A(i \<mapsto> (Some p, s, ty))"
  show "names_ok ?B" unfolding names_ok_def
  proof (intro allI impI)
    fix k k' q a a' b b' assume h: "?B k = Some (Some q, a, b) \<and> ?B k' = Some (Some q, a', b') \<and> to_lower a = to_lower a'"
    consider "k = i" "k' = i" | "k = i" "k' \<noteq> i" | "k \<noteq> i" "k' = i" | "k \<noteq> i" "k' \<noteq> i" by blast
    then show "k = k'"
    proof cases
      case 2
      then have "A k' = Some (Some p, a', b')" "to_lower a' = to_lower s" using h by simp_all
      then show ?thesis using assms(5) by blast
    next
      case 3
      then have "A k = Some (Some p, a, b)" "to_lower a = to_lower s" using h by simp_all
      then show ?thesis using assms(5) by blast
    next
      case 4
      then have "A k = Some (Some q, a, b)" "A k' = Some (Some q, a', b')" "to_lower a = to_lower a'" using h by simp_all
      then show ?thesis using assms(1) unfolding names_ok_def by blast
    qed simp
  qed
  show "leaves_ok ?B" unfolding leaves_ok_def
  proof (intro allI impI)
    fix k q a b r a' assume h: "?B k = Some (Some q, a, b)"
    show "?B q \<noteq> Some (r, a', ''file'')"
    proof (cases "k = i")
      case True
      then have "q = p" using h by simp
      then show ?thesis using assms(6,7) by simp
    next
      case False
      then have k: "A k = Some (Some q, a, b)" using h by simp
      then have "q \<noteq> i" using assms(4) by blast
      have "A q \<noteq> Some (r, a', ''file'')" by (rule leaves_okD[OF assms(2) k])
      then show ?thesis using \<open>q \<noteq> i\<close> by simp
    qed
  qed
qed

lemma shape_rename:
  assumes "names_ok A" "leaves_ok A" "A i = Some (p, s0, ty)"
    and "\<forall>k q s' ty'. p = Some q \<and> k \<noteq> i \<and> A k = Some (Some q, s', ty') \<longrightarrow> to_lower s' \<noteq> to_lower s"
  shows "names_ok (A(i \<mapsto> (p, s, ty)))" "leaves_ok (A(i \<mapsto> (p, s, ty)))"
proof -
  let ?B = "A(i \<mapsto> (p, s, ty))"
  show "names_ok ?B" unfolding names_ok_def
  proof (intro allI impI)
    fix k k' q a a' b b' assume h: "?B k = Some (Some q, a, b) \<and> ?B k' = Some (Some q, a', b') \<and> to_lower a = to_lower a'"
    consider "k = i" "k' = i" | "k = i" "k' \<noteq> i" | "k \<noteq> i" "k' = i" | "k \<noteq> i" "k' \<noteq> i" by blast
    then show "k = k'"
    proof cases
      case 2
      then have "p = Some q" "A k' = Some (Some q, a', b')" "to_lower a' = to_lower s" using h by simp_all
      then show ?thesis using assms(4) 2 by blast
    next
      case 3
      then have "p = Some q" "A k = Some (Some q, a, b)" "to_lower a = to_lower s" using h by simp_all
      then show ?thesis using assms(4) 3 by blast
    next
      case 4
      then have "A k = Some (Some q, a, b)" "A k' = Some (Some q, a', b')" "to_lower a = to_lower a'" using h by simp_all
      then show ?thesis using assms(1) unfolding names_ok_def by blast
    qed simp
  qed
  show "leaves_ok ?B" unfolding leaves_ok_def
  proof (intro allI impI)
    fix k q a b r a' assume h: "?B k = Some (Some q, a, b)"
    obtain a0 where k: "A k = Some (Some q, a0, b)" using h assms(3) by (cases "k = i") simp_all
    have q: "A q \<noteq> Some (r, x, ''file'')" for x by (rule leaves_okD[OF assms(2) k])
    show "?B q \<noteq> Some (r, a', ''file'')" using q[of s0] q[of a'] assms(3) by (cases "q = i") simp_all
  qed
qed

lemma shape_restrict:
  assumes "names_ok A" "leaves_ok A" "\<And>k. B k = A k \<or> B k = None"
  shows "names_ok B" "leaves_ok B"
proof -
  have B: "A k = Some x" if "B k = Some x" for k x using assms(3)[of k] that by simp
  show "names_ok B" unfolding names_ok_def
    by (intro allI impI, elim conjE, rule names_okD[OF assms(1) B B]) 
  show "leaves_ok B" unfolding leaves_ok_def
  proof (intro allI impI notI)
    fix k q a b r a' assume "B k = Some (Some q, a, b)" "B q = Some (r, a', ''file'')"
    then show False using leaves_okD[OF assms(2) B] B by blast
  qed
qed

lemma put_first_ok:
  assumes "jt_ok (jt_model t)" "jt_model t par = Some n" "i \<in> set (j_children n)"
  shows "jt_ok (jt_model (put_first par i t))" "shape_of (jt_model (put_first par i t)) = shape_of (jt_model t)"
    "jt_types (put_first par i t) = jt_types t"
proof -
  let ?m = "jt_model (put_first par i t)"
  have A: "paths_of ?m = paths_of (jt_model t)"
    by (rule ext) (simp add: paths_of_def put_first_def jupd_apply option.map_comp comp_def)
  show "jt_ok ?m"
  proof (rule jt_okI[OF A jt_okD(1)[OF assms(1)]])
    fix a x assume x: "?m a = Some x"
    show "node_ok (paths_of (jt_model t)) a x"
    proof (cases "a = par")
      case True
      then have "x = n\<lparr>j_children := i # remove1 i (j_children n)\<rparr>" using x assms(2) by (simp add: put_first_def jupd_apply)
      then show ?thesis using jt_okD(2)[OF assms(1,2)] assms(3) True by (auto simp: node_ok_def)
    next
      case False
      then show ?thesis using x jt_okD(2)[OF assms(1)] by (simp add: put_first_def jupd_apply)
    qed
  qed
  show "shape_of ?m = shape_of (jt_model t)"
    by (rule ext) (simp add: shape_of_def put_first_def jupd_apply option.map_comp comp_def)
  show "jt_types (put_first par i t) = jt_types t" by (simp add: put_first_def)
qed

lemma create_node_shape:
  assumes ok: "jt_ok (jt_model t)" and fresh: "jt_model t i = None"
    and c: "create_node par i s ty d t = Some (r, t')" and p: "get_node t par = Some p"
  shows "shape_of (jt_model t') = (shape_of (jt_model t))(i \<mapsto> (Some (j_id p), s, known_type t ty))"
    "jt_types t' = jt_types t" "valid_child t p ty"
    "\<exists>n. jt_model t' (j_id p) = Some n \<and> i \<in> set (j_children n)"
proof -
  obtain p' where p': "get_node t par = Some p'" "jt_model t (j_id p') = Some p'" and k: "\<And>k. jt_model t' k =
    (if k = i then Some \<lparr>j_id = i, j_text = s, j_type = known_type t ty, j_parent = Some (j_id p'),
        j_parents = j_id p' # j_parents p', j_children = [], j_children_d = [], j_data = d\<rparr>
     else map_option (\<lambda>x. x\<lparr>j_children := j_children x @ (if k = j_id p' then [i] else []),
        j_children_d := j_children_d x @ (if k = j_id p' \<or> k \<in> set (j_parents p') then [i] else [])\<rparr>) (jt_model t k))"
    using create_node_model[OF ok fresh c] by blast
  have e: "p' = p" using p' p by simp
  show "shape_of (jt_model t') = (shape_of (jt_model t))(i \<mapsto> (Some (j_id p), s, known_type t ty))"
    by (rule ext) (simp add: shape_of_def k e option.map_comp comp_def)
  have "i \<noteq> j_id p" using fresh p' e by auto
  then show "\<exists>n. jt_model t' (j_id p) = Some n \<and> i \<in> set (j_children n)" using p' e by (simp add: k)
  show "jt_types t' = jt_types t" "valid_child t p ty" using c p by (auto simp: create_node_def Let_def split: if_splits)
qed

lemma create_unique_ok:
  assumes ok: "files_ok t" and fresh: "jt_model t i = None" and c: "create_unique par i ty first d t = Some t'"
  shows "files_ok t'"
proof -
  let ?A = "shape_of (jt_model t)"
  note j = files_okD[OF ok]
  obtain p r t1 where p: "get_node t par = Some p" and c1: "create_node par i (new_name (child_names t p)) ty d t = Some (r, t1)"
    and t': "t' = (if first then put_first (j_id p) i t1 else t1)"
    using c by (auto simp: create_unique_def split: option.splits)
  note m = get_node_id[OF j(1) p]
  note cs = create_node_shape[OF j(1) fresh c1 p]
  have j1: "jt_ok (jt_model t1)" using create_node_ok[OF j(1) fresh c1] by blast
  have i: "?A i = None" "j_id p \<noteq> i" using fresh m by (auto simp: shape_of_def)
  have up: "\<forall>k r s ty. ?A k = Some (r, s, ty) \<longrightarrow> r \<noteq> Some i"
  proof (intro allI impI notI)
    fix k r s ty assume "?A k = Some (r, s, ty)" "r = Some i"
    then obtain n where n: "jt_model t k = Some n" "j_parent n = Some i" by (auto simp: shape_of_def)
    then have "i \<in> set (j_parents n)" using node_okD(3)[OF jt_okD(2)[OF j(1) n(1)]] by (cases "j_parents n") simp_all
    then show False using node_in_parents[OF j(1) n(1), of i] fresh by simp
  qed
  have nm: "\<forall>k s' ty'. ?A k = Some (Some (j_id p), s', ty') \<longrightarrow> to_lower s' \<noteq> to_lower (new_name (child_names t p))"
    using new_name_free[of "child_names t p"] child_names_set[OF j(1) m] by metis
  have "j_type p \<noteq> ''file''" using cs(3) by (auto simp: valid_child_def j(2) files_types_def)
  then have "\<forall>r s'. ?A (j_id p) \<noteq> Some (r, s', ''file'')" using m by (simp add: shape_of_def)
  note sh = shape_add[OF j(3,4) i(1) up nm this i(2)]
  show ?thesis using sh cs(1,2,4) j1 j(2) put_first_ok[OF j1, of "j_id p"] by (auto simp: files_ok_def t')
qed

lemma rename_unique_ok:
  assumes ok: "files_ok t" and r: "rename_unique i s t = Some t'"
  shows "files_ok t'"
proof -
  let ?A = "shape_of (jt_model t)"
  note j = files_okD[OF ok]
  obtain n where n: "get_node t i = Some n" using r by (cases "get_node t i") (simp_all add: rename_unique_def)
  have t': "t' = jt_set_text (j_id n) s t" using r n by (auto simp: rename_unique_def rename_node_def Let_def split: if_splits)
  have free: "to_lower (j_text n) = to_lower s"
    if "j_parent n = Some q" "jt_model t q = Some par" "to_lower s \<in> set (child_names t par)" for q par
    using r n that by (auto simp: rename_unique_def Let_def split: if_splits)
  note m = get_node_id[OF j(1) n]
  have Ai: "?A (j_id n) = Some (j_parent n, j_text n, j_type n)" by (simp add: shape_of_def m)
  have g: "get_node t (j_id n) = Some n" by (simp add: get_node_def m)
  have A': "shape_of (jt_model t') = ?A(j_id n \<mapsto> (j_parent n, s, j_type n))"
    by (rule ext) (simp add: t' jt_set_text_def g shape_of_def jupd_apply m)
  have "\<forall>k q s' ty'. j_parent n = Some q \<and> k \<noteq> j_id n \<and> ?A k = Some (Some q, s', ty') \<longrightarrow> to_lower s' \<noteq> to_lower s"
  proof (intro allI impI notI, elim conjE)
    fix k q s' ty' assume q: "j_parent n = Some q" and k: "k \<noteq> j_id n" "?A k = Some (Some q, s', ty')" "to_lower s' = to_lower s"
    have "q \<in> set (j_parents n)" using q node_okD(3)[OF jt_okD(2)[OF j(1) m]] by (cases "j_parents n") simp_all
    then obtain par where par: "jt_model t q = Some par" using node_in_parents[OF j(1) m] by blast
    have "to_lower s \<in> set (child_names t par)" unfolding child_names_set[OF j(1) par] using k by metis
    then have "to_lower (j_text n) = to_lower s" by (rule free[OF q par])
    then show False using names_okD[OF j(3) k(2), of "j_id n" "j_text n" "j_type n"] Ai q k by simp
  qed
  note sh = shape_rename[OF j(3,4) Ai this]
  have "jt_ok (jt_model t')" unfolding t' by (rule field_writes_ok[OF j(1)])
  moreover have "jt_types t' = files_types" using j(2) by (simp add: t' jt_set_text_def g)
  ultimately show ?thesis using sh by (simp add: files_ok_def A')
qed

lemma shape_jupd:
  assumes "\<And>x. j_parent (f x) = j_parent x \<and> j_text (f x) = j_text x \<and> j_type (f x) = j_type x"
  shows "shape_of (jupd i f m) = shape_of m"
  by (rule ext) (simp add: shape_of_def jupd_apply option.map_comp comp_def assms)

lemma shape_jupds:
  assumes "\<And>x. j_parent (f x) = j_parent x \<and> j_text (f x) = j_text x \<and> j_type (f x) = j_type x"
  shows "shape_of (jupds is f m) = shape_of m"
  by (induction "is" arbitrary: m) (simp_all add: jupds_def shape_jupd[of f, OF assms])

lemma delete_node_files_ok:
  assumes ok: "files_ok t" and d: "delete_node i t = Some t'"
  shows "files_ok t'"
proof -
  note j = files_okD[OF ok]
  have del: "shape_of (jupds is (del_desc g) m) = shape_of m" for "is" g and m :: "'a jmodel"
    by (rule shape_jupds) (simp add: del_desc_def)
  have rem: "shape_of (jupd e (\<lambda>x. x\<lparr>j_children := remove1 a (j_children x)\<rparr>) m) = shape_of m" for e a and m :: "'a jmodel"
    by (rule shape_jupd) simp
  obtain b where b: "get_node t i = Some b" "j_id b \<noteq> jroot" using d by (auto simp: delete_node_def split: option.splits if_splits)
  have "jt_model t' = (\<lambda>k. if k \<in> set (j_children_d b @ [j_id b]) then None
      else jupds (j_parents b) (del_desc (j_children_d b @ [j_id b])) (case j_parent b of None \<Rightarrow> jt_model t
        | Some e \<Rightarrow> jupd e (\<lambda>x. x\<lparr>j_children := remove1 (j_id b) (j_children x)\<rparr>) (jt_model t)) k)"
    using d b by (auto simp: delete_node_def Let_def)
  then have "shape_of (jt_model t') k = (if k \<in> set (j_children_d b @ [j_id b]) then None
      else shape_of (jupds (j_parents b) (del_desc (j_children_d b @ [j_id b])) (case j_parent b of None \<Rightarrow> jt_model t
        | Some e \<Rightarrow> jupd e (\<lambda>x. x\<lparr>j_children := remove1 (j_id b) (j_children x)\<rparr>) (jt_model t))) k)" for k
    by (simp add: shape_of_def)
  then have "shape_of (jt_model t') k = shape_of (jt_model t) k \<or> shape_of (jt_model t') k = None" for k
    unfolding del by (cases "j_parent b") (simp_all add: rem)
  note sh = shape_restrict[OF j(3,4) this]
  have "jt_types t' = jt_types t" using d by (auto simp: delete_node_def Let_def split: option.splits if_splits)
  then show ?thesis using sh delete_node_ok[OF j(1) d] j(2) by (simp add: files_ok_def)
qed

lemma node_data_files_ok:
  assumes "files_ok t"
  shows "files_ok (set_node_data i f t)"
proof -
  have "shape_of (jt_model (set_node_data i f t)) = shape_of (jt_model t)"
    by (rule ext) (simp add: shape_of_def set_node_data_def jupd_apply option.map_comp comp_def)
  then show ?thesis using files_okD[OF assms] field_writes_ok[OF files_okD(1)[OF assms]]
    by (simp add: files_ok_def set_node_data_def)
qed

lemma selection_files_ok [simp]:
  "files_ok (deselect_all t) = files_ok t" "files_ok (jt_deselect i t) = files_ok t" "files_ok (snd (jt_select_node i t)) = files_ok t"
  by (simp_all add: files_ok_def deselect_all_def jt_deselect_def jt_select_node_def split: option.split)

section \<open>The invariant of the editor\<close>

text \<open>
  Selected nodes are nodes of the tree below the root, no span of the cache carries the attribute the
  cache is searched by, and unsaved changes are shown for an editable file only.
\<close>

definition sel_ok :: "'d jstree \<Rightarrow> bool" where
  "sel_ok t = (\<forall>i \<in> set (jt_selected t). i \<noteq> jroot \<and> jt_model t i \<noteq> None)"

definition ft_base :: "files_page \<Rightarrow> bool" where
  "ft_base p = (files_ok (ft_tree p) \<and> sel_ok (ft_tree p) \<and> (\<forall>s \<in> set (ft_cache p). cs_hashsum s = None))"

definition ft_inv :: "files_page \<Rightarrow> bool" where
  "ft_inv p = (ft_base p \<and> (ft_status p \<longrightarrow> \<not> ft_readonly p))"

lemma ft_more:
  fixes p q :: files_page
  assumes "page.more p = page.more q"
  shows "ft_tree p = ft_tree q" "ft_cache p = ft_cache q" "ft_status p = ft_status q" "ft_readonly p = ft_readonly q"
    "ft_waiting p = ft_waiting q" "ft_value p = ft_value q" "ft_filename p = ft_filename q"
  using assms by (cases p; cases q; simp)+

lemmas ft_frame_defs = send_def emit_def navigate_def modal_def err_notify_def success_notify_def update_def

lemma ft_tree_frame [simp]:
  fixes p :: files_page
  shows "ft_tree (emit x p) = ft_tree p" "ft_tree (send m u d g p) = ft_tree p" "ft_tree (modal i c p) = ft_tree p"
    "ft_tree (navigate u p) = ft_tree p" "ft_tree (err_notify s n p) = ft_tree p" "ft_tree (success_notify s n p) = ft_tree p"
    "ft_tree (update P f p) = ft_tree p"
  by (simp_all add: ft_frame_defs)

lemma ft_base_more: "page.more p = page.more q \<Longrightarrow> ft_base p = ft_base (q :: files_page)"
  unfolding ft_base_def using ft_more[of p q] by simp

lemma ft_inv_more: "page.more p = page.more q \<Longrightarrow> ft_inv p = ft_inv (q :: files_page)"
  unfolding ft_inv_def using ft_more[of p q] ft_base_more[of p q] by simp

lemma ft_inv_frame [simp]:
  "ft_inv (emit x p) = ft_inv p" "ft_inv (send m u d g p) = ft_inv p" "ft_inv (modal i c p) = ft_inv p"
  "ft_inv (navigate u p) = ft_inv p" "ft_inv (err_notify s n p) = ft_inv p" "ft_inv (success_notify s n p) = ft_inv p"
  "ft_inv (update P f p) = ft_inv p" "ft_inv (dimmer_off p) = ft_inv p"
  by (rule ft_inv_more, simp)+

lemma ft_inv_notify_all [simp]: "ft_inv (foldl (\<lambda>q x. err_notify x None q) p xs) = ft_inv p"
  by (induction xs arbitrary: p) simp_all

lemma ft_inv_waiting [simp]: "ft_inv (p\<lparr>ft_waiting := ws\<rparr>) = ft_inv p" "ft_inv (await w p) = ft_inv p"
  "ft_inv (answered k p) = ft_inv p"
  by (simp_all add: ft_inv_def ft_base_def await_def answered_def)

lemma ft_inv_calls [simp]:
  "ft_inv (upload_file d g p) = ft_inv p" "ft_inv (upload_errors json p) = ft_inv p"
  "ft_inv (ajaxError json p) = ft_inv p" "ft_inv (confirm_ready m p) = ft_inv p"
  "ft_inv (clear_form c m p) = ft_inv p"
  by (simp_all add: upload_file_def upload_errors_def ajaxError_def Let_def confirm_ready_def clear_form_def)

lemma ft_invD: "ft_inv p \<Longrightarrow> ft_base p" by (simp add: ft_inv_def)

lemma clear_editor_inv [simp]: "ft_inv (clear_editor p) = ft_base p"
  by (simp add: ft_inv_def ft_base_def clear_editor_def)

lemma set_editor_value_inv [simp]: "ft_inv p \<Longrightarrow> ft_inv (set_editor_value f c p)"
  by (simp add: ft_inv_def ft_base_def set_editor_value_def)

lemma load_file_content_inv: "ft_inv p \<Longrightarrow> ft_inv (load_file_content n p)"
  by (simp add: load_file_content_def split: option.split)

lemma load_file_done_inv: "ft_inv p \<Longrightarrow> ft_inv (load_file_done r s p)"
  by (auto simp: load_file_done_def Let_def ft_inv_def ft_base_def set_editor_value_def)

lemma on_select_inv: "ft_base p \<Longrightarrow> ft_inv (on_select n p)"
  by (simp add: on_select_def Let_def load_file_content_inv)

lemma editor_tree [simp]:
  "ft_tree (clear_editor p) = ft_tree p" "ft_tree (set_editor_value f c p) = ft_tree p" "ft_tree (await w p) = ft_tree p"
  by (simp_all add: clear_editor_def set_editor_value_def await_def)

lemma on_select_tree: "ft_tree (on_select n p) = ft_tree p"
  by (simp add: on_select_def Let_def load_file_content_def split: option.split)

lemma ft_base_tree: "ft_base p \<Longrightarrow> files_ok t \<Longrightarrow> sel_ok t \<Longrightarrow> ft_base (p\<lparr>ft_tree := t\<rparr>)"
  by (simp add: ft_base_def)

lemma ft_inv_tree: "ft_inv p \<Longrightarrow> files_ok t \<Longrightarrow> sel_ok t \<Longrightarrow> ft_inv (p\<lparr>ft_tree := t\<rparr>)"
  by (simp add: ft_inv_def ft_base_def)

lemma ft_baseD: "ft_base p \<Longrightarrow> files_ok (ft_tree p)" "ft_base p \<Longrightarrow> sel_ok (ft_tree p)" "ft_base p \<Longrightarrow> jt_ok (jt_model (ft_tree p))"
  by (simp_all add: ft_base_def files_ok_def)

lemma sel_ok_selection [simp]: "sel_ok (deselect_all t)" "sel_ok t \<Longrightarrow> sel_ok (jt_deselect i t)"
  by (auto simp: sel_ok_def deselect_all_def jt_deselect_def split: option.split)

lemma sel_ok_select:
  assumes "jt_ok (jt_model t)" "sel_ok t"
  shows "sel_ok (snd (jt_select_node i t))"
  using assms(2) get_node_id[OF assms(1), of i] by (auto simp: sel_ok_def jt_select_node_def split: option.split)

lemma select_in_tree_inv:
  assumes "ft_base p" "ft_status p \<longrightarrow> \<not> ft_readonly p \<or> fst (jt_select_node i (ft_tree p)) \<noteq> None"
  shows "ft_inv (select_in_tree i p)"
proof -
  define t where "t = snd (jt_select_node i (ft_tree p))"
  have t: "files_ok t" "sel_ok t" using ft_baseD[OF assms(1)] sel_ok_select by (simp_all add: t_def)
  show ?thesis
  proof (cases "fst (jt_select_node i (ft_tree p))")
    case None
    then have "select_in_tree i p = p\<lparr>ft_tree := t\<rparr>" by (simp add: select_in_tree_def t_def case_prod_beta)
    moreover have "ft_inv p" using assms None by (auto simp: ft_inv_def)
    ultimately show ?thesis using ft_inv_tree t by simp
  next
    case (Some n)
    then have "select_in_tree i p = on_select n (p\<lparr>ft_tree := t\<rparr>)" by (simp add: select_in_tree_def t_def case_prod_beta)
    then show ?thesis using on_select_inv ft_base_tree[OF assms(1) t] by simp
  qed
qed

lemma select_in_tree_keeps: "ft_inv p \<Longrightarrow> ft_inv (select_in_tree i p)"
  by (rule select_in_tree_inv) (auto simp: ft_inv_def)

lemma deselect_in_tree_inv: "ft_inv p \<Longrightarrow> ft_inv (deselect_in_tree i p)"
  by (simp add: deselect_in_tree_def ft_inv_tree ft_baseD ft_invD)

lemma click_node_inv: "ft_inv p \<Longrightarrow> ft_inv (click_node c i p)"
  by (auto simp: click_node_def ft_inv_tree ft_baseD ft_invD intro!: select_in_tree_keeps deselect_in_tree_inv split: option.split)

lemma ref_set_hash_inv:
  assumes "ft_inv p"
  shows "ft_inv (ref_set_hash r h p)"
proof (cases r)
  case (Live i)
  have "sel_ok (set_node_data i f t) = sel_ok t" for f and t :: "string option jstree"
    unfolding sel_ok_def set_node_data_def by (rule ball_cong) (simp_all add: jupd_apply)
  then show ?thesis using Live ft_baseD[OF ft_invD[OF assms]] assms
    by (simp add: ref_set_hash_def ft_inv_tree node_data_files_ok)
qed (simp add: ref_set_hash_def assms)

lemma create_unique_sel:
  assumes "jt_ok (jt_model t)" "jt_model t i = None" "create_unique par i ty first d t = Some t'" "sel_ok t"
  shows "sel_ok t'"
proof -
  obtain p r t1 where c: "create_node par i (new_name (child_names t p)) ty d t = Some (r, t1)"
    and p: "get_node t par = Some p" and t': "t' = (if first then put_first (j_id p) i t1 else t1)"
    using assms(3) by (auto simp: create_unique_def split: option.splits)
  have "jt_selected t1 = jt_selected t" using c p by (auto simp: create_node_def Let_def split: if_splits)
  moreover have "jt_model t1 k \<noteq> None" if "jt_model t k \<noteq> None" for k
    using create_node_model[OF assms(1,2) c] that by auto
  ultimately have "sel_ok t1" using assms(4) by (simp add: sel_ok_def)
  then show ?thesis by (simp add: t' sel_ok_def put_first_def jupd_apply)
qed

lemma create_in_inv:
  assumes "ft_inv p" "unused_id i p"
  shows "ft_inv (create_in par i ty first w p)"
proof (cases "create_unique par i ty first None (ft_tree p)")
  case (Some t)
  note b = ft_baseD[OF ft_invD[OF assms(1)]] assms(2)[unfolded unused_id_def]
  have "files_ok t" by (rule create_unique_ok[OF b(1,4) Some])
  moreover have "sel_ok t" by (rule create_unique_sel[OF b(3,4) Some b(2)])
  ultimately show ?thesis using assms(1) by (simp add: create_in_def Some ft_inv_tree)
qed (simp add: create_in_def assms)

lemma rename_unique_sel: "rename_unique i s t = Some t' \<Longrightarrow> sel_ok t \<Longrightarrow> sel_ok t'"
  by (auto simp: rename_unique_def rename_node_def jt_set_text_def sel_ok_def Let_def jupd_apply split: option.splits if_splits)

lemma renamed_inv: "ft_inv p \<Longrightarrow> ft_inv (case rename_unique i s (ft_tree p) of None \<Rightarrow> p | Some t \<Rightarrow> p\<lparr>ft_tree := t\<rparr>)"
proof (cases "rename_unique i s (ft_tree p)")
  case (Some t)
  assume p: "ft_inv p"
  note b = ft_baseD[OF ft_invD[OF p]]
  show ?thesis using Some rename_unique_ok[OF b(1) Some] rename_unique_sel[OF Some b(2)] p by (simp add: ft_inv_tree)
qed simp

lemma rename_in_place_inv: "ft_inv p \<Longrightarrow> ft_inv (rename_in_place i s p)"
  using renamed_inv[of p i] unfolding rename_in_place_def by (cases "get_node (ft_tree p) i") simp_all

lemma add_file_timer_inv: "ft_inv p \<Longrightarrow> ft_inv (add_file_timer r par name h p)"
  by (simp add: add_file_timer_def Let_def renamed_inv ref_set_hash_inv deselect_in_tree_inv select_in_tree_keeps)

lemma jupds_some: "(\<exists>y. jupds is f m k = Some y) \<longleftrightarrow> (\<exists>y. m k = Some y)"
  by (induction "is" arbitrary: m) (simp_all add: jupds_def jupd_apply)

lemma remove_node_inv:
  assumes "ft_inv p"
  shows "ft_inv (remove_node i p)"
proof -
  note b = ft_baseD[OF ft_invD[OF assms]]
  have "ft_base (p\<lparr>ft_tree := t, ft_waiting := ws\<rparr>)" if d: "delete_node i (ft_tree p) = Some t" for t ws
  proof -
    have "sel_ok t" using b(2) d by (auto simp: sel_ok_def delete_node_def Let_def jupds_some jupd_apply split: option.splits if_splits)
    then show ?thesis using ft_base_tree[OF ft_invD[OF assms]] delete_node_files_ok[OF b(1) d] by (simp add: ft_base_def)
  qed
  then show ?thesis using assms by (auto simp: remove_node_def Let_def split: option.split)
qed

lemma commit_key_inv: "ft_inv p \<Longrightarrow> ft_inv (commit_key p)"
  by (auto simp: commit_key_def report_rejected_def commit_file_def split: option.split prod.split promise.split if_splits)

lemma commit_done_inv:
  assumes "ft_inv p"
  shows "ft_inv (report_rejected (commit_done r c resp p))"
proof (cases resp)
  case (Hash_resp h)
  have "ft_inv q \<Longrightarrow> ft_inv (q\<lparr>ft_cache := ft_cache q @ [\<lparr>cs_hashsum = None, cs_text = c\<rparr>]\<rparr>)"
    and "ft_inv q \<Longrightarrow> ft_inv (q\<lparr>ft_status := False\<rparr>)" for q
    by (auto simp: ft_inv_def ft_base_def)
  then show ?thesis using Hash_resp ref_set_hash_inv[OF assms] by (simp add: commit_done_def Let_def report_rejected_def)
qed (simp_all add: commit_done_def report_rejected_def assms)

lemma confirm_form_inv: "ft_inv p \<Longrightarrow> ft_inv (snd (confirm_form m w p))"
  by (auto simp: confirm_form_def check_filename_def Let_def split: option.split list.split)

lemma download_file_inv: "ft_inv p \<Longrightarrow> ft_inv (snd (download_file p))"
  by (auto simp: download_file_def split: option.split)

lemma editor_change_inv: "ft_inv p \<Longrightarrow> ft_inv (editor_change s p)"
  by (auto simp: editor_change_def ft_inv_def ft_base_def)

lemma upload_done_inv: "ft_inv p \<Longrightarrow> unused_id i p \<Longrightarrow> ft_inv (upload_done cl name h i p)"
  by (auto simp: upload_done_def add_file_node_def unused_id_def clear_form_def confirm_ready_def Let_def
      intro!: create_in_inv split: option.split)

lemma select_announced:
  assumes "jt_ok (jt_model t)" "sel_ok t" "i \<in> set (jt_selected t)"
  shows "fst (jt_select_node i (jt_deselect i t)) \<noteq> None"
proof -
  obtain n where n: "i \<noteq> jroot" "jt_model t i = Some n" using assms(2,3) by (auto simp: sel_ok_def)
  then have "get_node t i = Some n" "j_id n = i" using node_okD(1)[OF jt_okD(2)[OF assms(1) n(2)]] by (simp_all add: get_node_def)
  then show ?thesis using n by (simp add: jt_deselect_def jt_select_node_def get_node_def)
qed

lemma selection_kept:
  "jt_selected (ft_tree (case rename_unique i s (ft_tree p) of None \<Rightarrow> p | Some t \<Rightarrow> p\<lparr>ft_tree := t\<rparr>)) = jt_selected (ft_tree p)"
  "jt_selected (ft_tree (ref_set_hash r h p)) = jt_selected (ft_tree p)"
  by (auto simp: rename_unique_def rename_node_def jt_set_text_def ref_set_hash_def set_node_data_def Let_def
      split: option.splits nref.splits if_splits)

lemma selected_node_tree: "ft_tree q = ft_tree p \<Longrightarrow> selected_node q = selected_node p"
  unfolding selected_node_def by (simp only:)

lemma selected_node_in: "ft_base p \<Longrightarrow> selected_node p = Some n \<Longrightarrow> j_id n \<in> set (jt_selected (ft_tree p))"
  using node_okD(1)[OF jt_okD(2)[OF ft_baseD(3)]] ft_baseD(2)
  by (fastforce simp: selected_node_def sel_ok_def get_node_def split: list.splits option.splits)

lemma replace_done_inv:
  assumes "ft_inv p"
  shows "ft_inv (snd (replace_done cl name h p))"
proof -
  define p1 where "p1 = confirm_ready replace_modal p"
  have p1: "ft_inv p1" using assms by (simp add: p1_def)
  show ?thesis
  proof (cases "selected_node p1")
    case None
    then show ?thesis using p1 by (simp add: replace_done_def p1_def[symmetric])
  next
    case (Some node)
    define i p2 p3 p4 where "i = j_id node"
      and "p2 = (case rename_unique i name (ft_tree p1) of None \<Rightarrow> p1 | Some t \<Rightarrow> p1\<lparr>ft_tree := t\<rparr>)"
      and "p3 = ref_set_hash (Live i) h p2" and "p4 = (deselect_in_tree i p3)\<lparr>ft_value := [], ft_readonly := True\<rparr>"
    have p3: "ft_inv p3" unfolding p3_def p2_def by (intro ref_set_hash_inv renamed_inv p1)
    have "i \<in> set (jt_selected (ft_tree p3))"
      using selected_node_in[OF ft_invD[OF p1] Some] by (simp add: p3_def p2_def i_def selection_kept)
    then have "fst (jt_select_node i (ft_tree p4)) \<noteq> None"
      using select_announced ft_baseD[OF ft_invD[OF p3]] by (simp add: p4_def deselect_in_tree_def)
    moreover have "ft_base p4" using ft_invD[OF deselect_in_tree_inv[OF p3]] by (simp add: p4_def ft_base_def)
    ultimately have "ft_inv (select_in_tree i p4)" by (intro select_in_tree_inv) simp_all
    then show ?thesis
      by (simp add: replace_done_def p1_def[symmetric] Some i_def[symmetric] p2_def[symmetric] p3_def[symmetric] p4_def[symmetric] Let_def)
  qed
qed

lemma on_answer_inv: "ft_inv p \<Longrightarrow> ft_inv (on_answer cl w resp p)"
  by (cases w; cases resp) (simp_all add: on_answer_def load_file_done_inv commit_done_inv replace_done_inv)

lemma on_timer_inv: "ft_inv p \<Longrightarrow> ft_inv (on_timer w p)"
  by (cases w) (simp_all add: on_timer_def add_file_timer_inv)

lemma answered_frame [simp]: "unused_id i (answered k p) = unused_id i p"
  by (simp add: unused_id_def answered_def)

lemma ft_step_inv: "ft_inv p \<Longrightarrow> ft_inv (ft_step cl p e)"
  by (cases e) (auto simp: ft_step_def click_node_inv create_folder_def create_file_def create_in_inv rename_in_place_inv
      remove_node_inv editor_change_inv commit_key_inv replace_confirm_def new_file_confirm_def confirm_form_inv
      download_file_inv on_answer_inv upload_done_inv on_timer_inv split: waiting.split)

lemma open_first_file_inv: "ft_base p \<Longrightarrow> ft_inv (snd (open_first_file p))"
  by (auto simp: open_first_file_def Let_def intro!: select_in_tree_keeps split: option.split list.split sum.split)

text \<open>The editor is opened on a loaded tree without a selection.\<close>

definition ft_opened :: "files_page \<Rightarrow> bool" where
  "ft_opened p = (\<exists>document t. files_ok t \<and> jt_selected t = [] \<and> p = snd (files_tree_ready t (files_initialize (FilesTree document))))"

lemma ft_opened_inv: "ft_opened p \<Longrightarrow> ft_inv p"
  by (auto simp: ft_opened_def files_tree_ready_def files_initialize_def FilesTree_def emit_def modal_def ft_base_def sel_ok_def
      intro!: open_first_file_inv)

interpretation files_editor: event_machine ft_opened "ft_step cl" ft_inv for cl
  by unfold_locales (simp_all add: ft_opened_inv ft_step_inv)

lemma orphan_is_root:
  assumes "jt_ok m" "m k = Some n" "j_parent n = None"
  shows "k = jroot"
proof -
  note nk = node_okD[OF jt_okD(2)[OF assms(1,2)]]
  have "j_parents n = []" using nk(3) assms(3) by (cases "j_parents n") simp_all
  then show ?thesis using path_last[OF jt_okD(1)[OF assms(1)] nk(2)] by simp
qed

text \<open>A tree of files as the widget loads it: every entry gives the parent, the identifier, the name, the type and the hash sum.\<close>

fun build_files :: "(string \<times> string \<times> string \<times> string \<times> string option) list \<Rightarrow> string option jstree \<Rightarrow> string option jstree" where
  "build_files [] t = t"
| "build_files ((par, i, name, ty, h) # xs) t =
     build_files xs
       (if jt_model t i \<noteq> None then t
        else case create_unique par i ty False h t of
          None \<Rightarrow> t
        | Some t1 \<Rightarrow> (case rename_unique i name t1 of None \<Rightarrow> t1 | Some t2 \<Rightarrow> t2))"

lemma create_unique_selected: "create_unique par i ty first d t = Some t' \<Longrightarrow> jt_selected t' = jt_selected t"
  by (auto simp: create_unique_def create_node_def put_first_def Let_def split: option.splits if_splits)

lemma rename_unique_selected: "rename_unique i s t = Some t' \<Longrightarrow> jt_selected t' = jt_selected t"
  by (auto simp: rename_unique_def rename_node_def jt_set_text_def Let_def split: option.splits if_splits)

lemma build_files_ok:
  "files_ok t \<Longrightarrow> files_ok (build_files xs t) \<and> jt_selected (build_files xs t) = jt_selected t"
proof (induction xs t rule: build_files.induct)
  case (2 par i name ty h xs t)
  define t' where "t' = (if jt_model t i \<noteq> None then t else case create_unique par i ty False h t of None \<Rightarrow> t
    | Some t1 \<Rightarrow> (case rename_unique i name t1 of None \<Rightarrow> t1 | Some t2 \<Rightarrow> t2))"
  have t': "files_ok t' \<and> jt_selected t' = jt_selected t"
  proof (cases "jt_model t i = None \<and> create_unique par i ty False h t \<noteq> None")
    case True
    then obtain t1 where c: "jt_model t i = None" "create_unique par i ty False h t = Some t1" by blast
    show ?thesis
      using create_unique_ok[OF 2(2) c] create_unique_selected[OF c(2)] rename_unique_ok[of t1 i name] rename_unique_selected[of i name t1]
      by (cases "rename_unique i name t1") (simp_all add: t'_def c)
  next
    case False
    then have "t' = t" by (auto simp: t'_def)
    then show ?thesis using 2(2) by simp
  qed
  have "build_files ((par, i, name, ty, h) # xs) t = build_files xs t'" by (simp only: build_files.simps t'_def)
  then show ?case using 2(1)[folded t'_def] t' by simp
qed simp

lemma empty_files_ok: "files_ok (empty_tree files_types d)"
  by (auto simp: files_ok_def empty_tree_def one_node_ok names_ok_def leaves_ok_def shape_of_def split: if_splits)

definition demo_files :: "string option jstree" where
  "demo_files = build_files
     [(''#'', ''r'', ''Files'', ''root'', None), (''r'', ''d'', ''specs'', ''folder'', None),
      (''r'', ''f1'', ''a.c'', ''file'', Some ''h1''), (''r'', ''f2'', ''b.c'', ''file'', Some ''h2'')]
     (empty_tree files_types None)"

lemma demo_files_ok: "files_ok demo_files" "jt_selected demo_files = []"
proof -
  have "files_ok demo_files \<and> jt_selected demo_files = jt_selected (empty_tree files_types None :: string option jstree)"
    unfolding demo_files_def by (rule build_files_ok[OF empty_files_ok])
  then show "files_ok demo_files" "jt_selected demo_files = []" by (simp_all add: empty_tree_def)
qed

definition fnode :: "string \<Rightarrow> string \<Rightarrow> string \<Rightarrow> string option \<Rightarrow> string list \<Rightarrow> string list \<Rightarrow> string list \<Rightarrow> string option \<Rightarrow> file_node" where
  "fnode i s ty par ps cs ds d = \<lparr>j_id = i, j_text = s, j_type = ty, j_parent = par, j_parents = ps,
     j_children = cs, j_children_d = ds, j_data = d\<rparr>"

lemmas names_eval = create_unique_def rename_unique_def child_names_def new_name_def numbered_name_def to_lower_def
  lower_char_def files_types_def jt_eval js_eval Let_def fnode_def

lemma demo_files_eq:
  "demo_files = \<lparr>jt_model =
     [''#'' \<mapsto> fnode ''#'' [] ''#'' None [] [''r''] [''r'', ''d'', ''f1'', ''f2''] None,
      ''r'' \<mapsto> fnode ''r'' ''name'' ''root'' (Some ''#'') [''#''] [''d'', ''f1'', ''f2''] [''d'', ''f1'', ''f2''] None,
      ''d'' \<mapsto> fnode ''d'' ''specs'' ''folder'' (Some ''r'') [''r'', ''#''] [] [] None,
      ''f1'' \<mapsto> fnode ''f1'' ''a.c'' ''file'' (Some ''r'') [''r'', ''#''] [] [] (Some ''h1''),
      ''f2'' \<mapsto> fnode ''f2'' ''b.c'' ''file'' (Some ''r'') [''r'', ''#''] [] [] (Some ''h2'')],
     jt_selected = [], jt_types = files_types\<rparr>"
proof -
  have "jt_selected demo_files = [] \<and> jt_types demo_files = files_types" using demo_files_ok files_okD(2) by blast
  moreover have "jt_model demo_files k = (if k = ''#'' then Some (fnode ''#'' [] ''#'' None [] [''r''] [''r'', ''d'', ''f1'', ''f2''] None)
      else if k = ''r'' then Some (fnode ''r'' ''name'' ''root'' (Some ''#'') [''#''] [''d'', ''f1'', ''f2''] [''d'', ''f1'', ''f2''] None)
      else if k = ''d'' then Some (fnode ''d'' ''specs'' ''folder'' (Some ''r'') [''r'', ''#''] [] [] None)
      else if k = ''f1'' then Some (fnode ''f1'' ''a.c'' ''file'' (Some ''r'') [''r'', ''#''] [] [] (Some ''h1''))
      else if k = ''f2'' then Some (fnode ''f2'' ''b.c'' ''file'' (Some ''r'') [''r'', ''#''] [] [] (Some ''h2'')) else None)" for k
    by (simp add: demo_files_def empty_tree_def names_eval)
  ultimately show ?thesis by (intro jstree.equality ext) simp_all
qed

definition demo_open :: files_page where
  "demo_open = snd (files_tree_ready demo_files (files_initialize (FilesTree [])))"

lemmas editor_eval = ft_step_def files_tree_ready_def files_initialize_def FilesTree_def open_first_file_def
  create_folder_def create_file_def create_in_def put_first_def click_node_def select_in_tree_def on_select_def
  clear_editor_def load_file_content_def hash_of_def cached_def set_editor_value_def await_def answered_def
  on_timer_def is_timer_def answers_def rename_in_place_def unused_id_def isFileReadable_def readable_extensions_def
  getFileExtension_def emit_def modal_def send_def on_answer_def load_file_done_def ref_text_def highlight_mode_def
  selected_node_def jt_deselect_def remove_node_def jt_select_node_def deselect_all_def

lemma demo_open_state:
  "ft_tree demo_open = demo_files\<lparr>jt_selected := [''f1'']\<rparr>" "ft_waiting demo_open = [W_load (Live ''f1'')]"
  "ft_readonly demo_open" "ft_cache demo_open = []"
  by (simp_all add: demo_open_def demo_files_eq editor_eval names_eval)

section \<open>Properties\<close>

text \<open>
  C7. The tree of files is well-formed after every sequence of clicks, edits, renames, removals,
  uploads, answers and timers: the dictionary of nodes is consistent, siblings have different names
  even when the case of the letters is ignored, and nothing hangs below a file.
\<close>

theorem files_tree_well_formed:
  assumes "files_ok t" "jt_selected t = []"
    and "p = foldl (ft_step clone_files) (snd (files_tree_ready t (files_initialize (FilesTree document)))) es"
  shows "jt_ok (jt_model (ft_tree p))
    \<and> (\<forall>k n k' n'. jt_model (ft_tree p) k = Some n \<and> jt_model (ft_tree p) k' = Some n' \<and> k \<noteq> k'
         \<and> j_parent n = j_parent n' \<longrightarrow> to_lower (j_text n) \<noteq> to_lower (j_text n'))
    \<and> (\<forall>k n q par. jt_model (ft_tree p) k = Some n \<and> j_parent n = Some q \<and> jt_model (ft_tree p) q = Some par
         \<longrightarrow> j_type par \<noteq> ''file'')"
proof -
  have "ft_opened (snd (files_tree_ready t (files_initialize (FilesTree document))))" using assms(1,2) by (auto simp: ft_opened_def)
  then have "ft_inv p" unfolding assms(3) by (rule files_editor.run_from_init)
  then have ok: "files_ok (ft_tree p)" by (simp add: ft_inv_def ft_base_def)
  note j = files_okD[OF this]
  show ?thesis
  proof (intro conjI allI impI)
    show "jt_ok (jt_model (ft_tree p))" by (rule j(1))
    fix k n k' n' assume h: "jt_model (ft_tree p) k = Some n \<and> jt_model (ft_tree p) k' = Some n' \<and> k \<noteq> k' \<and> j_parent n = j_parent n'"
    have "j_parent n \<noteq> None"
    proof
      assume "j_parent n = None"
      then have "k = jroot" "k' = jroot" using h orphan_is_root[OF j(1)] by metis+
      then show False using h by simp
    qed
    then obtain q where "shape_of (jt_model (ft_tree p)) k = Some (Some q, j_text n, j_type n)"
        "shape_of (jt_model (ft_tree p)) k' = Some (Some q, j_text n', j_type n')" using h by (auto simp: shape_of_def)
    then show "to_lower (j_text n) \<noteq> to_lower (j_text n')" using names_okD[OF j(3)] h by blast
  next
    fix k n q par assume h: "jt_model (ft_tree p) k = Some n \<and> j_parent n = Some q \<and> jt_model (ft_tree p) q = Some par"
    then have k: "shape_of (jt_model (ft_tree p)) k = Some (Some q, j_text n, j_type n)" by (simp add: shape_of_def)
    show "j_type par \<noteq> ''file''" using leaves_okD[OF j(4) k, of "j_parent par" "j_text par"] h by (simp add: shape_of_def)
  qed
qed

lemma small_letters: "char_of (97::nat) = CHR ''a''" "char_of (99::nat) = CHR ''c''"
  by code_simp+

theorem files_tree_well_formed_witness:
  "\<exists>p. p = foldl (ft_step id) (snd (files_tree_ready demo_files (files_initialize (FilesTree []))))
      [New_file ''r'' ''n1'', Rename ''n1'' ''A.C'', New_file ''f1'' ''n2'', Remove_node ''r'']
    \<and> jt_ok (jt_model (ft_tree p))
    \<and> map (\<lambda>k. map_option j_text (jt_model (ft_tree p) k)) [''f1'', ''n1'', ''n2'', ''r'']
      = [Some ''a.c'', Some ''name'', None, Some ''name'']"
proof (intro exI conjI)
  let ?es = "[New_file ''r'' ''n1'', Rename ''n1'' ''A.C'', New_file ''f1'' ''n2'', Remove_node ''r'']"
  let ?p = "foldl (ft_step id) (snd (files_tree_ready demo_files (files_initialize (FilesTree [])))) ?es"
  show "?p = ?p" ..
  show "jt_ok (jt_model (ft_tree ?p))" using files_tree_well_formed[OF demo_files_ok refl] by blast
  show "map (\<lambda>k. map_option j_text (jt_model (ft_tree ?p) k)) [''f1'', ''n1'', ''n2'', ''r'']
      = [Some ''a.c'', Some ''name'', None, Some ''name'']"
    unfolding demo_open_def[symmetric]
    by (simp add: editor_eval demo_open_state demo_files_eq names_eval small_letters)
qed

lemma first_file_loop_spec:
  assumes "\<forall>c \<in> set cs. m c \<noteq> None"
  shows "first_file_loop m cs found = Inr (case find (\<lambda>c. \<exists>n. m c = Some n \<and> j_type n = ''file'' \<and> j_text n = def_file_to_open) cs of
      Some c \<Rightarrow> Some c
    | None \<Rightarrow> if found \<noteq> None then found
        else find (\<lambda>c. \<exists>n. m c = Some n \<and> j_type n = ''file'' \<and> isFileReadable (j_text n)) cs)"
  using assms
proof (induction cs arbitrary: found)
  case (Cons c cs)
  then obtain n where "m c = Some n" by auto
  then show ?case using Cons by (auto split: option.split)
qed simp

lemma default_readable: "isFileReadable def_file_to_open"
  by (simp add: isFileReadable_def readable_extensions_def getFileExtension_def)

text \<open>
  C34. When the tree of a decision's files is loaded, the editor opens the file \<open>job.json\<close> among the direct
  children of the root, else the first readable file among them, else nothing; the chosen file is
  the only selected node, its content is requested when it has a hash sum that is not cached, and it
  is opened empty when it has none.
\<close>

theorem first_file_opened:
  assumes "files_ok t" "jt_selected t = []" "jt_model t jroot = Some top_node" "j_children top_node = root_id # rest"
    and "jt_model t root_id = Some root"
    and "q = snd (files_tree_ready t p)"
    and "chosen = (case find (\<lambda>c. \<exists>n. jt_model t c = Some n \<and> j_type n = ''file'' \<and> j_text n = def_file_to_open) (j_children root) of
        Some c \<Rightarrow> Some c
      | None \<Rightarrow> find (\<lambda>c. \<exists>n. jt_model t c = Some n \<and> j_type n = ''file'' \<and> isFileReadable (j_text n)) (j_children root))"
  shows "fst (files_tree_ready t p) = None \<and> (case chosen of
      None \<Rightarrow> jt_selected (ft_tree q) = [] \<and> ft_readonly q \<and> out q = out p @ [Widget ''.file-tree'' ''open_node'' [JStr root_id]]
    | Some c \<Rightarrow> jt_selected (ft_tree q) = [c] \<and> (\<exists>n. jt_model t c = Some n \<and> (case hash_of n of
        None \<Rightarrow> ft_filename q = j_text n \<and> ft_value q = [] \<and> \<not> ft_readonly q
      | Some h \<Rightarrow> cached h p = [] \<longrightarrow>
          out q = out p @ [Widget ''.file-tree'' ''open_node'' [JStr root_id],
            ajax ''GET'' (format_str [h] get_file_url) (JObj []) ''load_file_content''])))"
proof -
  note j = files_okD[OF assms(1)]
  have kids: "\<forall>c \<in> set (j_children root). jt_model t c \<noteq> None \<and> c \<noteq> jroot"
  proof
    fix c assume "c \<in> set (j_children root)"
    then obtain n where n: "jt_model t c = Some n" "j_parent n = Some root_id" using child_iff[OF j(1) assms(5)] by blast
    have "j_parents top_node = []" using node_okD(2)[OF jt_okD(2)[OF j(1) assms(3)]] ok_paths_root[OF jt_okD(1)[OF j(1)]] by simp
    then have "c \<noteq> jroot" using n assms(3) node_okD(3)[OF jt_okD(2)[OF j(1) assms(3)]] by auto
    then show "jt_model t c \<noteq> None \<and> c \<noteq> jroot" using n by simp
  qed
  let ?p = "clear_editor (emit (Widget ''.file-tree'' ''open_node'' [JStr root_id]) (p\<lparr>ft_init := True, ft_tree := t\<rparr>))"
  have tr: "ft_tree ?p = t" by (simp add: clear_editor_def)
  have ff: "first_file_loop (jt_model t) (j_children root) None = Inr chosen"
    using first_file_loop_spec[of "j_children root" "jt_model t" None] kids unfolding assms(7) by simp
  show ?thesis
  proof (cases chosen)
    case None
    then show ?thesis using assms(3-5) ff
      by (simp add: assms(6) files_tree_ready_def open_first_file_def Let_def tr) (simp add: clear_editor_def emit_def assms(2))
  next
    case (Some c)
    then have "c \<in> set (j_children root) \<and> (\<exists>n. jt_model t c = Some n \<and> j_type n = ''file'' \<and> isFileReadable (j_text n))"
      unfolding assms(7) by (auto dest!: find_SomeD simp: default_readable split: option.splits)
    then obtain n where c: "jt_model t c = Some n" "c \<noteq> jroot" and n: "j_type n = ''file''" "isFileReadable (j_text n)" using kids by blast
    have "j_id n = c" using node_okD(1)[OF jt_okD(2)[OF j(1) c(1)]] .
    then have sel: "jt_select_node c t = (Some n, t\<lparr>jt_selected := [c]\<rparr>)" using c by (simp add: jt_select_node_def get_node_def assms(2))
    have "files_tree_ready t p = (None, on_select n (?p\<lparr>ft_tree := t\<lparr>jt_selected := [c]\<rparr>\<rparr>))"
      using assms(3-5) ff Some by (simp add: files_tree_ready_def open_first_file_def Let_def tr select_in_tree_def sel)
    then show ?thesis using Some c n
      by (auto simp: assms(6) on_select_tree on_select_def load_file_content_def Let_def clear_editor_def set_editor_value_def
          cached_def await_def send_def emit_def split: option.split)
  qed
qed

theorem first_file_opened_witness:
  "\<exists>top_node root. jt_model demo_files jroot = Some top_node \<and> j_children top_node = [''r''] \<and> jt_model demo_files ''r'' = Some root
    \<and> fst (files_tree_ready demo_files (FilesTree [])) = None
    \<and> jt_selected (ft_tree (snd (files_tree_ready demo_files (FilesTree [])))) = [''f1'']"
proof -
  obtain top_node root where n: "jt_model demo_files jroot = Some top_node" "j_children top_node = [''r'']"
      "jt_model demo_files ''r'' = Some root" "j_children root = [''d'', ''f1'', ''f2'']"
    by (simp add: demo_files_eq jroot_def fnode_def)
  have f: "find (\<lambda>c. \<exists>n. jt_model demo_files c = Some n \<and> j_type n = ''file'' \<and> j_text n = def_file_to_open) (j_children root) = None"
    "find (\<lambda>c. \<exists>n. jt_model demo_files c = Some n \<and> j_type n = ''file'' \<and> isFileReadable (j_text n)) (j_children root) = Some ''f1''"
    by (simp_all add: n(4) demo_files_eq fnode_def isFileReadable_def readable_extensions_def getFileExtension_def)
  show ?thesis using first_file_opened[OF demo_files_ok n(1,2,3) refl refl, of "FilesTree []"] n f by simp
qed

text \<open>
  The cache of the editor is never hit: in every state the editor can reach, a click on a
  readable file with a hash sum clears the editor and asks the server for the content, however
  often the same content has been loaded or committed before.
\<close>

theorem cached_files_are_requested_again:
  assumes "files_ok t" "jt_selected t = []"
    and "p = foldl (ft_step clone_files) (snd (files_tree_ready t (files_initialize (FilesTree document)))) es"
    and "jt_model (ft_tree p) i = Some n" "j_type n = ''file''" "isFileReadable (j_text n)" "hash_of n = Some h" "i \<noteq> jroot"
  shows "out (ft_step clone_files p (Click False i))
      = out p @ [ajax ''GET'' (format_str [h] get_file_url) (JObj []) ''load_file_content'']
    \<and> ft_readonly (ft_step clone_files p (Click False i))
    \<and> jt_selected (ft_tree (ft_step clone_files p (Click False i))) = [i]"
proof -
  have "ft_opened (snd (files_tree_ready t (files_initialize (FilesTree document))))" using assms(1,2) by (auto simp: ft_opened_def)
  then have inv: "ft_inv p" unfolding assms(3) by (rule files_editor.run_from_init)
  have j: "jt_ok (jt_model (ft_tree p))" and none: "cached h p = []"
    using inv by (auto simp: ft_inv_def ft_base_def files_ok_def cached_def filter_empty_conv)
  have id: "j_id n = i" using node_okD(1)[OF jt_okD(2)[OF j assms(4)]] .
  have sel: "jt_select_node i (deselect_all (ft_tree p)) = (Some n, (ft_tree p)\<lparr>jt_selected := [i]\<rparr>)"
    using assms(4,8) id by (simp add: jt_select_node_def get_node_def deselect_all_def)
  have "ft_step clone_files p (Click False i) = on_select n (p\<lparr>ft_tree := (ft_tree p)\<lparr>jt_selected := [i]\<rparr>\<rparr>)"
    using assms(4) by (simp add: ft_step_def click_node_def get_node_def select_in_tree_def sel)
  then show ?thesis using assms(5-7) none
    by (simp add: on_select_def load_file_content_def Let_def cached_def clear_editor_def await_def send_def emit_def)
qed

text \<open>Both files of the example are clicked before an answer comes.\<close>

definition demo_race :: files_page where
  "demo_race = foldl (ft_step id) demo_open [Answer 0 (Text_resp ''int a;''), Click False ''f1'', Click False ''f2'']"

lemma demo_race_state:
  "ft_tree demo_race = demo_files\<lparr>jt_selected := [''f2'']\<rparr>" "ft_waiting demo_race = [W_load (Live ''f1''), W_load (Live ''f2'')]"
  "ft_cache demo_race = [\<lparr>cs_hashsum = None, cs_text = ''int a;''\<rparr>]"
  by (simp_all add: demo_race_def editor_eval demo_open_state demo_files_eq names_eval)

theorem cached_files_are_requested_again_witness:
  "\<exists>p n. p = foldl (ft_step id) (snd (files_tree_ready demo_files (files_initialize (FilesTree [])))) [Answer 0 (Text_resp ''int a;'')]
    \<and> jt_model (ft_tree p) ''f1'' = Some n \<and> hash_of n = Some ''h1'' \<and> map cs_text (ft_cache p) = [''int a;'']
    \<and> out (ft_step id p (Click False ''f1''))
      = out p @ [ajax ''GET'' (format_str [''h1''] get_file_url) (JObj []) ''load_file_content'']"
proof -
  define p where "p = foldl (ft_step id) (snd (files_tree_ready demo_files (files_initialize (FilesTree [])))) [Answer 0 (Text_resp ''int a;'')]"
  have c: "map cs_text (ft_cache p) = [''int a;'']" and t: "ft_tree p = demo_files\<lparr>jt_selected := [''f1'']\<rparr>"
    unfolding p_def demo_open_def[symmetric] by (simp_all add: editor_eval demo_open_state demo_files_eq names_eval)
  obtain n where n: "jt_model (ft_tree p) ''f1'' = Some n" "j_type n = ''file''" "j_text n = ''a.c''" "j_data n = Some ''h1''"
    by (simp add: t demo_files_eq fnode_def)
  have r: "isFileReadable (j_text n)" "hash_of n = Some ''h1''" "''f1'' \<noteq> jroot"
    by (simp_all add: n isFileReadable_def readable_extensions_def getFileExtension_def hash_of_def jroot_def)
  note again = cached_files_are_requested_again[OF demo_files_ok p_def n(1,2) r, THEN conjunct1]
  show ?thesis by (intro exI[of _ p] exI[of _ n] conjI p_def n(1) r(2) c again)
qed

lemma answer_step:
  "k < length (ft_waiting p) \<Longrightarrow> ft_waiting p ! k = w \<Longrightarrow> answers w resp
    \<Longrightarrow> ft_step cl p (Answer k resp) = on_answer cl w resp (answered k p)"
  by (simp add: ft_step_def)

text \<open>
  C35. Answers are not tied to the selection: when the content of one file arrives while another is
  selected, the editor takes the content and the name of the first, editable, and a change committed
  then is uploaded under the name of the selected file, whose hash sum it becomes.
\<close>

theorem late_answer_overwrites_selected_file:
  assumes "k < length (ft_waiting p)" "ft_waiting p ! k = W_load (Live a)" "jt_model (ft_tree p) a = Some A"
    and "selected_node p = Some B" "j_id B = b" "jt_model (ft_tree p) b = Some B"
    and "q = ft_step clone_files p (Answer k (Text_resp content))"
    and "q' = foldl (ft_step clone_files) q [Change s, Commit_key]"
    and "r = ft_step clone_files q' (Answer (length (ft_waiting q') - 1) (Hash_resp h))"
  shows "selected_node q = Some B \<and> ft_filename q = j_text A \<and> ft_value q = content \<and> \<not> ft_readonly q
    \<and> out q' = out q @ [ajax ''POST'' upload_file_url
        (JObj [(''file'', JObj [(''name'', JStr (j_text B)), (''content'', JStr s)])]) ''commit_file'']
    \<and> map_option j_data (jt_model (ft_tree r) b) = Some (Some h)"
proof -
  have q: "q = load_file_done (Live a) content (answered k p)"
    unfolding assms(7) answer_step[OF assms(1,2), of "Text_resp content" clone_files, unfolded answers_def, simplified]
    by (simp add: on_answer_def)
  have f: "ft_tree q = ft_tree p" "ft_filename q = j_text A" "ft_value q = content" "\<not> ft_readonly q"
    using assms(3) by (simp_all add: q load_file_done_def Let_def set_editor_value_def answered_def ref_text_def)
  have sel: "selected_node q = Some B" using assms(4) selected_node_tree[OF f(1)] by simp
  define q1 where "q1 = q\<lparr>ft_value := s, ft_status := True\<rparr>"
  have q1: "ft_step clone_files q (Change s) = q1" using f(4) by (simp add: ft_step_def editor_change_def q1_def)
  have "selected_node q1 = Some B" using sel selected_node_tree[of q1 q] by (simp add: q1_def)
  then have q': "q' = await (W_commit (Live b) s)
      (upload_file (JObj [(''file'', JObj [(''name'', JStr (j_text B)), (''content'', JStr s)])]) ''commit_file'' q1)"
    using assms(5) by (simp add: assms(8) q1) (simp add: ft_step_def commit_key_def commit_file_def report_rejected_def q1_def)
  have tree: "ft_tree q' = ft_tree p" using f(1) by (simp add: q' upload_file_def q1_def)
  define w where "w = length (ft_waiting q') - 1"
  have w: "w < length (ft_waiting q')" "ft_waiting q' ! w = W_commit (Live b) s" by (simp_all add: w_def q' await_def)
  have "r = on_answer clone_files (W_commit (Live b) s) (Hash_resp h) (answered w q')"
    unfolding assms(9) w_def[symmetric] by (rule answer_step[OF w]) (simp add: answers_def)
  then have "ft_tree r = set_node_data b (\<lambda>_. Some h) (ft_tree p)"
    by (simp add: on_answer_def report_rejected_def commit_done_def Let_def ref_set_hash_def answered_def tree)
  then have "map_option j_data (jt_model (ft_tree r) b) = Some (Some h)"
    using assms(6) by (simp add: set_node_data_def jupd_apply)
  moreover have "out q' = out q @ [ajax ''POST'' upload_file_url
        (JObj [(''file'', JObj [(''name'', JStr (j_text B)), (''content'', JStr s)])]) ''commit_file'']"
    by (simp add: q' await_def upload_file_def q1_def)
  ultimately show ?thesis using sel f by simp
qed

theorem late_answer_overwrites_selected_file_witness:
  "\<exists>B q. selected_node demo_race = Some B \<and> j_text B = ''b.c''
    \<and> q = foldl (ft_step id) demo_race [Answer 0 (Text_resp ''int a;''), Change ''int x;'', Commit_key]
    \<and> last (out q) = ajax ''POST'' upload_file_url
        (JObj [(''file'', JObj [(''name'', JStr ''b.c''), (''content'', JStr ''int x;'')])]) ''commit_file''"
proof -
  have k: "0 < length (ft_waiting demo_race)" "ft_waiting demo_race ! 0 = W_load (Live ''f1'')" by (simp_all add: demo_race_state)
  obtain A B where n: "jt_model (ft_tree demo_race) ''f1'' = Some A" "selected_node demo_race = Some B" "j_id B = ''f2''"
      "jt_model (ft_tree demo_race) ''f2'' = Some B" "j_text B = ''b.c''"
    by (simp add: demo_race_state demo_files_eq fnode_def selected_node_def get_node_def)
  let ?q = "foldl (ft_step id) demo_race [Answer 0 (Text_resp ''int a;''), Change ''int x;'', Commit_key]"
  have q: "?q = foldl (ft_step id) (ft_step id demo_race (Answer 0 (Text_resp ''int a;''))) [Change ''int x;'', Commit_key]"
    by (simp only: foldl_Cons)
  have "out ?q = out (ft_step id demo_race (Answer 0 (Text_resp ''int a;''))) @ [ajax ''POST'' upload_file_url
        (JObj [(''file'', JObj [(''name'', JStr (j_text B)), (''content'', JStr ''int x;'')])]) ''commit_file'']"
    unfolding q using late_answer_overwrites_selected_file[OF k n(1-4) refl refl refl] by blast
  then show ?thesis using n(2,5) by (intro exI[of _ B] exI[of _ ?q]) (simp only: last_snoc simp_thms)
qed

end
