(* ===== verification/Drop_Downs.thy ===== *)
theory Drop_Downs
  imports Page_Model
begin

text \<open>
  Drop-down lists that hold one value, shared by the forms: the browser keeps one option selected when
  options come and go, and Semantic UI's \<open>set selected\<close> moves the selection to the option with a value.
\<close>

text \<open>\<open>children('option:selected').val()\<close>\<close>

definition selected_value :: "opt list \<Rightarrow> jsval" where
  "selected_value os = (case filter o_selected os of [] \<Rightarrow> JUndef | q # _ \<Rightarrow> JStr (o_value q))"

text \<open>\<open>dropdown('set selected', v)\<close> of a list that holds one value.\<close>

definition set_selected :: "string \<Rightarrow> opt list \<Rightarrow> opt list" where
  "set_selected v os =
     (if v \<in> o_value ` set os then map (\<lambda>q. q\<lparr>o_selected := (o_value q = v)\<rparr>) os else os)"

definition one_selected :: "opt list \<Rightarrow> bool" where
  "one_selected os = (length (filter o_selected os) = (if os = [] then 0 else 1))"

definition all_enabled :: "opt list \<Rightarrow> bool" where
  "all_enabled os = (\<forall>q \<in> set os. \<not> o_disabled q)"

lemma upd_first_select:
  "all_enabled os \<Longrightarrow> upd_first (\<lambda>q. \<not> o_disabled q) f os = (case os of [] \<Rightarrow> [] | q # qs \<Rightarrow> f q # qs)"
  by (cases os) (simp_all add: all_enabled_def)

lemma select_some_keeps:
  "map o_value (select_some os) = map o_value os" "map o_text (select_some os) = map o_text os"
  "map (\<lambda>q. (o_value q, o_text q)) (select_some os) = map (\<lambda>q. (o_value q, o_text q)) os"
  "all_enabled os \<Longrightarrow> all_enabled (select_some os)" "select_some os = [] \<longleftrightarrow> os = []"
proof -
  show "all_enabled os \<Longrightarrow> all_enabled (select_some os)"
    by (auto simp: select_some_def upd_first_select all_enabled_def split: list.split)
  show "select_some os = [] \<longleftrightarrow> os = []" by (cases os) (simp_all add: select_some_def)
qed (simp_all add: select_some_def map_upd_first)

lemma one_selected_select_some:
  assumes "all_enabled os" "length (filter o_selected os) \<le> 1"
  shows "one_selected (select_some os)"
proof (cases "filter o_selected os = []")
  case True
  then have "\<not> list_ex o_selected os" by (auto simp: list_ex_iff filter_empty_conv)
  then show ?thesis using assms(1) True by (cases os) (auto simp: select_some_def all_enabled_def one_selected_def)
next
  case False
  then have "list_ex o_selected os" "os \<noteq> []" by (auto simp: list_ex_iff filter_empty_conv)
  then show ?thesis using assms(2) False by (cases "filter o_selected os") (simp_all add: select_some_def one_selected_def)
qed

lemma select_some_append:
  assumes "all_enabled os" "one_selected os"
  shows "one_selected (select_some (os @ [new_opt i n]))" "all_enabled (select_some (os @ [new_opt i n]))"
proof -
  have e: "all_enabled (os @ [new_opt i n])" using assms(1) by (auto simp: all_enabled_def new_opt_def)
  then show "all_enabled (select_some (os @ [new_opt i n]))" by (rule select_some_keeps(4))
  show "one_selected (select_some (os @ [new_opt i n]))"
    using assms(2) by (intro one_selected_select_some[OF e]) (simp add: one_selected_def new_opt_def split: if_splits)
qed

lemma set_selected_keeps:
  "map o_value (set_selected v os) = map o_value os"
  "map (\<lambda>q. (o_value q, o_text q)) (set_selected v os) = map (\<lambda>q. (o_value q, o_text q)) os"
  "all_enabled os \<Longrightarrow> all_enabled (set_selected v os)" "set_selected v os = [] \<longleftrightarrow> os = []"
  by (simp_all add: set_selected_def comp_def all_enabled_def)

lemma distinct_filter_one: "distinct (map f xs) \<Longrightarrow> v \<in> f ` set xs \<Longrightarrow> length (filter (\<lambda>x. f x = v) xs) = 1"
proof (induction xs)
  case (Cons x xs)
  show ?case
  proof (cases "f x = v")
    case True
    then have "filter (\<lambda>x. f x = v) xs = []" using Cons.prems(1) by (auto simp: filter_empty_conv image_iff)
    then show ?thesis using True by simp
  qed (use Cons in auto)
qed simp

lemma one_selected_set:
  assumes "distinct (map o_value os)" "one_selected os \<or> v \<in> o_value ` set os"
  shows "one_selected (set_selected v os)"
proof (cases "v \<in> o_value ` set os")
  case True
  have "filter o_selected (map (\<lambda>q. q\<lparr>o_selected := (o_value q = v)\<rparr>) os)
      = map (\<lambda>q. q\<lparr>o_selected := (o_value q = v)\<rparr>) (filter (\<lambda>q. o_value q = v) os)"
    by (simp add: filter_map comp_def)
  then show ?thesis using True distinct_filter_one[OF assms(1) True] by (auto simp: set_selected_def one_selected_def)
next
  case False
  then show ?thesis using assms(2) by (simp add: set_selected_def)
qed

lemma selected_value_set:
  assumes "v \<in> o_value ` set os"
  shows "selected_value (set_selected v os) = JStr v"
proof -
  have "filter o_selected (set_selected v os) \<noteq> []" "\<forall>q \<in> set (filter o_selected (set_selected v os)). o_value q = v"
    using assms by (auto simp: set_selected_def filter_empty_conv)
  then show ?thesis by (cases "filter o_selected (set_selected v os)") (simp_all add: selected_value_def)
qed

end
