(* ===== verification/Job_Roles.thy ===== *)
theory Job_Roles
  imports Bridge_Utils Drop_Downs "HOL-Library.Multiset"
begin

text \<open>
  The form of the roles of a job (\<open>jobs/static/jobs/js/jobRolesEdit.js\<close>): one role for all users, a list of
  users without a role of their own, and one segment with a drop-down list per user who has one.
  The semantic drop-downs mirror the native lists; \<open>set selected\<close> selects the option with the value.
\<close>

section \<open>The form\<close>

record segment =
  sg_user :: string
  sg_label :: string
  sg_opts :: "opt list"

record roles_page = page +
  rf_global :: "opt list"
  rf_template :: "opt list"
  rf_users :: "opt list"
  rf_users_shown :: bool
  rf_segments :: "segment list"
  rf_names :: "(string \<times> string) list"

definition check_users_length :: "roles_page \<Rightarrow> roles_page" where
  "check_users_length p = p\<lparr>rf_users_shown := (rf_users p \<noteq> [])\<rparr>"

fun drop_first :: "('a \<Rightarrow> bool) \<Rightarrow> 'a list \<Rightarrow> 'a list" where
  "drop_first P [] = []"
| "drop_first P (x # xs) = (if P x then xs else x # drop_first P xs)"

definition remove_user_role :: "string \<Rightarrow> roles_page \<Rightarrow> roles_page" where
  "remove_user_role user_id p =
     (let name = (case map_of (rf_names p) user_id of None \<Rightarrow> [] | Some s \<Rightarrow> s) in
      p\<lparr>rf_users := select_some (rf_users p @ [new_opt user_id name]),
        rf_segments := drop_first (\<lambda>s. sg_user s = user_id) (rf_segments p)\<rparr>)"

definition global_role :: "roles_page \<Rightarrow> jsval" where
  "global_role p = selected_value (rf_global p)"

text \<open>Comparisons with \<open>NaN\<close> are false.\<close>

fun num_le :: "int option \<Rightarrow> int option \<Rightarrow> bool" where
  "num_le (Some a) (Some b) = (a \<le> b)"
| "num_le _ _ = False"

fun num_eq :: "int option \<Rightarrow> int option \<Rightarrow> bool" where
  "num_eq (Some a) (Some b) = (a = b)"
| "num_eq _ _ = False"

definition unselect :: "opt \<Rightarrow> opt" where
  "unselect q = q\<lparr>o_selected := False\<rparr>"

text \<open>
  The loop over the options of a new segment: roles up to the role of all users are disabled, the
  first other option, or the one with the given value, is selected. The list holds one selected
  option, so that selecting one takes the selection from the others.
\<close>

fun role_loop :: "int option \<Rightarrow> string option \<Rightarrow> bool \<Rightarrow> opt list \<Rightarrow> opt list \<Rightarrow> opt list" where
  "role_loop g sv has_selected done [] = done"
| "role_loop g sv has_selected done (q # qs) =
     (let option_value = parseInt (o_value q) in
      if num_le option_value g then role_loop g sv has_selected (done @ [q\<lparr>o_disabled := True\<rparr>]) qs
      else if \<not> has_selected \<and> (case sv of None \<Rightarrow> True | Some v \<Rightarrow> v = [] \<or> num_eq (parseInt v) option_value)
      then role_loop g sv True (map unselect done @ [q\<lparr>o_selected := True\<rparr>]) (map unselect qs)
      else role_loop g sv has_selected (done @ [q]) qs)"

definition put_name :: "string \<Rightarrow> string \<Rightarrow> (string \<times> string) list \<Rightarrow> (string \<times> string) list" where
  "put_name k v ns = (k, v) # ns"

definition add_user_role :: "string \<Rightarrow> string \<Rightarrow> string option \<Rightarrow> roles_page \<Rightarrow> roles_page" where
  "add_user_role user_id user_name sv p =
     (let new_selector = role_loop (parseInt (to_str (global_role p))) sv False [] (rf_template p) in
      p\<lparr>rf_segments := rf_segments p @ [\<lparr>sg_user = user_id, sg_label = user_name, sg_opts = new_selector\<rparr>],
        rf_names := put_name user_id user_name (rf_names p)\<rparr>)"

section \<open>Initialization and events\<close>

record roles_data =
  rd_global :: string
  rd_available :: "(string \<times> string) list"
  rd_roles :: "(string \<times> string \<times> string) list"

text \<open>
  The role of all users is set before the new change handler is bound. A handler of an earlier
  initialization only moves users between the two lists that are emptied here.
\<close>

definition initialize_roles :: "roles_data \<Rightarrow> roles_page \<Rightarrow> roles_page" where
  "initialize_roles d p =
     (let p1 = p\<lparr>rf_global := set_selected (rd_global d) (rf_global p)\<rparr>;
          os = foldl (\<lambda>os (i, name). select_some (os @ [new_opt i name])) [] (rd_available d);
          os1 = (case rd_available d of [] \<Rightarrow> os | (i, _) # _ \<Rightarrow> set_selected i os);
          p2 = check_users_length (p1\<lparr>rf_users := os1\<rparr>);
          p3 = emit (Widget ''#user_select'' ''dropdown'' [JStr ''refresh'']) p2 in
      foldl (\<lambda>q (user, name, role). add_user_role user name (Some role) q) (p3\<lparr>rf_segments := []\<rparr>) (rd_roles d))"

definition global_role_change :: "string \<Rightarrow> roles_page \<Rightarrow> roles_page" where
  "global_role_change v p =
     (let p1 = p\<lparr>rf_global := set_selected v (rf_global p)\<rparr>;
          p2 = foldl (\<lambda>q s. remove_user_role (sg_user s) q) p1 (rf_segments p1) in
      if global_role p2 = JStr ''4'' then p2\<lparr>rf_users_shown := False\<rparr> else check_users_length p2)"

definition add_user_click :: "roles_page \<Rightarrow> roles_page" where
  "add_user_click p =
     (let selected_user = filter o_selected (rf_users p);
          p1 = add_user_role (to_str (selected_value (rf_users p))) (concat (map o_text selected_user)) None p;
          p2 = check_users_length (p1\<lparr>rf_users := select_some (filter (\<lambda>q. \<not> o_selected q) (rf_users p1))\<rparr>);
          p3 = (case rf_users p2 of [] \<Rightarrow> p2 | q # _ \<Rightarrow> p2\<lparr>rf_users := set_selected (o_value q) (rf_users p2)\<rparr>) in
      emit (Widget ''#user_select'' ''dropdown'' [JStr ''refresh'']) p3)"

definition remove_user_click :: "string \<Rightarrow> roles_page \<Rightarrow> roles_page" where
  "remove_user_click user_id p = check_users_length (remove_user_role user_id p)"

definition get_roles :: "roles_page \<Rightarrow> (string \<times> jsval) list" where
  "get_roles p = map (\<lambda>s. (sg_user s, selected_value (sg_opts s))) (rf_segments p)"

text \<open>
  What the user can do: choose a user of the list, an enabled role of a segment or the role of all
  users, press the add button while it is shown and the remove button of a segment.
\<close>

datatype roles_event = Choose_user string | Choose_role string string | Choose_global string | Add_user | Remove_user string

definition choose_role :: "string \<Rightarrow> string \<Rightarrow> segment \<Rightarrow> segment" where
  "choose_role i v s =
     (if sg_user s = i \<and> (\<exists>q \<in> set (sg_opts s). o_value q = v \<and> \<not> o_disabled q)
      then s\<lparr>sg_opts := set_selected v (sg_opts s)\<rparr> else s)"

definition roles_step :: "roles_page \<Rightarrow> roles_event \<Rightarrow> roles_page" where
  "roles_step p e = (case e of
     Choose_user i \<Rightarrow> p\<lparr>rf_users := set_selected i (rf_users p)\<rparr>
   | Choose_role i v \<Rightarrow> p\<lparr>rf_segments := map (choose_role i v) (rf_segments p)\<rparr>
   | Choose_global v \<Rightarrow> if v \<in> o_value ` set (rf_global p) then global_role_change v p else p
   | Add_user \<Rightarrow> if rf_users_shown p then add_user_click p else p
   | Remove_user i \<Rightarrow> if i \<in> sg_user ` set (rf_segments p) then remove_user_click i p else p)"

section \<open>The roles a segment offers\<close>

abbreviation bar :: "int option \<Rightarrow> opt \<Rightarrow> opt" where
  "bar g q \<equiv> (if num_le (parseInt (o_value q)) g then q\<lparr>o_disabled := True\<rparr> else q)"

definition picks :: "int option \<Rightarrow> string option \<Rightarrow> opt \<Rightarrow> bool" where
  "picks g sv q = (\<not> num_le (parseInt (o_value q)) g
     \<and> (case sv of None \<Rightarrow> True | Some v \<Rightarrow> v = [] \<or> num_eq (parseInt v) (parseInt (o_value q))))"

lemma role_loop_selected: "role_loop g sv True done qs = done @ map (bar g) qs"
  by (induction qs arbitrary: "done") (simp_all add: Let_def)

lemma role_loop_picks:
  "list_ex (picks g sv) qs \<Longrightarrow> \<exists>a q b. qs = a @ q # b \<and> picks g sv q
     \<and> role_loop g sv False done qs
       = map unselect (done @ map (bar g) a) @ [q\<lparr>o_selected := True\<rparr>] @ map (bar g) (map unselect b)"
proof (induction qs arbitrary: "done")
  case (Cons x xs)
  show ?case
  proof (cases "picks g sv x")
    case True
    then have "role_loop g sv False done (x # xs) = role_loop g sv True (map unselect done @ [x\<lparr>o_selected := True\<rparr>]) (map unselect xs)"
      by (simp add: picks_def Let_def)
    then show ?thesis using True by (intro exI[of _ "[]"] exI[of _ x] exI[of _ xs]) (simp add: role_loop_selected)
  next
    case False
    then have "list_ex (picks g sv) xs" using Cons.prems by simp
    then obtain a q b where h: "xs = a @ q # b" "picks g sv q" "role_loop g sv False (done @ [bar g x]) xs
        = map unselect ((done @ [bar g x]) @ map (bar g) a) @ [q\<lparr>o_selected := True\<rparr>] @ map (bar g) (map unselect b)"
      using Cons.IH[of "done @ [bar g x]"] by blast
    have "role_loop g sv False done (x # xs) = role_loop g sv False (done @ [bar g x]) xs"
      using False by (auto simp: picks_def Let_def)
    then show ?thesis using h by (intro exI[of _ "x # a"] exI[of _ q] exI[of _ b]) simp
  qed
qed simp

lemma role_loop_no_pick:
  "\<not> list_ex (picks g sv) qs \<Longrightarrow> role_loop g sv False done qs = done @ map (bar g) qs"
  by (induction qs arbitrary: "done") (auto simp: picks_def Let_def)

text \<open>A segment offers, and has selected, only roles above the role of all users.\<close>

definition seg_ok :: "int option \<Rightarrow> segment \<Rightarrow> bool" where
  "seg_ok g s = (distinct (map o_value (sg_opts s))
     \<and> (\<forall>q \<in> set (sg_opts s). \<not> o_disabled q \<longrightarrow> \<not> num_le (parseInt (o_value q)) g)
     \<and> (\<exists>q. filter o_selected (sg_opts s) = [q] \<and> \<not> num_le (parseInt (o_value q)) g))"

lemma new_segment_ok:
  assumes "list_ex (picks g sv) os" "distinct (map o_value os)" "all_enabled os"
  shows "seg_ok g \<lparr>sg_user = u, sg_label = l, sg_opts = role_loop g sv False [] os\<rparr>"
    "map o_value (role_loop g sv False [] os) = map o_value os"
proof -
  obtain a q b where h: "os = a @ q # b" "picks g sv q" and
    r: "role_loop g sv False [] os = map unselect (map (bar g) a) @ [q\<lparr>o_selected := True\<rparr>] @ map (bar g) (map unselect b)"
    using role_loop_picks[OF assms(1), of "[]"] by auto
  have v: "map o_value (map unselect (map (bar g) a)) = map o_value a" "map o_value (map (bar g) (map unselect b)) = map o_value b"
    by (simp_all add: unselect_def comp_def)
  have s: "filter o_selected (map unselect (map (bar g) a)) = []" "filter o_selected (map (bar g) (map unselect b)) = []"
    by (auto simp: filter_empty_conv unselect_def)
  show e: "map o_value (role_loop g sv False [] os) = map o_value os" unfolding r by (simp only: map_append v h) simp
  have "\<not> num_le (parseInt (o_value x)) g" if "x \<in> set (role_loop g sv False [] os)" "\<not> o_disabled x" for x
    using that h(2) unfolding r by (auto simp: unselect_def picks_def split: if_splits)
  moreover have "filter o_selected (role_loop g sv False [] os) = [q\<lparr>o_selected := True\<rparr>]"
    unfolding r filter_append s by simp
  ultimately show "seg_ok g \<lparr>sg_user = u, sg_label = l, sg_opts = role_loop g sv False [] os\<rparr>"
    using assms(2) h(2) e by (simp add: seg_ok_def picks_def)
qed

lemma choose_role_ok: "seg_ok g s \<Longrightarrow> seg_ok g (choose_role i v s)"
proof (cases "sg_user s = i \<and> (\<exists>q \<in> set (sg_opts s). o_value q = v \<and> \<not> o_disabled q)")
  case True
  assume ok: "seg_ok g s"
  from True obtain q where q: "q \<in> set (sg_opts s)" "o_value q = v" "\<not> o_disabled q" by blast
  then have v: "v \<in> o_value ` set (sg_opts s)" by blast
  have "one_selected (set_selected v (sg_opts s))" using one_selected_set v ok by (auto simp: seg_ok_def)
  moreover have "set_selected v (sg_opts s) \<noteq> []" using v by (auto simp: set_selected_keeps(4))
  ultimately obtain x where x: "filter o_selected (set_selected v (sg_opts s)) = [x]"
    by (auto simp: one_selected_def length_Suc_conv)
  then have "o_value x = v" using selected_value_set[OF v] by (simp add: selected_value_def)
  then have "\<not> num_le (parseInt (o_value x)) g" using q ok by (auto simp: seg_ok_def)
  moreover have "choose_role i v s = s\<lparr>sg_opts := set_selected v (sg_opts s)\<rparr>" using True by (simp add: choose_role_def)
  moreover have "\<forall>y \<in> set (set_selected v (sg_opts s)). \<not> o_disabled y \<longrightarrow> \<not> num_le (parseInt (o_value y)) g"
    using ok by (auto simp: seg_ok_def set_selected_def)
  ultimately show ?thesis using ok x by (simp add: seg_ok_def set_selected_keeps(1))
next
  case False
  then have "choose_role i v s = s" unfolding choose_role_def by argo
  then show "seg_ok g s \<Longrightarrow> seg_ok g (choose_role i v s)" by simp
qed

section \<open>The invariant of the form\<close>

definition job_roles :: "string list" where
  "job_roles = map show_nat [0..<5]"

abbreviation opt_pair :: "opt \<Rightarrow> string \<times> string" where "opt_pair q \<equiv> (o_value q, o_text q)"
abbreviation seg_pair :: "segment \<Rightarrow> string \<times> string" where "seg_pair s \<equiv> (sg_user s, sg_label s)"

definition form_users :: "roles_page \<Rightarrow> (string \<times> string) multiset" where
  "form_users p = mset (map opt_pair (rf_users p)) + mset (map seg_pair (rf_segments p))"

text \<open>Every user has one place; the drop-down lists hold one value; names are known.\<close>

definition lists_ok :: "(string \<times> string) multiset \<Rightarrow> roles_page \<Rightarrow> bool" where
  "lists_ok M p = (form_users p = M \<and> all_enabled (rf_users p) \<and> one_selected (rf_users p)
     \<and> (\<forall>s \<in> set (rf_segments p). map_of (rf_names p) (sg_user s) = Some (sg_label s))
     \<and> map o_value (rf_template p) = job_roles \<and> all_enabled (rf_template p)
     \<and> map o_value (rf_global p) = job_roles)"

definition roles_ok :: "(string \<times> string) multiset \<Rightarrow> roles_page \<Rightarrow> bool" where
  "roles_ok M p = (lists_ok M p \<and> (rf_users_shown p \<longrightarrow> rf_users p \<noteq> [])
     \<and> (\<exists>g < 5. global_role p = JStr (show_nat g) \<and> (g < 4 \<longrightarrow> (\<forall>s \<in> set (rf_segments p). seg_ok (Some (int g)) s))))"

definition unique_users :: "(string \<times> string) multiset \<Rightarrow> bool" where
  "unique_users M = (\<forall>i. count (image_mset fst M) i \<le> 1)"

lemma distinct_count_le: "(\<And>i. count (mset xs) i \<le> 1) \<Longrightarrow> distinct xs"
proof -
  assume le: "\<And>i. count (mset xs) i \<le> 1"
  have "count (mset xs) i = (if i \<in> set xs then 1 else 0)" for i
    using le[of i] by (cases "count (mset xs) i") (auto simp: count_eq_zero_iff simp flip: set_mset_mset intro: count_inI)
  then show ?thesis by (simp add: distinct_count_atmost_1)
qed

lemma unique_users_lists:
  "form_users p = M \<Longrightarrow> unique_users M \<Longrightarrow> distinct (map o_value (rf_users p) @ map sg_user (rf_segments p))"
proof -
  assume h: "form_users p = M" "unique_users M"
  have "image_mset fst M = mset (map o_value (rf_users p) @ map sg_user (rf_segments p))"
    unfolding h(1)[symmetric] form_users_def by (simp add: image_mset.compositionality comp_def)
  then have c: "count (mset (map o_value (rf_users p) @ map sg_user (rf_segments p))) i \<le> 1" for i
    using h(2) by (simp add: unique_users_def)
  then show ?thesis by (rule distinct_count_le)
qed

lemma drop_first_split: "P x \<Longrightarrow> \<forall>y \<in> set a. \<not> P y \<Longrightarrow> drop_first P (a @ x # b) = a @ b"
  by (induction a) simp_all

lemma remove_user_role_lists:
  assumes "lists_ok M p" "unique_users M" "s \<in> set (rf_segments p)"
  shows "lists_ok M (remove_user_role (sg_user s) p)"
    "set (rf_segments (remove_user_role (sg_user s) p)) = set (rf_segments p) - {s}"
    "rf_global (remove_user_role (sg_user s) p) = rf_global p"
proof -
  obtain a b where ab: "rf_segments p = a @ s # b" using assms(3) by (meson split_list)
  have "distinct (map sg_user (rf_segments p))" using unique_users_lists assms by (auto simp: lists_ok_def)
  then have n: "\<forall>y \<in> set a \<union> set b. sg_user y \<noteq> sg_user s" unfolding ab by (auto simp: image_iff)
  then have d: "drop_first (\<lambda>x. sg_user x = sg_user s) (rf_segments p) = a @ b" unfolding ab by (intro drop_first_split) auto
  have nm: "map_of (rf_names p) (sg_user s) = Some (sg_label s)" using assms by (simp add: lists_ok_def)
  have e: "remove_user_role (sg_user s) p
      = p\<lparr>rf_users := select_some (rf_users p @ [new_opt (sg_user s) (sg_label s)]), rf_segments := a @ b\<rparr>"
    by (simp add: remove_user_role_def nm d)
  have np: "opt_pair (new_opt (sg_user s) (sg_label s)) = seg_pair s" by (simp add: new_opt_def)
  note sa = select_some_append[of "rf_users p" "sg_user s" "sg_label s"]
  have "form_users (remove_user_role (sg_user s) p) = form_users p"
    unfolding e form_users_def by (simp add: select_some_keeps(3) ab np flip: mset_map)
  then show "lists_ok M (remove_user_role (sg_user s) p)"
    using assms(1) sa by (simp add: lists_ok_def) (simp add: e ab)
  show "set (rf_segments (remove_user_role (sg_user s) p)) = set (rf_segments p) - {s}"
    using n by (auto simp: e ab)
  show "rf_global (remove_user_role (sg_user s) p) = rf_global p" by (simp add: e)
qed

lemma remove_all_lists:
  "lists_ok M p \<Longrightarrow> unique_users M \<Longrightarrow> distinct ss \<Longrightarrow> set ss \<subseteq> set (rf_segments p)
    \<Longrightarrow> lists_ok M (foldl (\<lambda>q s. remove_user_role (sg_user s) q) p ss)
      \<and> set (rf_segments (foldl (\<lambda>q s. remove_user_role (sg_user s) q) p ss)) = set (rf_segments p) - set ss
      \<and> rf_global (foldl (\<lambda>q s. remove_user_role (sg_user s) q) p ss) = rf_global p"
proof (induction ss arbitrary: p)
  case (Cons s ss)
  note r = remove_user_role_lists[OF Cons.prems(1,2), of s]
  have "set ss \<subseteq> set (rf_segments (remove_user_role (sg_user s) p))" using Cons.prems(3,4) r(2) by auto
  then show ?case using Cons.IH[of "remove_user_role (sg_user s) p"] Cons.prems r by auto
qed simp

lemma job_roles_distinct: "distinct job_roles"
  by (simp add: job_roles_def distinct_map inj_on_def show_nat_inject)

lemma job_roles_eq: "job_roles = [''0'', ''1'', ''2'', ''3'', ''4'']"
  by code_simp

lemma show_small: "show_nat (Suc 0) = ''1''" "show_nat 3 = ''3''" "show_nat 4 = ''4''"
  by code_simp+

lemma role_num: "v \<in> set job_roles \<Longrightarrow> \<exists>g < 5. v = show_nat g"
  by (auto simp: job_roles_def)

lemma template_picks:
  assumes "map o_value os = job_roles" "g < a" "a < 5" "sv = None \<or> sv = Some (show_nat a)"
  shows "list_ex (picks (Some (int g)) sv) os"
proof -
  have "show_nat a \<in> set (map o_value os)" unfolding assms(1) using assms(3) by (auto simp: job_roles_def)
  then obtain q where q: "q \<in> set os" "o_value q = show_nat a" by auto
  then have "picks (Some (int g)) sv q" using assms(2,4) by (auto simp: picks_def)
  then show ?thesis using q(1) by (auto simp: list_ex_iff)
qed

lemma global_num:
  "global_role p = JStr (show_nat g) \<Longrightarrow> parseInt (to_str (global_role p)) = Some (int g)"
  by simp

lemma add_user_role_frame [simp]:
  "rf_users (add_user_role u n sv p) = rf_users p" "rf_global (add_user_role u n sv p) = rf_global p"
  "rf_template (add_user_role u n sv p) = rf_template p" "rf_users_shown (add_user_role u n sv p) = rf_users_shown p"
  "global_role (add_user_role u n sv p) = global_role p"
  by (simp_all add: add_user_role_def Let_def global_role_def)

lemma add_user_role_lists:
  assumes "\<forall>s \<in> set (rf_segments p). map_of (rf_names p) (sg_user s) = Some (sg_label s) \<and> sg_user s \<noteq> u"
  shows "\<forall>s \<in> set (rf_segments (add_user_role u n sv p)). map_of (rf_names (add_user_role u n sv p)) (sg_user s) = Some (sg_label s)"
    "map seg_pair (rf_segments (add_user_role u n sv p)) = map seg_pair (rf_segments p) @ [(u, n)]"
  using assms by (auto simp: add_user_role_def Let_def put_name_def)

lemma add_user_role_segs:
  assumes "global_role p = JStr (show_nat g)" "map o_value (rf_template p) = job_roles" "all_enabled (rf_template p)"
    and "g < a" "a < 5" "sv = None \<or> sv = Some (show_nat a)" "\<forall>s \<in> set (rf_segments p). seg_ok (Some (int g)) s"
  shows "\<forall>s \<in> set (rf_segments (add_user_role u n sv p)). seg_ok (Some (int g)) s"
  using assms(7) new_segment_ok(1)[OF template_picks[OF assms(2,4-6)]] assms(2,3) job_roles_distinct
  by (simp add: add_user_role_def Let_def global_num[OF assms(1)] del: to_str.simps)

lemma one_selected_pick:
  assumes "one_selected os" "os \<noteq> []"
  obtains q where "filter o_selected os = [q]" "mset os = add_mset q (mset (filter (\<lambda>q. \<not> o_selected q) os))"
proof -
  obtain q where q: "filter o_selected os = [q]" using assms by (auto simp: one_selected_def length_Suc_conv)
  have "mset os = mset (filter o_selected os) + mset (filter (\<lambda>q. \<not> o_selected q) os)" by simp
  then show ?thesis using q that by simp
qed

lemma add_user_click_ok:
  assumes ok: "roles_ok M p" and M: "unique_users M" and sh: "rf_users_shown p"
  shows "roles_ok M (add_user_click p)"
proof -
  obtain g where g: "g < 5" "global_role p = JStr (show_nat g)" "g < 4 \<longrightarrow> (\<forall>s \<in> set (rf_segments p). seg_ok (Some (int g)) s)"
    and l: "lists_ok M p" and ne: "rf_users p \<noteq> []" using ok sh by (auto simp: roles_ok_def)
  have one: "one_selected (rf_users p)" "all_enabled (rf_users p)" using l by (simp_all add: lists_ok_def)
  obtain q where q: "filter o_selected (rf_users p) = [q]"
    and qm: "mset (rf_users p) = add_mset q (mset (filter (\<lambda>q. \<not> o_selected q) (rf_users p)))"
    using one_selected_pick[OF one(1) ne] .
  define os where "os = select_some (filter (\<lambda>q. \<not> o_selected q) (rf_users p))"
  define os' where "os' = (case os of [] \<Rightarrow> os | x # _ \<Rightarrow> set_selected (o_value x) os)"
  define p1 where "p1 = add_user_role (o_value q) (o_text q) None p"
  have e: "add_user_click p = emit (Widget ''#user_select'' ''dropdown'' [JStr ''refresh''])
      (p1\<lparr>rf_users := os', rf_users_shown := (os \<noteq> [])\<rparr>)"
    by (auto simp: add_user_click_def Let_def q selected_value_def p1_def os_def os'_def check_users_length_def
        intro!: arg_cong[where f = "emit w" for w] roles_page.equality split: list.split)
  have d: "distinct (map o_value (rf_users p) @ map sg_user (rf_segments p))" using unique_users_lists l M by (auto simp: lists_ok_def)
  have "q \<in> set (filter o_selected (rf_users p))" unfolding q by simp
  then have qin: "q \<in> set (rf_users p)" by simp
  then have new: "\<forall>s \<in> set (rf_segments p). sg_user s \<noteq> o_value q" using d by (auto simp: image_iff)
  have en: "all_enabled (filter (\<lambda>q. \<not> o_selected q) (rf_users p))" using one by (simp add: all_enabled_def)
  have os: "all_enabled os" "one_selected os" "map opt_pair os = map opt_pair (filter (\<lambda>q. \<not> o_selected q) (rf_users p))"
    using select_some_keeps(3,4) en one_selected_select_some[OF en] by (auto simp: os_def)
  have dv: "distinct (map o_value os)" using d by (simp add: os_def select_some_keeps(1) distinct_map_filterI)
  have os': "all_enabled os'" "one_selected os'" "map opt_pair os' = map opt_pair os" "os' = [] \<longleftrightarrow> os = []"
    using os one_selected_set[OF dv] by (auto simp: os'_def set_selected_keeps split: list.split)
  note al = add_user_role_lists[of p "o_value q" "o_text q" None]
  have "mset (map opt_pair (rf_users p)) = add_mset (opt_pair q) (mset (map opt_pair os'))"
    unfolding os'(3) os(3) mset_map qm by simp
  then have "lists_ok M (p1\<lparr>rf_users := os', rf_users_shown := (os \<noteq> [])\<rparr>)"
    using l new os' al by (auto simp: lists_ok_def p1_def form_users_def)
  moreover have "g < 4 \<longrightarrow> (\<forall>s \<in> set (rf_segments p1). seg_ok (Some (int g)) s)"
    using add_user_role_segs[OF g(2), of 4 None] g(3) l by (auto simp: p1_def lists_ok_def)
  ultimately show ?thesis unfolding roles_ok_def e using g(1,2) os'(4)
    by (auto simp: lists_ok_def form_users_def emit_def p1_def global_role_def intro!: exI[of _ g])
qed

lemma global_role_change_ok:
  assumes l: "lists_ok M p" and M: "unique_users M" and v: "v \<in> o_value ` set (rf_global p)"
  shows "roles_ok M (global_role_change v p)"
proof -
  define p1 where "p1 = p\<lparr>rf_global := set_selected v (rf_global p)\<rparr>"
  define p2 where "p2 = foldl (\<lambda>q s. remove_user_role (sg_user s) q) p1 (rf_segments p1)"
  have l1: "lists_ok M p1" using l by (simp add: lists_ok_def p1_def form_users_def set_selected_keeps(1))
  have "distinct (map sg_user (rf_segments p1))" using unique_users_lists[of p1 M] l1 M by (simp add: lists_ok_def)
  then have p2: "lists_ok M p2" "rf_segments p2 = []" "rf_global p2 = rf_global p1"
    using remove_all_lists[OF l1 M, of "rf_segments p1"] by (simp_all add: p2_def distinct_map)
  have g2: "global_role p2 = JStr v" using selected_value_set[OF v] by (simp add: global_role_def p2(3) p1_def)
  have "v \<in> set (map o_value (rf_global p))" using v by simp
  then obtain g where g: "g < 5" "v = show_nat g" using role_num l by (auto simp: lists_ok_def simp del: set_map)
  have e: "global_role_change v p = (if v = ''4'' then p2\<lparr>rf_users_shown := False\<rparr> else check_users_length p2)"
    by (simp add: global_role_change_def p1_def[symmetric] p2_def[symmetric] g2)
  show ?thesis unfolding e using p2 g(1) g2[unfolded g(2)]
    by (cases "v = ''4''") (auto simp: roles_ok_def lists_ok_def form_users_def check_users_length_def global_role_def intro!: exI[of _ g])
qed

lemma roles_step_ok:
  assumes ok: "roles_ok M p" and M: "unique_users M"
  shows "roles_ok M (roles_step p e)"
proof (cases e)
  case (Choose_user i)
  have l: "lists_ok M p" using ok by (simp add: roles_ok_def)
  then have "distinct (map o_value (rf_users p))" using unique_users_lists[of p M] M by (simp add: lists_ok_def)
  then show ?thesis using Choose_user ok one_selected_set
    by (auto simp: roles_step_def roles_ok_def lists_ok_def form_users_def set_selected_keeps global_role_def)
next
  case (Choose_role i v)
  have k: "sg_user (choose_role i v s) = sg_user s \<and> sg_label (choose_role i v s) = sg_label s" for s
    by (simp add: choose_role_def)
  then have "map seg_pair (map (choose_role i v) ss) = map seg_pair ss" for ss by simp
  then show ?thesis using Choose_role ok choose_role_ok k
    by (auto simp: roles_step_def roles_ok_def lists_ok_def form_users_def global_role_def simp del: map_map)
next
  case (Remove_user i)
  show ?thesis
  proof (cases "i \<in> sg_user ` set (rf_segments p)")
    case True
    then obtain s where s: "s \<in> set (rf_segments p)" "i = sg_user s" by blast
    have l: "lists_ok M p" using ok by (simp add: roles_ok_def)
    note r = remove_user_role_lists[OF l M s(1)]
    show ?thesis using ok r True s
      by (auto simp: roles_step_def Remove_user remove_user_click_def check_users_length_def roles_ok_def lists_ok_def form_users_def global_role_def)
  qed (use ok in \<open>simp add: roles_step_def Remove_user\<close>)
qed (use ok M add_user_click_ok global_role_change_ok in \<open>auto simp: roles_step_def roles_ok_def\<close>)

lemma available_list:
  "all_enabled os \<Longrightarrow> one_selected os
    \<Longrightarrow> all_enabled (foldl (\<lambda>os (i, n). select_some (os @ [new_opt i n])) os xs)
      \<and> one_selected (foldl (\<lambda>os (i, n). select_some (os @ [new_opt i n])) os xs)
      \<and> map opt_pair (foldl (\<lambda>os (i, n). select_some (os @ [new_opt i n])) os xs) = map opt_pair os @ xs"
proof (induction xs arbitrary: os)
  case (Cons x xs)
  obtain i n where x: "x = (i, n)" by force
  show ?case using Cons.IH[OF select_some_append(2,1)[OF Cons.prems, of i n]]
    by (simp add: x select_some_keeps(3) new_opt_def)
qed simp

lemma initial_segments:
  assumes "global_role p = JStr (show_nat g)" "map o_value (rf_template p) = job_roles" "all_enabled (rf_template p)"
    and "\<forall>s \<in> set (rf_segments p). map_of (rf_names p) (sg_user s) = Some (sg_label s) \<and> seg_ok (Some (int g)) s"
    and "distinct (map sg_user (rf_segments p) @ map fst rs)" "\<forall>(u, n, r) \<in> set rs. \<exists>a. g < a \<and> a < 5 \<and> r = show_nat a"
    and "q = foldl (\<lambda>q (user, name, role). add_user_role user name (Some role) q) p rs"
  shows "(\<forall>s \<in> set (rf_segments q). map_of (rf_names q) (sg_user s) = Some (sg_label s) \<and> seg_ok (Some (int g)) s)
    \<and> map seg_pair (rf_segments q) = map seg_pair (rf_segments p) @ map (\<lambda>(u, n, r). (u, n)) rs
    \<and> rf_users q = rf_users p \<and> rf_global q = rf_global p \<and> rf_template q = rf_template p \<and> rf_users_shown q = rf_users_shown p"
  using assms
proof (induction rs arbitrary: p)
  case (Cons x rs)
  obtain u n r where x: "x = (u, n, r)" by (cases x)
  obtain a where a: "g < a" "a < 5" "r = show_nat a" using Cons.prems(6) by (auto simp: x)
  define p1 where "p1 = add_user_role u n (Some r) p"
  have new: "\<forall>s \<in> set (rf_segments p). map_of (rf_names p) (sg_user s) = Some (sg_label s) \<and> sg_user s \<noteq> u"
    using Cons.prems(4,5) by (auto simp: x)
  note al = add_user_role_lists[OF new, of n "Some r"]
  have m: "map sg_user (rf_segments p1) = map sg_user (rf_segments p) @ [u]"
    using arg_cong[OF al(2), of "map fst"] by (simp add: p1_def comp_def)
  have so: "\<forall>s \<in> set (rf_segments p1). seg_ok (Some (int g)) s"
    unfolding p1_def using Cons.prems(4) a by (intro add_user_role_segs[OF Cons.prems(1-3)]) auto
  have "distinct (map sg_user (rf_segments p1) @ map fst rs)" using Cons.prems(5) by (simp add: m x)
  then show ?case
    using Cons.IH[of p1] Cons.prems(1-3,6,7) al so by (simp add: x p1_def)
qed simp

lemma initialize_roles_ok:
  assumes "distinct (map fst (rd_available d) @ map fst (rd_roles d))"
    and "map o_value (rf_template p) = job_roles" "all_enabled (rf_template p)" "map o_value (rf_global p) = job_roles"
    and g: "rd_global d = show_nat g" "g < 5" and r: "\<forall>(u, n, r) \<in> set (rd_roles d). \<exists>a. g < a \<and> a < 5 \<and> r = show_nat a"
  shows "roles_ok (mset (rd_available d) + mset (map (\<lambda>(u, n, r). (u, n)) (rd_roles d))) (initialize_roles d p)"
proof -
  define os where "os = foldl (\<lambda>os (i, n). select_some (os @ [new_opt i n])) [] (rd_available d)"
  define os1 where "os1 = (case rd_available d of [] \<Rightarrow> os | (i, _) # _ \<Rightarrow> set_selected i os)"
  define p3 where "p3 = (emit (Widget ''#user_select'' ''dropdown'' [JStr ''refresh''])
      (check_users_length (p\<lparr>rf_global := set_selected (rd_global d) (rf_global p), rf_users := os1\<rparr>)))\<lparr>rf_segments := []\<rparr>"
  define q where "q = initialize_roles d p"
  have q: "q = foldl (\<lambda>q (user, name, role). add_user_role user name (Some role) q) p3 (rd_roles d)"
    unfolding q_def initialize_roles_def Let_def p3_def os1_def os_def by (rule refl)
  have os: "all_enabled os \<and> one_selected os \<and> map opt_pair os = rd_available d"
    using available_list[of "[]" "rd_available d"] by (simp add: os_def all_enabled_def one_selected_def)
  have "map o_value os = map fst (rd_available d)" using arg_cong[OF os[THEN conjunct2, THEN conjunct2], of "map fst"] by (simp add: comp_def)
  then have "distinct (map o_value os)" using assms(1) by simp
  then have os1: "all_enabled os1" "one_selected os1" "map opt_pair os1 = rd_available d"
    using os one_selected_set by (auto simp: os1_def set_selected_keeps split: list.split)
  have "rd_global d \<in> set (map o_value (rf_global p))" using g by (simp add: assms(4)) (auto simp: job_roles_def)
  then have gl: "global_role p3 = JStr (show_nat g)"
    using selected_value_set[of "rd_global d" "rf_global p"] g by (simp add: p3_def global_role_def check_users_length_def emit_def)
  have f: "rf_users p3 = os1" "rf_segments p3 = []" "rf_template p3 = rf_template p" "rf_users_shown p3 = (os1 \<noteq> [])"
      "rf_global p3 = set_selected (rd_global d) (rf_global p)"
    by (simp_all add: p3_def check_users_length_def emit_def)
  note seg = initial_segments[OF gl _ _ _ _ r q]
  have h: "(\<forall>s \<in> set (rf_segments q). map_of (rf_names q) (sg_user s) = Some (sg_label s) \<and> seg_ok (Some (int g)) s)
    \<and> map seg_pair (rf_segments q) = map (\<lambda>(u, n, r). (u, n)) (rd_roles d)
    \<and> rf_users q = os1 \<and> rf_global q = rf_global p3 \<and> rf_template q = rf_template p \<and> rf_users_shown q = (os1 \<noteq> [])"
    using seg assms(1-3) by (simp add: f)
  then have "global_role q = JStr (show_nat g)" using gl by (simp add: global_role_def)
  then show ?thesis unfolding q_def[symmetric] roles_ok_def lists_ok_def form_users_def
    using h os1 assms(2-4) g(2) f(5) by (auto simp: set_selected_keeps(1) simp del: mset_map)
qed

text \<open>The server's data: every user once, and no role up to the role of all users.\<close>

definition data_ok :: "roles_data \<Rightarrow> nat \<Rightarrow> bool" where
  "data_ok d g = (distinct (map fst (rd_available d) @ map fst (rd_roles d)) \<and> rd_global d = show_nat g \<and> g < 5
     \<and> (\<forall>(u, n, r) \<in> set (rd_roles d). \<exists>a. g < a \<and> a < 5 \<and> r = show_nat a))"

definition page_ok :: "roles_page \<Rightarrow> bool" where
  "page_ok p = (map o_value (rf_template p) = job_roles \<and> all_enabled (rf_template p) \<and> map o_value (rf_global p) = job_roles)"

definition data_users :: "roles_data \<Rightarrow> (string \<times> string) multiset" where
  "data_users d = mset (rd_available d) + mset (map (\<lambda>(u, n, r). (u, n)) (rd_roles d))"

definition roles_opened :: "(string \<times> string) multiset \<Rightarrow> roles_page \<Rightarrow> bool" where
  "roles_opened M p = (\<exists>d g p0. data_ok d g \<and> page_ok p0 \<and> M = data_users d \<and> p = initialize_roles d p0)"

lemma data_users_unique:
  assumes "data_ok d g"
  shows "unique_users (data_users d)"
proof -
  have "image_mset fst (data_users d) = mset (map fst (rd_available d) @ map fst (rd_roles d))"
    by (simp add: data_users_def image_mset.compositionality comp_def case_prod_beta)
  then show ?thesis using assms by (simp only: unique_users_def data_ok_def distinct_count_atmost_1) auto
qed

interpretation roles_form: event_machine "roles_opened M" roles_step "\<lambda>p. unique_users M \<and> roles_ok M p" for M
proof unfold_locales
  fix p assume "roles_opened M p"
  then show "unique_users M \<and> roles_ok M p"
    using data_users_unique initialize_roles_ok unfolding roles_opened_def data_ok_def page_ok_def data_users_def by blast
qed (auto intro: roles_step_ok)

section \<open>Properties\<close>

text \<open>
  C9. The form of the roles of a job never loses, repeats or renames a user: after every sequence of
  events the users of the list and of the segments are those the server sent. As long as the role of
  all users is not the highest, every role sent back is above it.
\<close>

theorem roles_form_keeps_users:
  assumes "data_ok d g" "page_ok p0" "p = foldl roles_step (initialize_roles d p0) es"
  shows "form_users p = data_users d
    \<and> distinct (map o_value (rf_users p) @ map sg_user (rf_segments p))
    \<and> (\<exists>k < 5. global_role p = JStr (show_nat k)
        \<and> (k < 4 \<longrightarrow> (\<forall>(u, v) \<in> set (get_roles p). \<exists>r. v = JStr r \<and> \<not> num_le (parseInt r) (Some (int k)))))"
proof -
  have "roles_opened (data_users d) (initialize_roles d p0)" using assms(1,2) by (auto simp: roles_opened_def)
  then have ok: "unique_users (data_users d) \<and> roles_ok (data_users d) p" unfolding assms(3) by (rule roles_form.run_from_init)
  then obtain k where k: "k < 5" "global_role p = JStr (show_nat k)" "k < 4 \<longrightarrow> (\<forall>s \<in> set (rf_segments p). seg_ok (Some (int k)) s)"
    and u: "form_users p = data_users d" by (auto simp: roles_ok_def lists_ok_def)
  have "\<exists>r. selected_value (sg_opts s) = JStr r \<and> \<not> num_le (parseInt r) (Some (int k))" if "seg_ok (Some (int k)) s" for s
    using that by (auto simp: seg_ok_def selected_value_def)
  then show ?thesis using u unique_users_lists[OF u] ok k unfolding get_roles_def by auto
qed

definition roles_list :: "opt list" where
  "roles_list = map (\<lambda>v. new_opt v v) [''0'', ''1'', ''2'', ''3'', ''4'']"

definition demo_roles :: roles_page where
  "demo_roles = \<lparr>doc = [], out = [], href = [], rf_global = select_some roles_list, rf_template = select_some roles_list,
     rf_users = [], rf_users_shown = False, rf_segments = [], rf_names = []\<rparr>"

lemma demo_roles_ok: "page_ok demo_roles"
  by (simp add: page_ok_def demo_roles_def roles_list_def job_roles_eq select_some_def all_enabled_def new_opt_def)

theorem roles_form_keeps_users_witness:
  "\<exists>d. data_ok d 1 \<and> page_ok demo_roles \<and> d = \<lparr>rd_global = ''1'', rd_available = [(''5'', ''Ann''), (''6'', ''Bob'')], rd_roles = [(''7'', ''Eve'', ''3'')]\<rparr>
    \<and> get_roles (foldl roles_step (initialize_roles d demo_roles) [Add_user, Remove_user ''7'']) = [(''5'', JStr ''2'')]
    \<and> form_users (foldl roles_step (initialize_roles d demo_roles) [Add_user, Remove_user ''7''])
      = {#(''5'', ''Ann''), (''6'', ''Bob''), (''7'', ''Eve'')#}"
proof -
  let ?d = "\<lparr>rd_global = ''1'', rd_available = [(''5'', ''Ann''), (''6'', ''Bob'')], rd_roles = [(''7'', ''Eve'', ''3'')]\<rparr>"
  let ?p = "foldl roles_step (initialize_roles ?d demo_roles) [Add_user, Remove_user ''7'']"
  have d: "data_ok ?d 1" by (auto simp: data_ok_def show_small intro!: exI[of _ 3])
  have "form_users ?p = data_users ?d" using roles_form_keeps_users[OF d demo_roles_ok refl, of "[Add_user, Remove_user ''7'']"] by blast
  then have u: "form_users ?p = {#(''5'', ''Ann''), (''6'', ''Bob''), (''7'', ''Eve'')#}" by (simp add: data_users_def)
  have "get_roles ?p = [(''5'', JStr ''2'')]"
    by (simp add: roles_step_def initialize_roles_def demo_roles_def roles_list_def set_selected_def select_some_def new_opt_def
        check_users_length_def emit_def add_user_role_def global_role_def selected_value_def Let_def put_name_def add_user_click_def
        unselect_def remove_user_click_def remove_user_role_def get_roles_def js_eval)
  then show ?thesis using d demo_roles_ok u by blast
qed

text \<open>
  C36. A form opened with the highest role for all users still offers the users it could be added
  for, although nothing can be set for them: every option of a new segment is disabled, the first one
  stays selected, and the form sends the role without access for the user.
\<close>

theorem highest_role_offers_users:
  assumes "data_ok d 4" "page_ok p0" "rd_available d = (u, n) # rest" "selected_value (rf_template p0) = JStr ''0''"
    and "p = initialize_roles d p0" "q = roles_step p Add_user"
  shows "rf_users_shown p \<and> rf_segments p = [] \<and> get_roles q = [(u, JStr ''0'')]
    \<and> (\<forall>s \<in> set (rf_segments q). \<forall>x \<in> set (sg_opts s). o_disabled x)"
proof -
  have r: "rd_roles d = []" and g: "rd_global d = ''4''" using assms(1) by (cases "rd_roles d"; auto simp: data_ok_def show_small)+
  define os where "os = foldl (\<lambda>os (i, n). select_some (os @ [new_opt i n])) [] (rd_available d)"
  have os: "map opt_pair os = rd_available d"
    using available_list[of "[]" "rd_available d"] by (simp add: os_def all_enabled_def one_selected_def)
  have uin: "u \<in> o_value ` set os" using arg_cong[OF os, of "\<lambda>xs. fst ` set xs"] by (auto simp: assms(3) image_image)
  have p: "rf_users p = set_selected u os" "rf_users_shown p" "rf_segments p = []" "rf_template p = rf_template p0"
      "rf_global p = set_selected ''4'' (rf_global p0)"
    using uin by (auto simp: assms(5) initialize_roles_def r g assms(3) Let_def os_def emit_def check_users_length_def set_selected_keeps(4))
  have "''4'' \<in> set (map o_value (rf_global p0))" using assms(2) by (simp add: page_ok_def job_roles_eq)
  then have gl: "global_role p = JStr ''4''" using selected_value_set by (simp add: global_role_def p)
  have low: "num_le (parseInt (o_value x)) (Some 4)" if "x \<in> set (rf_template p0)" for x
  proof -
    have "o_value x \<in> set (map o_value (rf_template p0))" using that by simp
    then obtain k where "k < 5" "o_value x = show_nat k" using role_num assms(2) by (auto simp: page_ok_def simp del: set_map)
    then show ?thesis by simp
  qed
  then have "\<not> list_ex (picks (Some 4) None) (rf_template p0)" by (auto simp: list_ex_iff picks_def)
  then have loop: "role_loop (Some 4) None False [] (rf_template p0) = map (\<lambda>x. x\<lparr>o_disabled := True\<rparr>) (rf_template p0)"
    using role_loop_no_pick[of "Some 4" None "rf_template p0" "[]"] low by simp
  have four: "parseInt ''4'' = Some 4" using parseInt_show_nat[of 4] by (simp add: show_small)
  have "rf_segments q = [\<lparr>sg_user = u, sg_label = concat (map o_text (filter o_selected (rf_users p))), sg_opts = map (\<lambda>x. x\<lparr>o_disabled := True\<rparr>) (rf_template p0)\<rparr>]"
    by (simp add: assms(6) roles_step_def p(2) add_user_click_def Let_def check_users_length_def add_user_role_def gl four p(1,3,4)
        selected_value_set[OF uin] loop emit_def split: list.split)
  moreover have "selected_value (map (\<lambda>x. x\<lparr>o_disabled := True\<rparr>) ys) = selected_value ys" for ys
    by (simp add: selected_value_def filter_map comp_def split: list.split)
  ultimately show ?thesis using p assms(4) by (simp add: get_roles_def)
qed

theorem highest_role_offers_users_witness:
  "\<exists>d. data_ok d 4 \<and> page_ok demo_roles \<and> selected_value (rf_template demo_roles) = JStr ''0''
    \<and> d = \<lparr>rd_global = ''4'', rd_available = [(''5'', ''Ann'')], rd_roles = []\<rparr>
    \<and> get_roles (roles_step (initialize_roles d demo_roles) Add_user) = [(''5'', JStr ''0'')]"
proof -
  let ?d = "\<lparr>rd_global = ''4'', rd_available = [(''5'', ''Ann'')], rd_roles = []\<rparr>"
  have d: "data_ok ?d 4" by (simp add: data_ok_def show_small)
  have v: "selected_value (rf_template demo_roles) = JStr ''0''"
    by (simp add: selected_value_def demo_roles_def roles_list_def select_some_def new_opt_def)
  show ?thesis using highest_role_offers_users[OF d demo_roles_ok _ v refl refl, of "''5''" "''Ann''" "[]"] d v demo_roles_ok by auto
qed

end
