(* ===== verification/Start_Decision.thy ===== *)
theory Start_Decision
  imports View_Settings Drop_Downs
begin

text \<open>
  The form of a decision's configuration (\<open>jobs/static/jobs/js/startDecision.js\<close>): choosing a stored
  configuration, filling the form from it, serializing the form, and the dialog for the credentials
  of the cloud scheduler. The ancestors of an element are listed from the nearest outwards.
\<close>

section \<open>The parts of the form\<close>

definition radio_names :: "string list" where
  "radio_names = [''priority'', ''scheduler'', ''weight'', ''coverage_details'']"

definition parallelism_ids :: "string list" where
  "parallelism_ids = [''parallelism_0'', ''parallelism_1'', ''parallelism_2'', ''parallelism_3'', ''parallelism_4'']"

text \<open>\<open>.val(v)\<close>: \<open>null\<close> and \<open>undefined\<close> give the empty string.\<close>

definition val_str :: "jsval \<Rightarrow> string" where
  "val_str v = (case v of JUndef \<Rightarrow> [] | JNull \<Rightarrow> [] | _ \<Rightarrow> to_str v)"

text \<open>Numbers of a configuration go into inputs that accept them; that a browser empties a number input for any other text is left out.\<close>

definition put_val :: "string \<Rightarrow> jsval \<Rightarrow> 'a page_scheme \<Rightarrow> 'a page_scheme" where
  "put_val i v = update_id i (set_val (JStr (val_str v)))"

text \<open>\<open>$('input[name="n"][value="v"]').prop('checked', true)\<close>: the last match ends up as the checked button of the group.\<close>

definition radio_check :: "string \<Rightarrow> string \<Rightarrow> 'a page_scheme \<Rightarrow> 'a page_scheme" where
  "radio_check n v p =
     (case filter (\<lambda>e. el_val e = JStr v) (select (by_name ''input'' n) p) of
        [] \<Rightarrow> p
      | es \<Rightarrow> update (by_name ''input'' n) (\<lambda>e. set_checked (el_key e = el_key (last es)) e) p)"

definition dropdown_set :: "string \<Rightarrow> jsval \<Rightarrow> 'a page_scheme \<Rightarrow> 'a page_scheme" where
  "dropdown_set i v p = update_id i (\<lambda>e. set_opts (set_selected (to_str v) (el_opts e)) e) p"

section \<open>Filling the form\<close>

definition put_texts :: "jsval \<Rightarrow> string list \<Rightarrow> 'a page_scheme \<Rightarrow> 'a page_scheme" where
  "put_texts resp keys p = foldl (\<lambda>q k. put_val k (get_prop resp k) q) p keys"

definition put_parallelism :: "jsval list \<Rightarrow> 'a page_scheme \<Rightarrow> 'a page_scheme" where
  "put_parallelism vs p =
     foldl (\<lambda>q (i, k). put_val k (if i < length vs then vs ! i else JUndef) q) p (enumerate 0 parallelism_ids)"

definition put_booleans :: "jsval \<Rightarrow> 'a page_scheme \<Rightarrow> 'a page_scheme" where
  "put_booleans resp p = update (by_class ''boolean-value'') (\<lambda>e. set_checked (truthy (get_prop resp (el_id e))) e) p"

text \<open>
  Indexing a missing list of numbers throws, with what was filled before left in the form. (The list
  of an answer is an array of numbers.)
\<close>

definition update_form :: "jsval \<Rightarrow> 'a page_scheme \<Rightarrow> js_error option \<times> 'a page_scheme" where
  "update_form resp p =
     (let p1 = foldl (\<lambda>q n. radio_check n (to_str (get_prop resp n)) q) p radio_names;
          p2 = put_texts resp [''max_tasks''] p1 in
      if get_prop resp ''parallelism'' \<in> {JUndef, JNull} then (Some TypeError, p2)
      else
        (let p3 = put_parallelism (case get_prop resp ''parallelism'' of JArr vs \<Rightarrow> vs | _ \<Rightarrow> []) p2;
             p4 = put_texts resp [''memory''] p3;
             p5 = put_val ''cpu_num'' (if truthy (get_prop resp ''cpu_num'') then get_prop resp ''cpu_num'' else JStr []) p4;
             p6 = put_texts resp [''disk_size'', ''cpu_model'', ''cpu_time_exec_cmds'', ''memory_exec_cmds'',
                    ''cpu_time_exec_emg'', ''memory_exec_emg''] p5;
             p7 = dropdown_set ''file_level'' (get_prop resp ''file_level'')
                    (dropdown_set ''console_level'' (get_prop resp ''console_level'') p6);
             p8 = put_texts resp [''console_formatter'', ''file_formatter''] p7 in
         (None, put_booleans resp p8)))"

section \<open>Serializing the form\<close>

text \<open>\<open>$('#i').val().replace(/,/, '.')\<close>\<close>

definition point_val :: "string \<Rightarrow> 'a page_scheme \<Rightarrow> js_error + jsval" where
  "point_val i p = (case val_of i p of JStr s \<Rightarrow> Inr (JStr (replace_str '','' ''.'' s)) | _ \<Rightarrow> Inl TypeError)"

definition point_ids :: "string list" where
  "point_ids = [''memory'', ''disk_size'', ''cpu_time_exec_cmds'', ''memory_exec_cmds'', ''cpu_time_exec_emg'', ''memory_exec_emg'']"

fun serialize_field :: "string \<Rightarrow> 'a page_scheme \<Rightarrow> js_error + jsval" where
  "serialize_field k p =
     (if k \<in> set radio_names then Inr (radio_val k p)
      else if k = ''parallelism'' then Inr (JArr (map (\<lambda>i. val_of i p) parallelism_ids))
      else if k \<in> set point_ids then point_val k p
      else if k = ''cpu_num'' then Inr (if truthy (val_of k p) then val_of k p else JNull)
      else Inr (val_of k p))"

definition form_keys :: "string list" where
  "form_keys = radio_names @ [''max_tasks'', ''parallelism'', ''memory'', ''cpu_num'', ''disk_size'', ''cpu_model'',
     ''cpu_time_exec_cmds'', ''memory_exec_cmds'', ''cpu_time_exec_emg'', ''memory_exec_emg'', ''console_level'',
     ''file_level'', ''console_formatter'', ''file_formatter'']"

definition serialize_data :: "'a page_scheme \<Rightarrow> js_error + (string \<times> jsval) list" where
  "serialize_data p =
     bindE (foldE (\<lambda>d k. bindE (serialize_field k p) (\<lambda>v. Inr (d @ [(k, v)]))) [] form_keys)
       (\<lambda>d. Inr (foldl (\<lambda>d e. obj_set (el_id e) (JBool (el_checked e)) d) d (select (by_class ''boolean-value'') p)))"

definition serialize :: "'a page_scheme \<Rightarrow> js_error + string" where
  "serialize p = bindE (serialize_data p) (\<lambda>d. Inr (stringify (JObj d)))"

section \<open>Choosing a configuration\<close>

record start_page = page +
  sd_conf_url :: string
  sd_values_url :: string
  sd_check_cloud :: bool

definition onSelectionChanged :: "string \<Rightarrow> start_page \<Rightarrow> start_page" where
  "onSelectionChanged new_value p =
     (if new_value = ''file_conf'' then
        update_id ''upload_file_conf_form'' shown_el (update_id ''select_lastconf_form'' hidden_el p)
      else if new_value = ''lastconf'' then
        (let p1 = update_id ''upload_file_conf_form'' hidden_el p;
             p2 = send ''POST'' (sd_conf_url p1) (JObj [(''decision'', parseInt_val (val_of ''lastconf_select'' p1))]) ''update'' p1 in
         update_id ''select_lastconf_form'' shown_el p2)
      else
        (let p1 = update_id ''select_lastconf_form'' hidden_el (update_id ''upload_file_conf_form'' hidden_el p) in
         send ''POST'' (sd_conf_url p1) (JObj [(''conf_name'', JStr new_value)]) ''update'' p1))"

definition lastconf_change :: "start_page \<Rightarrow> start_page" where
  "lastconf_change p =
     send ''POST'' (sd_conf_url p) (JObj [(''decision'', parseInt_val (val_of ''lastconf_select'' p))]) ''update'' p"

definition file_conf_select :: "string \<Rightarrow> start_page \<Rightarrow> start_page" where
  "file_conf_select file p =
     api_upload_file (sd_conf_url p) ''POST'' (JObj [(''file_conf'', JStr file)]) ''update_file'' p"

definition file_conf_uploaded :: "jsval \<Rightarrow> start_page \<Rightarrow> js_error option \<times> start_page" where
  "file_conf_uploaded resp p =
     (case update_form resp p of (Some e, q) \<Rightarrow> (Some e, q) | (None, q) \<Rightarrow> (None, dimmer_off q))"

definition get_attr_value_click :: "elem \<Rightarrow> start_page \<Rightarrow> start_page" where
  "get_attr_value_click e p =
     send ''POST'' (sd_values_url p) (JObj [(''name'', el_data e ''name''), (''value'', el_data e ''value'')]) ''attr_value'' p"

definition attr_value_loaded :: "(string \<times> jsval) list \<Rightarrow> start_page \<Rightarrow> start_page" where
  "attr_value_loaded resp p = foldl (\<lambda>q (k, v). put_val k v q) p resp"

definition selectDefaultOption :: "start_page \<Rightarrow> start_page" where
  "selectDefaultOption p =
     (if val_of ''configuration_mode'' p \<noteq> JStr ''default'' then
        emit (Widget ''#configuration_mode'' ''dropdown'' [JStr ''set selected'', JStr ''default''])
          (update_id ''configuration_mode'' (set_val (JStr ''default'')) p)
      else p)"

section \<open>The credentials of the cloud scheduler\<close>

definition parent_of :: "string \<Rightarrow> 'a page_scheme \<Rightarrow> selector" where
  "parent_of i p e = (case elem_by_id i p of None \<Rightarrow> False
     | Some c \<Rightarrow> (case el_anc c of [] \<Rightarrow> False | k # _ \<Rightarrow> el_key e = k))"

abbreviation user_modal :: string where "user_modal \<equiv> ''scheduler_user_modal''"

definition input_text :: "string \<Rightarrow> 'a page_scheme \<Rightarrow> string" where
  "input_text i p = to_str (val_of i p)"

text \<open>The warning icon of an input and the error mark of its parent.\<close>

definition mark_input :: "bool \<Rightarrow> string \<Rightarrow> string \<Rightarrow> 'a page_scheme \<Rightarrow> 'a page_scheme" where
  "mark_input err icon i p =
     (let p1 = update_id icon (set_hidden (\<not> err)) p in
      update (parent_of i p1) (if err then add_class ''error'' else remove_class ''error'') p1)"

definition check_sch_user_data :: "'a page_scheme \<Rightarrow> bool \<times> 'a page_scheme" where
  "check_sch_user_data p =
     (let no_login = input_text ''sch_login'' p = [];
          p1 = mark_input no_login ''sch_login_required'' ''sch_login'' p;
          no_passwd = input_text ''sch_password'' p1 = [];
          p2 = mark_input no_passwd ''sch_password_required'' ''sch_password'' p1;
          no_retype = input_text ''sch_password_retype'' p2 = [];
          p3 = mark_input no_retype ''sch_password_retype_required'' ''sch_password_retype'' p2;
          differ = input_text ''sch_password'' p3 \<noteq> [] \<and> input_text ''sch_password_retype'' p3 \<noteq> []
                   \<and> input_text ''sch_password_retype'' p3 \<noteq> input_text ''sch_password'' p3;
          p4 = mark_input differ ''sch_password_retype_match'' ''sch_password_retype'' p3;
          err_found = (no_login \<or> no_passwd \<or> no_retype \<or> differ) in
      (err_found, update (inside user_modal (by_class ''modal-confirm'') p4)
         (if err_found then add_class ''disabled'' else remove_class ''disabled'') p4))"

definition sch_user_confirm :: "string \<Rightarrow> start_page \<Rightarrow> start_page" where
  "sch_user_confirm add_user_url p =
     send ''POST'' add_user_url (JObj [(''login'', val_of ''sch_login'' p), (''password'', val_of ''sch_password'' p)]) ''sch_user'' p"

definition sch_user_saved :: "start_page \<Rightarrow> start_page" where
  "sch_user_saved p =
     (modal user_modal ''hide'' (success_notify (text_of ''verifiercloud_cred_saved'' p) (Some 10000) p))\<lparr>sd_check_cloud := False\<rparr>"

definition sch_user_cancel :: "start_page \<Rightarrow> start_page" where
  "sch_user_cancel = modal user_modal ''hide''"

definition scheduler_checked :: "elem \<Rightarrow> start_page \<Rightarrow> start_page" where
  "scheduler_checked e p =
     (if sd_check_cloud p \<and> elem_val e = JStr ''VerifierCloud'' then modal user_modal ''show'' p else p)"

definition initialize_sch_user_modal :: "start_page \<Rightarrow> bool \<times> start_page" where
  "initialize_sch_user_modal p =
     (if \<not> exists_id user_modal p then (False, p)
      else (True, (modal user_modal ''init'' p)\<lparr>sd_check_cloud := True\<rparr>))"

section \<open>What filling the form keeps\<close>

text \<open>The parts of the elements that no operation of the form changes.\<close>

definition skel :: "'a page_scheme \<Rightarrow> (nat \<times> string \<times> string \<times> string \<times> string list) list" where
  "skel p = map (\<lambda>e. (el_key e, el_id e, el_name e, el_tag e, el_classes e)) (doc p)"

lemma skel_put_val [simp]: "skel (put_val i v p) = skel p"
  by (simp add: skel_def put_val_def update_id_def map_upd_first set_val_def)

lemma skel_dropdown [simp]: "skel (dropdown_set i v p) = skel p"
  by (simp add: skel_def dropdown_set_def update_id_def map_upd_first set_opts_def)

lemma skel_check [simp]: "skel (update P (\<lambda>e. set_checked (c e) e) p) = skel p"
  by (simp add: skel_def update_def set_checked_def)

lemma skel_radio [simp]: "skel (radio_check n v p) = skel p"
  by (simp add: radio_check_def split: list.split)

lemma skel_booleans [simp]: "skel (put_booleans resp p) = skel p"
  by (simp add: put_booleans_def)

text \<open>Text inputs, and lists of levels with an option for the value.\<close>

definition text_el :: "string \<Rightarrow> 'a page_scheme \<Rightarrow> bool" where
  "text_el i p = (case elem_by_id i p of None \<Rightarrow> False | Some e \<Rightarrow> el_tag e \<noteq> ''select'')"

definition level_el :: "string \<Rightarrow> string \<Rightarrow> 'a page_scheme \<Rightarrow> bool" where
  "level_el i v p = (case elem_by_id i p of None \<Rightarrow> False | Some e \<Rightarrow> el_tag e = ''select'' \<and> el_attrs e ''multiple'' = None
     \<and> all_enabled (el_opts e) \<and> v \<in> o_value ` set (el_opts e))"

lemma keeps_checked [simp, intro]: "keeps_id (\<lambda>e. set_checked (c e) e)" "keeps_id (\<lambda>e. set_opts (g e) e)"
  by (simp_all add: keeps_id_def set_checked_def set_opts_def)

lemma fields_kept [simp]:
  "el_tag (set_checked b e) = el_tag e" "el_tag (set_val v e) = el_tag e" "el_tag (set_opts os e) = el_tag e"
  "el_attrs (set_checked b e) = el_attrs e" "el_attrs (set_val v e) = el_attrs e" "el_attrs (set_opts os e) = el_attrs e"
  "el_opts (set_checked b e) = el_opts e" "el_opts (set_val v e) = el_opts e" "el_opts (set_opts os e) = os"
  "elem_val (set_checked b e) = elem_val e"
  by (simp_all add: set_checked_def set_val_def set_opts_def elem_val_def)

lemma text_el_ops [simp]:
  "text_el i (put_val j v p) = text_el i p" "text_el i (update P (\<lambda>e. set_checked (c e) e) p) = text_el i p"
  "text_el i (dropdown_set j v p) = text_el i p"
  by (simp_all add: text_el_def put_val_def dropdown_set_def split: option.split)

lemma level_el_ops [simp]:
  "level_el i v (put_val j w p) = level_el i v p" "level_el i v (update P (\<lambda>e. set_checked (c e) e) p) = level_el i v p"
  "i \<noteq> j \<Longrightarrow> level_el i v (dropdown_set j w p) = level_el i v p"
  by (simp_all add: level_el_def put_val_def dropdown_set_def split: option.split)

lemma val_of_put_val:
  "text_el j p \<Longrightarrow> val_of i (put_val j v p) = (if i = j then JStr (val_str v) else val_of i p)"
  by (auto simp: val_of_def text_el_def put_val_def elem_val_def split: option.splits)

lemma val_of_check [simp]: "val_of i (update P (\<lambda>e. set_checked (c e) e) p) = val_of i p"
  by (auto simp: val_of_def split: option.split)

lemma val_of_dropdown:
  assumes "level_el j (to_str v) p"
  shows "val_of i (dropdown_set j v p) = (if i = j then JStr (to_str v) else val_of i p)"
proof (cases "i = j")
  case True
  obtain e where e: "elem_by_id j p = Some e" "el_tag e = ''select''" "el_attrs e ''multiple'' = None"
    "all_enabled (el_opts e)" "to_str v \<in> o_value ` set (el_opts e)" using assms by (auto simp: level_el_def split: option.splits)
  define os where "os = set_selected (to_str v) (el_opts e)"
  have en: "filter (\<lambda>q. o_selected q \<and> \<not> o_disabled q) os = filter o_selected os"
    using set_selected_keeps(3)[OF e(4)] by (intro filter_cong refl) (auto simp: os_def all_enabled_def)
  have "selected_value os = JStr (to_str v)" using selected_value_set[OF e(5)] by (simp add: os_def)
  then have "(case map o_value (filter o_selected os) of [] \<Rightarrow> JNull | x # _ \<Rightarrow> JStr x) = JStr (to_str v)"
    by (auto simp: selected_value_def split: list.splits)
  then show ?thesis using True e by (simp add: val_of_def dropdown_set_def elem_val_def os_def[symmetric] en)
next
  case False
  then show ?thesis by (simp add: val_of_def dropdown_set_def)
qed

lemma radio_check_frame [simp]:
  "text_el i (radio_check n v p) = text_el i p" "level_el i w (radio_check n v p) = level_el i w p"
  "val_of i (radio_check n v p) = val_of i p"
  by (simp_all add: radio_check_def split: list.split)

lemma radio_checks_frame [simp]:
  "text_el i (foldl (\<lambda>q n. radio_check n (g n) q) p ns) = text_el i p"
  "level_el i w (foldl (\<lambda>q n. radio_check n (g n) q) p ns) = level_el i w p"
  "skel (foldl (\<lambda>q n. radio_check n (g n) q) p ns) = skel p"
  by (induction ns arbitrary: p) simp_all

lemma put_texts_frame [simp]:
  "text_el i (put_texts resp ks p) = text_el i p" "level_el i w (put_texts resp ks p) = level_el i w p"
  "skel (put_texts resp ks p) = skel p"
  unfolding put_texts_def by (induction ks arbitrary: p) simp_all

lemma val_of_put_texts:
  "\<forall>k \<in> set ks. text_el k p \<Longrightarrow>
    val_of i (put_texts resp ks p) = (if i \<in> set ks then JStr (val_str (get_prop resp i)) else val_of i p)"
proof (induction ks arbitrary: p)
  case (Cons k ks)
  have "put_texts resp (k # ks) p = put_texts resp ks (put_val k (get_prop resp k) p)" by (simp add: put_texts_def)
  then show ?case using Cons by (auto simp: val_of_put_val)
qed (simp add: put_texts_def)

lemma put_parallelism_frame [simp]:
  "text_el i (put_parallelism vs p) = text_el i p" "level_el i w (put_parallelism vs p) = level_el i w p"
  "skel (put_parallelism vs p) = skel p"
  by (simp_all add: put_parallelism_def parallelism_ids_def)

lemma val_of_put_parallelism:
  assumes "\<forall>k \<in> set parallelism_ids. text_el k p" "length vs = 5"
  shows "map (\<lambda>k. val_of k (put_parallelism vs p)) parallelism_ids = map (JStr \<circ> val_str) vs"
    and "i \<notin> set parallelism_ids \<Longrightarrow> val_of i (put_parallelism vs p) = val_of i p"
proof -
  obtain a b c d e where vs: "vs = [a, b, c, d, e]" using assms(2) by (auto simp: eval_nat_numeral length_Suc_conv)
  show "map (\<lambda>k. val_of k (put_parallelism vs p)) parallelism_ids = map (JStr \<circ> val_str) vs"
    using assms(1) by (simp add: vs put_parallelism_def parallelism_ids_def val_of_put_val)
  show "i \<notin> set parallelism_ids \<Longrightarrow> val_of i (put_parallelism vs p) = val_of i p"
    using assms(1) by (simp add: vs put_parallelism_def parallelism_ids_def val_of_put_val)
qed

section \<open>Radio buttons\<close>

definition has_choice :: "string \<Rightarrow> string \<Rightarrow> 'a page_scheme \<Rightarrow> bool" where
  "has_choice n v p = (\<exists>e \<in> set (select (by_name ''input'' n) p). el_val e = JStr v)"

lemma by_name_checked [simp]: "by_name t n (set_checked b e) = by_name t n e"
  by (simp add: by_name_def set_checked_def)

lemma select_name_checked:
  "select (by_name t n) (update P (\<lambda>e. set_checked (c e) e) p)
    = map (\<lambda>e. if P e then set_checked (c e) e else e) (select (by_name t n) p)"
  by (rule select_update_keeps) simp

lemma radio_val_check:
  assumes "has_choice n' v p" "distinct (map fst (skel p))"
  shows "radio_val n (radio_check n' v p) = (if n = n' then JStr v else radio_val n p)"
proof -
  let ?es = "filter (\<lambda>e. el_val e = JStr v) (select (by_name ''input'' n') p)"
  define l where "l = last ?es"
  have ne: "?es \<noteq> []" using assms(1) by (auto simp: has_choice_def filter_empty_conv)
  have l: "l \<in> set (select (by_name ''input'' n') p)" "el_val l = JStr v" using last_in_set[OF ne] by (simp_all add: l_def)
  have rc: "radio_check n' v p = update (by_name ''input'' n') (\<lambda>e. set_checked (el_key e = el_key l) e) p"
    using ne by (simp add: radio_check_def l_def split: list.split)
  show ?thesis
  proof (cases "n = n'")
    case True
    have keys: "el_key e = el_key l \<longleftrightarrow> e = l" if "e \<in> set (select (by_name ''input'' n') p)" for e
      using assms(2) that l by (auto simp: skel_def comp_def distinct_map inj_on_def select_def)
    have "select (by_name ''input'' n') (radio_check n' v p)
        = map (\<lambda>e. set_checked (el_key e = el_key l) e) (select (by_name ''input'' n') p)"
      unfolding rc select_name_checked by (rule map_cong) (auto simp: select_def)
    then have "filter el_checked (select (by_name ''input'' n') (radio_check n' v p))
        = map (\<lambda>e. set_checked (el_key e = el_key l) e) (filter (\<lambda>e. el_key e = el_key l) (select (by_name ''input'' n') p))"
      by (simp add: filter_map comp_def)
    moreover have "filter (\<lambda>e. el_key e = el_key l) (select (by_name ''input'' n') p) \<noteq> []"
      and "\<forall>e \<in> set (filter (\<lambda>e. el_key e = el_key l) (select (by_name ''input'' n') p)). e = l"
      using l keys by (auto simp: filter_empty_conv)
    moreover have "elem_val l = JStr v" using l by (simp add: elem_val_def select_def by_name_def)
    ultimately show ?thesis using True
      by (cases "filter (\<lambda>e. el_key e = el_key l) (select (by_name ''input'' n') p)") (simp_all add: radio_val_def)
  next
    case False
    have "select (by_name ''input'' n) (radio_check n' v p) = select (by_name ''input'' n) p"
      unfolding rc select_name_checked using False by (intro map_idI) (auto simp: select_def by_name_def)
    then show ?thesis using False by (simp add: radio_val_def)
  qed
qed

lemma has_choice_radio [simp]: "has_choice n v (radio_check n' v' p) = has_choice n v p"
proof -
  have "has_choice n v (update P (\<lambda>e. set_checked (c e) e) p) = has_choice n v p" for P c
  proof -
    have "el_val (if P e then set_checked (c e) e else e) = el_val e" for e by simp
    then show ?thesis unfolding has_choice_def select_name_checked set_map by (simp only: bex_simps)
  qed
  then show ?thesis by (simp add: radio_check_def split: list.split)
qed

text \<open>Text inputs, lists and check boxes are no radio buttons.\<close>

definition text_ids :: "string list" where
  "text_ids = [''max_tasks''] @ parallelism_ids @ [''memory'', ''cpu_num'', ''disk_size'', ''cpu_model'', ''cpu_time_exec_cmds'',
     ''memory_exec_cmds'', ''cpu_time_exec_emg'', ''memory_exec_emg'', ''console_formatter'', ''file_formatter'']"

definition apart :: "'a page_scheme \<Rightarrow> bool" where
  "apart p = (distinct (map fst (skel p)) \<and> (\<forall>(k, i, n, t, cs) \<in> set (skel p).
     (i \<in> set (text_ids @ [''console_level'', ''file_level'']) \<longrightarrow> n \<notin> set radio_names)
     \<and> (''boolean-value'' \<in> set cs \<longrightarrow> n \<notin> set radio_names \<and> i \<notin> set form_keys)))"

lemma apart_skel: "skel q = skel p \<Longrightarrow> apart q = apart p"
  by (simp add: apart_def)

lemma apart_ops [simp]:
  "apart (put_val i v p) = apart p" "apart (dropdown_set i v p) = apart p" "apart (put_booleans resp p) = apart p"
  "apart (put_texts resp ks p) = apart p" "apart (put_parallelism vs p) = apart p"
  "apart (foldl (\<lambda>q n. radio_check n (g n) q) p ns) = apart p"
  by (rule apart_skel, simp)+

lemma apartD:
  assumes "apart p" "e \<in> set (doc p)"
  shows "el_id e \<in> set (text_ids @ [''console_level'', ''file_level'']) \<Longrightarrow> el_name e \<notin> set radio_names"
    and "has_class ''boolean-value'' e \<Longrightarrow> el_name e \<notin> set radio_names \<and> el_id e \<notin> set form_keys"
  using assms by (auto simp: apart_def skel_def has_class_def)

lemma filter_upd_first_in:
  "(\<And>x. x \<in> set xs \<Longrightarrow> P x \<Longrightarrow> \<not> Q x \<and> \<not> Q (f x)) \<Longrightarrow> filter Q (upd_first P f xs) = filter Q xs"
  by (induction xs) auto

lemma radio_val_update_id:
  assumes "apart p" "i \<in> set (text_ids @ [''console_level'', ''file_level''])" "keeps_id f" "n \<in> set radio_names"
  shows "radio_val n (update_id i f p) = radio_val n p"
proof -
  have "select (by_name ''input'' n) (update_id i f p) = select (by_name ''input'' n) p"
    unfolding select_def update_id_def using apartD(1)[OF assms(1)] assms(2-4)
    by (simp, intro filter_upd_first_in) (auto simp: by_id_def by_name_def keeps_id_def)
  then show ?thesis by (simp add: radio_val_def)
qed

lemma radio_val_put:
  assumes "apart p" "n \<in> set radio_names"
  shows "i \<in> set text_ids \<Longrightarrow> radio_val n (put_val i v p) = radio_val n p"
    "i \<in> {''console_level'', ''file_level''} \<Longrightarrow> radio_val n (dropdown_set i v p) = radio_val n p"
  unfolding put_val_def dropdown_set_def using radio_val_update_id[OF assms(1) _ _ assms(2)] by auto

lemma radio_val_put_texts:
  "apart p \<Longrightarrow> n \<in> set radio_names \<Longrightarrow> set ks \<subseteq> set text_ids \<Longrightarrow> radio_val n (put_texts resp ks p) = radio_val n p"
proof (induction ks arbitrary: p)
  case (Cons k ks)
  have "put_texts resp (k # ks) p = put_texts resp ks (put_val k (get_prop resp k) p)" by (simp add: put_texts_def)
  then show ?case using Cons by (simp add: radio_val_put(1))
qed (simp add: put_texts_def)

lemma radio_val_put_parallelism:
  assumes "apart p" "n \<in> set radio_names"
  shows "radio_val n (put_parallelism vs p) = radio_val n p"
proof -
  have "i \<in> set parallelism_ids \<Longrightarrow> apart q \<Longrightarrow> radio_val n (put_val i v q) = radio_val n q" for i v and q :: "'a page_scheme"
    using radio_val_put(1)[OF _ assms(2)] by (auto simp: text_ids_def)
  then show ?thesis using assms(1) by (simp add: put_parallelism_def parallelism_ids_def)
qed

lemma radio_val_booleans:
  assumes "apart p" "n \<in> set radio_names"
  shows "radio_val n (put_booleans resp p) = radio_val n p"
proof -
  have "select (by_name ''input'' n) (put_booleans resp p) = select (by_name ''input'' n) p"
    unfolding put_booleans_def select_name_checked using apartD(2)[OF assms(1)] assms(2)
    by (intro map_idI) (auto simp: select_def by_name_def by_class_def)
  then show ?thesis by (simp add: radio_val_def)
qed

section \<open>Properties\<close>

text \<open>
  An answer that fits the form: every radio group has the value, every list has the level, there are
  five numbers of workers, sizes and times are written without commas.
\<close>

definition resp_ok :: "jsval \<Rightarrow> 'a page_scheme \<Rightarrow> bool" where
  "resp_ok resp p = ((\<forall>n \<in> set radio_names. has_choice n (to_str (get_prop resp n)) p)
     \<and> (\<forall>i \<in> {''console_level'', ''file_level''}. level_el i (to_str (get_prop resp i)) p)
     \<and> (\<exists>vs. get_prop resp ''parallelism'' = JArr vs \<and> length vs = 5)
     \<and> (\<forall>i \<in> set point_ids. CHR '','' \<notin> set (val_str (get_prop resp i)))
     \<and> (truthy (get_prop resp ''cpu_num'') \<longrightarrow> val_str (get_prop resp ''cpu_num'') \<noteq> []))"

definition form_ok :: "'a page_scheme \<Rightarrow> bool" where
  "form_ok p = (apart p \<and> (\<forall>k \<in> set text_ids. text_el k p))"

text \<open>What the form sends for a key of the configuration it was filled from.\<close>

definition sent_value :: "jsval \<Rightarrow> string \<Rightarrow> jsval" where
  "sent_value resp k =
     (if k \<in> set radio_names \<union> {''console_level'', ''file_level''} then JStr (to_str (get_prop resp k))
      else if k = ''parallelism'' then (case get_prop resp k of JArr vs \<Rightarrow> JArr (map (JStr \<circ> val_str) vs) | _ \<Rightarrow> JUndef)
      else if k = ''cpu_num'' \<and> \<not> truthy (get_prop resp k) then JNull
      else JStr (val_str (get_prop resp k)))"

lemma filled_radios:
  assumes "apart p" "\<forall>n \<in> set radio_names. has_choice n (g n) p" "n \<in> set radio_names"
  shows "radio_val n (foldl (\<lambda>q n. radio_check n (g n) q) p radio_names) = JStr (g n)"
proof -
  have d: "distinct (map fst (skel p))" using assms(1) by (simp add: apart_def)
  have "radio_val n (radio_check n' v q) = (if n = n' then JStr v else radio_val n q)"
    if "has_choice n' v q" "skel q = skel p" for n n' v and q :: "'a page_scheme"
    using radio_val_check[OF that(1)] that(2) d by simp
  then show ?thesis using assms(2,3) by (auto simp: radio_names_def)
qed

lemma no_comma: "CHR '','' \<notin> set s \<Longrightarrow> replace_str '','' ''.'' s = s"
  by (simp add: replace_str_def break_at_char_None)

definition plain_keys :: "string list" where
  "plain_keys = [''max_tasks'', ''memory'', ''disk_size'', ''cpu_model'', ''cpu_time_exec_cmds'', ''memory_exec_cmds'',
     ''cpu_time_exec_emg'', ''memory_exec_emg'', ''console_level'', ''file_level'', ''console_formatter'', ''file_formatter'']"

lemma form_keys_split: "set form_keys = set radio_names \<union> {''parallelism'', ''cpu_num''} \<union> set plain_keys"
  by (auto simp: form_keys_def plain_keys_def)

text \<open>The form after filling it, step by step.\<close>

lemma update_form_steps:
  assumes "get_prop resp ''parallelism'' = JArr vs"
  shows "update_form resp p = (None, put_booleans resp (put_texts resp [''console_formatter'', ''file_formatter'']
    (dropdown_set ''file_level'' (get_prop resp ''file_level'') (dropdown_set ''console_level'' (get_prop resp ''console_level'')
      (put_texts resp [''disk_size'', ''cpu_model'', ''cpu_time_exec_cmds'', ''memory_exec_cmds'', ''cpu_time_exec_emg'', ''memory_exec_emg'']
        (put_val ''cpu_num'' (if truthy (get_prop resp ''cpu_num'') then get_prop resp ''cpu_num'' else JStr [])
          (put_texts resp [''memory''] (put_parallelism vs (put_texts resp [''max_tasks'']
            (foldl (\<lambda>q n. radio_check n (to_str (get_prop resp n)) q) p radio_names))))))))))"
  by (simp add: update_form_def Let_def assms)

lemma filled_vals:
  assumes f: "form_ok p" and r: "resp_ok resp p" and u: "update_form resp p = (None, q)"
  shows "\<forall>k \<in> set plain_keys. val_of k q = sent_value resp k"
    "val_of ''cpu_num'' q = JStr (val_str (if truthy (get_prop resp ''cpu_num'') then get_prop resp ''cpu_num'' else JStr []))"
    "JArr (map (\<lambda>k. val_of k q) parallelism_ids) = sent_value resp ''parallelism''"
proof -
  obtain vs where vs: "get_prop resp ''parallelism'' = JArr vs" "length vs = 5" using r by (auto simp: resp_ok_def)
  note q = update_form_steps[OF vs(1), of p, unfolded u prod.inject, THEN conjunct2]
  have t: "k \<in> set text_ids \<Longrightarrow> text_el k p" for k using f by (simp add: form_ok_def)
  have l: "level_el ''console_level'' (to_str (get_prop resp ''console_level'')) p" "level_el ''file_level'' (to_str (get_prop resp ''file_level'')) p"
    using r by (simp_all add: resp_ok_def)
  have b: "val_of i (put_booleans resp p) = val_of i p" for i and p :: "'a page_scheme" by (simp add: put_booleans_def)
  note ev = q b val_of_put_texts val_of_put_val val_of_dropdown val_of_put_parallelism(2) l t text_ids_def vs parallelism_ids_def
  show "val_of ''cpu_num'' q = JStr (val_str (if truthy (get_prop resp ''cpu_num'') then get_prop resp ''cpu_num'' else JStr []))"
    by (simp add: ev)
  show "\<forall>k \<in> set plain_keys. val_of k q = sent_value resp k"
    by (simp add: ev plain_keys_def sent_value_def radio_names_def)
  have "val_of k q = val_of k (put_parallelism vs (put_texts resp [''max_tasks'']
      (foldl (\<lambda>q n. radio_check n (to_str (get_prop resp n)) q) p radio_names)))" if "k \<in> set parallelism_ids" for k
  proof -
    have "k \<notin> set plain_keys" "k \<noteq> ''cpu_num''" using that by (auto simp: parallelism_ids_def plain_keys_def)
    then show ?thesis by (simp add: q b val_of_put_texts val_of_put_val val_of_dropdown l t text_ids_def plain_keys_def)
  qed
  then have "map (\<lambda>k. val_of k q) parallelism_ids = map (\<lambda>k. val_of k (put_parallelism vs (put_texts resp [''max_tasks'']
      (foldl (\<lambda>q n. radio_check n (to_str (get_prop resp n)) q) p radio_names)))) parallelism_ids"
    by (simp cong: map_cong)
  also have "\<dots> = map (JStr \<circ> val_str) vs"
    by (rule val_of_put_parallelism(1)[OF _ vs(2)]) (use t in \<open>simp add: text_ids_def\<close>)
  finally have "map (\<lambda>k. val_of k q) parallelism_ids = map (JStr \<circ> val_str) vs" .
  then show "JArr (map (\<lambda>k. val_of k q) parallelism_ids) = sent_value resp ''parallelism''"
    by (simp add: sent_value_def vs(1) radio_names_def)
qed

lemma filled_fields:
  assumes f: "form_ok p" and r: "resp_ok resp p" and u: "update_form resp p = (None, q)" and k: "k \<in> set form_keys"
  shows "serialize_field k q = Inr (sent_value resp k)"
proof -
  obtain vs where vs: "get_prop resp ''parallelism'' = JArr vs" "length vs = 5" using r by (auto simp: resp_ok_def)
  note q = update_form_steps[OF vs(1), of p, unfolded u prod.inject, THEN conjunct2]
  note v = filled_vals[OF f r u]
  have a: "apart p" using f by (simp add: form_ok_def)
  show ?thesis
  proof (cases "k \<in> set radio_names")
    case True
    have "radio_val k q = JStr (to_str (get_prop resp k))"
      using filled_radios[OF a _ True, of "\<lambda>n. to_str (get_prop resp n)"] r a True
      by (simp add: q radio_val_booleans radio_val_put_texts radio_val_put radio_val_put_parallelism resp_ok_def text_ids_def)
    then show ?thesis using True by (simp add: sent_value_def)
  next
    case False
    have pt: "point_val i q = Inr (sent_value resp i)" if "i \<in> set point_ids" for i
    proof -
      have "i \<in> set plain_keys" using that by (auto simp: point_ids_def plain_keys_def)
      then have "val_of i q = sent_value resp i" using v(1) by blast
      moreover have "sent_value resp i = JStr (val_str (get_prop resp i))" using that by (auto simp: sent_value_def point_ids_def radio_names_def)
      moreover have "CHR '','' \<notin> set (val_str (get_prop resp i))" using r that by (simp add: resp_ok_def)
      ultimately show ?thesis by (simp add: point_val_def no_comma)
    qed
    have c: "truthy (get_prop resp ''cpu_num'') \<longrightarrow> val_str (get_prop resp ''cpu_num'') \<noteq> []" using r by (simp add: resp_ok_def)
    consider "k = ''parallelism''" | "k \<in> set point_ids" | "k = ''cpu_num''" | "k \<in> set plain_keys" "k \<notin> set point_ids"
      using k False unfolding form_keys_split by blast
    then show ?thesis
    proof cases
      case 3
      then show ?thesis using v(2) c False by (auto simp: sent_value_def val_str_def point_ids_def radio_names_def)
    next
      case 4
      then have "k \<noteq> ''parallelism''" "k \<noteq> ''cpu_num''" by (auto simp: plain_keys_def)
      then show ?thesis using 4 False v(1) by simp
    qed (use False v pt in \<open>auto simp: point_ids_def\<close>)
  qed
qed

lemma foldE_fields:
  "\<forall>k \<in> set ks. g k = Inr (v k) \<Longrightarrow>
    foldE (\<lambda>d k. bindE (g k) (\<lambda>x. Inr (d @ [(k, x)]))) d ks = Inr (d @ map (\<lambda>k. (k, v k)) ks)"
  by (induction ks arbitrary: d) simp_all

lemma obj_get_fields: "k \<in> set ks \<Longrightarrow> obj_get (map (\<lambda>k. (k, v k)) ks) k = v k"
  by (induction ks) auto

lemma obj_get_flags:
  "obj_get (foldl (\<lambda>d e. obj_set (el_id e) (JBool (h (el_id e))) d) d es) k
    = (if k \<in> el_id ` set es then JBool (h k) else obj_get d k)"
  by (induction es arbitrary: d) auto

lemma booleans_filled:
  assumes "q = put_booleans resp p"
  shows "map el_id (select (by_class ''boolean-value'') q) = map el_id (select (by_class ''boolean-value'') p)"
    "\<forall>e \<in> set (select (by_class ''boolean-value'') q). el_checked e = truthy (get_prop resp (el_id e))"
proof -
  have id: "el_id (set_checked b e) = el_id e" for b e by (simp add: set_checked_def)
  have "select (by_class ''boolean-value'') q
      = map (\<lambda>e. if by_class ''boolean-value'' e then set_checked (truthy (get_prop resp (el_id e))) e else e) (select (by_class ''boolean-value'') p)"
    unfolding assms put_booleans_def by (rule select_update_keeps) (simp add: by_class_def)
  then have "select (by_class ''boolean-value'') q
      = map (\<lambda>e. set_checked (truthy (get_prop resp (el_id e))) e) (select (by_class ''boolean-value'') p)"
    by (auto simp: select_def intro!: map_cong)
  then show "map el_id (select (by_class ''boolean-value'') q) = map el_id (select (by_class ''boolean-value'') p)"
    "\<forall>e \<in> set (select (by_class ''boolean-value'') q). el_checked e = truthy (get_prop resp (el_id e))"
    by (auto simp: id comp_def)
qed

lemma boolean_ids_skel:
  "map el_id (select (by_class ''boolean-value'') p)
    = map (\<lambda>(k, i, n, t, cs). i) (filter (\<lambda>(k, i, n, t, cs). ''boolean-value'' \<in> set cs) (skel p))"
proof -
  have "by_class ''boolean-value'' = (\<lambda>e. ''boolean-value'' \<in> set (el_classes e))"
    by (rule ext) (simp add: by_class_def has_class_def)
  then show ?thesis by (simp add: skel_def select_def filter_map comp_def)
qed

text \<open>
  C10. A configuration put into the form is sent back unchanged: filling the form succeeds, and
  the serialized form has for every key the text of its value in the configuration, the chosen radio
  buttons and levels, the five numbers of workers, \<open>null\<close> for no number of processors, and for
  every check box whether the configuration turns it on.
\<close>

theorem configuration_round_trip:
  assumes f: "form_ok p" and r: "resp_ok resp p"
  shows "\<exists>q d. update_form resp p = (None, q) \<and> serialize q = Inr (stringify (JObj d))
    \<and> (\<forall>k \<in> set form_keys. obj_get d k = sent_value resp k)
    \<and> (\<forall>i \<in> el_id ` set (select (by_class ''boolean-value'') p). obj_get d i = JBool (truthy (get_prop resp i)))"
proof -
  obtain vs where vs: "get_prop resp ''parallelism'' = JArr vs" using r by (auto simp: resp_ok_def)
  define q where "q = snd (update_form resp p)"
  have u: "update_form resp p = (None, q)" by (simp add: q_def update_form_steps[OF vs])
  obtain p8 where p8: "q = put_booleans resp p8" "skel p8 = skel p" by (simp add: q_def update_form_steps[OF vs])
  define es where "es = select (by_class ''boolean-value'') q"
  have ids: "el_id ` set es = el_id ` set (select (by_class ''boolean-value'') p)"
    unfolding es_def image_set boolean_ids_skel by (simp add: p8)
  have chk: "\<forall>e \<in> set es. el_checked e = truthy (get_prop resp (el_id e))" unfolding es_def by (rule booleans_filled(2)[OF p8(1)])
  have "\<forall>k \<in> set form_keys. serialize_field k q = Inr (sent_value resp k)" using filled_fields[OF f r u] by blast
  note fE = foldE_fields[OF this, of "[]"]
  define d where "d = foldl (\<lambda>d e. obj_set (el_id e) (JBool (truthy (get_prop resp (el_id e)))) d) (map (\<lambda>k. (k, sent_value resp k)) form_keys) es"
  have "foldl (\<lambda>d e. obj_set (el_id e) (JBool (el_checked e)) d) (map (\<lambda>k. (k, sent_value resp k)) form_keys) es = d"
    unfolding d_def using chk by (intro foldl_cong) simp_all
  then have "serialize q = Inr (stringify (JObj d))"
    by (simp add: serialize_def serialize_data_def fE es_def[symmetric] del: serialize_field.simps)
  moreover have "el_id e \<notin> set form_keys" if "e \<in> set (select (by_class ''boolean-value'') p)" for e
    using that apartD(2)[of p e] f by (simp add: form_ok_def select_def by_class_def)
  then have "k \<notin> el_id ` set es" if "k \<in> set form_keys" for k using that ids by auto
  ultimately show ?thesis using u ids
    by (intro exI[of _ q] exI[of _ d])
      (auto simp: d_def obj_get_flags[where h = "\<lambda>i. truthy (get_prop resp i)"] obj_get_fields)
qed

definition demo_input :: "nat \<Rightarrow> string \<Rightarrow> elem" where
  "demo_input k i = new_elem\<lparr>el_key := k, el_tag := ''input'', el_id := i, el_val := JStr []\<rparr>"

definition demo_radio :: "nat \<Rightarrow> string \<Rightarrow> string \<Rightarrow> elem" where
  "demo_radio k n v = new_elem\<lparr>el_key := k, el_tag := ''input'', el_name := n, el_val := JStr v\<rparr>"

definition demo_level :: "nat \<Rightarrow> string \<Rightarrow> elem" where
  "demo_level k i = new_elem\<lparr>el_key := k, el_tag := ''select'', el_id := i, el_opts := [new_opt ''INFO'' ''INFO'']\<rparr>"

definition demo_form :: page where
  "demo_form = \<lparr>doc =
     map (\<lambda>(k, i). demo_input k i) (enumerate 0 text_ids) @ map (\<lambda>(k, n). demo_radio k n ''A'') (enumerate 30 radio_names)
     @ map (\<lambda>(k, n). demo_radio k n ''B'') (enumerate 40 radio_names)
     @ [demo_level 50 ''console_level'', demo_level 51 ''file_level'',
        (demo_input 52 ''ignore_other_instances'')\<lparr>el_classes := [''boolean-value'']\<rparr>], out = [], href = []\<rparr>"

definition demo_conf :: jsval where
  "demo_conf = JObj ([(''parallelism'', JArr (map JNum [1, 2, 3, 4, 5])), (''memory'', JStr ''3.5''), (''cpu_num'', JNull),
     (''console_level'', JStr ''INFO''), (''file_level'', JStr ''INFO''), (''ignore_other_instances'', JBool True)]
     @ map (\<lambda>n. (n, JStr ''B'')) radio_names)"

lemma demo_form_ok: "form_ok demo_form"
  by code_simp

lemma demo_resp_ok: "resp_ok demo_conf demo_form"
proof -
  have "(\<forall>n \<in> set radio_names. has_choice n (to_str (get_prop demo_conf n)) demo_form)
     \<and> (\<forall>i \<in> {''console_level'', ''file_level''}. level_el i (to_str (get_prop demo_conf i)) demo_form)
     \<and> (\<forall>i \<in> set point_ids. CHR '','' \<notin> set (val_str (get_prop demo_conf i))) \<and> \<not> truthy (get_prop demo_conf ''cpu_num'')"
    by code_simp
  moreover have "get_prop demo_conf ''parallelism'' = JArr (map JNum [1, 2, 3, 4, 5])" by (simp add: demo_conf_def)
  ultimately show ?thesis unfolding resp_ok_def by simp
qed

theorem configuration_round_trip_witness:
  "form_ok demo_form \<and> resp_ok demo_conf demo_form
    \<and> (\<exists>q d. update_form demo_conf demo_form = (None, q) \<and> serialize q = Inr (stringify (JObj d))
        \<and> obj_get d ''weight'' = JStr ''B'' \<and> obj_get d ''console_level'' = JStr ''INFO'' \<and> obj_get d ''cpu_num'' = JNull)"
proof -
  have "''weight'' \<in> set form_keys" "''console_level'' \<in> set form_keys" "''cpu_num'' \<in> set form_keys"
    "sent_value demo_conf ''weight'' = JStr ''B''" "sent_value demo_conf ''console_level'' = JStr ''INFO''"
    "sent_value demo_conf ''cpu_num'' = JNull"
    by (simp_all add: form_keys_def radio_names_def sent_value_def demo_conf_def)
  note keys = this
  obtain q d where q: "update_form demo_conf demo_form = (None, q)" "serialize q = Inr (stringify (JObj d))"
      and d: "\<forall>k \<in> set form_keys. obj_get d k = sent_value demo_conf k"
    using configuration_round_trip[OF demo_form_ok demo_resp_ok] by blast
  show ?thesis
    by (intro conjI exI[of _ q] exI[of _ d] demo_form_ok demo_resp_ok q)
      (rule bspec[OF d, THEN trans], (rule keys)+)+
qed

section \<open>Checking the credentials\<close>

lemma inside_update:
  assumes "keeps_id f"
  shows "inside m (by_class c) (update P f p) = inside m (by_class c) p"
  using keeps_idD(2)[OF assms] by (auto simp: inside_def fun_eq_iff assms split: option.split)

lemma parent_of_update:
  assumes "keeps_id f"
  shows "parent_of i (update P f p) = parent_of i p"
  using keeps_idD(5)[OF assms] by (auto simp: parent_of_def fun_eq_iff assms split: option.split list.split)

lemma select_own_update:
  assumes "\<And>e. P (f e) = P e"
  shows "e \<in> set (select P (update P f p)) \<Longrightarrow> \<exists>e'. e = f e'"
  by (auto simp: select_def update_def assms split: if_splits)

lemma text_mark [simp]: "input_text j (mark_input err icon i p) = input_text j p"
proof -
  have "elem_val (add_class c e) = elem_val e" "elem_val (remove_class c e) = elem_val e" "elem_val (set_hidden h e) = elem_val e" for c h e
    by (simp_all add: elem_val_def add_class_def remove_class_def set_hidden_def)
  then show ?thesis by (cases err) (auto simp: input_text_def val_of_def mark_input_def Let_def split: option.split)
qed

text \<open>
  C37. The credentials are accepted exactly if there is a login, a password and the same password
  again, and the confirm button is enabled exactly then. The input of the second password is marked
  only when two different passwords are given: the mark for a missing one is taken away again.
\<close>

theorem credentials_checked:
  assumes "check_sch_user_data p = (err, q)"
  shows "(err \<longleftrightarrow> input_text ''sch_login'' p = [] \<or> input_text ''sch_password'' p = []
        \<or> input_text ''sch_password_retype'' p \<noteq> input_text ''sch_password'' p)
    \<and> (\<forall>e \<in> set (select (inside user_modal (by_class ''modal-confirm'') q) q). has_class ''disabled'' e \<longleftrightarrow> err)
    \<and> (\<forall>e \<in> set (select (parent_of ''sch_password_retype'' q) q). has_class ''error'' e \<longleftrightarrow>
        input_text ''sch_password'' p \<noteq> [] \<and> input_text ''sch_password_retype'' p \<noteq> []
        \<and> input_text ''sch_password_retype'' p \<noteq> input_text ''sch_password'' p)"
proof -
  define differ where "differ \<longleftrightarrow> input_text ''sch_password'' p \<noteq> [] \<and> input_text ''sch_password_retype'' p \<noteq> []
        \<and> input_text ''sch_password_retype'' p \<noteq> input_text ''sch_password'' p"
  define p3 where "p3 = mark_input (input_text ''sch_password_retype'' p = []) ''sch_password_retype_required'' ''sch_password_retype''
      (mark_input (input_text ''sch_password'' p = []) ''sch_password_required'' ''sch_password''
        (mark_input (input_text ''sch_login'' p = []) ''sch_login_required'' ''sch_login'' p))"
  define p4 where "p4 = mark_input differ ''sch_password_retype_match'' ''sch_password_retype'' p3"
  define f where "f = (if err then add_class ''disabled'' else remove_class ''disabled'')"
  have f: "keeps_id f" by (simp add: f_def)
  have err: "err = (input_text ''sch_login'' p = [] \<or> input_text ''sch_password'' p = [] \<or> input_text ''sch_password_retype'' p = [] \<or> differ)"
    and q: "q = update (inside user_modal (by_class ''modal-confirm'') p4) f p4"
    using assms by (auto simp: check_sch_user_data_def Let_def p3_def p4_def differ_def f_def)
  have "has_class ''disabled'' e \<longleftrightarrow> err" if "e \<in> set (select (inside user_modal (by_class ''modal-confirm'') q) q)" for e
  proof -
    have "inside user_modal (by_class ''modal-confirm'') p4 (f x) = inside user_modal (by_class ''modal-confirm'') p4 x" for x
      using keeps_idD(5)[OF f] by (auto simp: inside_def by_class_def f_def split: option.split)
    note own = select_own_update[of "inside user_modal (by_class ''modal-confirm'') p4" f, OF this]
    have "\<exists>e'. e = f e'" using own[of e p4] that unfolding q inside_update[OF f] .
    then show ?thesis by (cases err) (auto simp: f_def)
  qed
  moreover have "has_class ''error'' e \<longleftrightarrow> differ" if "e \<in> set (select (parent_of ''sch_password_retype'' q) q)" for e
  proof -
    define p' where "p' = update_id ''sch_password_retype_match'' (set_hidden (\<not> differ)) p3"
    define g where "g = (if differ then add_class ''error'' else remove_class ''error'')"
    have g: "keeps_id g" by (simp add: g_def)
    have p4: "p4 = update (parent_of ''sch_password_retype'' p') g p'" by (simp add: p4_def mark_input_def Let_def p'_def g_def)
    have "parent_of ''sch_password_retype'' p' (g x) = parent_of ''sch_password_retype'' p' x"
      "parent_of ''sch_password_retype'' p' (f x) = parent_of ''sch_password_retype'' p' x" for x
      using keeps_idD(2)[OF g] keeps_idD(2)[OF f] by (simp_all add: parent_of_def split: option.split list.split)
    then have "\<exists>e'. e = g e' \<or> e = f (g e')"
      using that unfolding q parent_of_update[OF f] unfolding p4 parent_of_update[OF g]
      by (auto simp: select_def update_def split: if_splits)
    then show ?thesis by (cases err; cases differ) (auto simp: f_def g_def)
  qed
  ultimately show ?thesis unfolding differ_def[symmetric] err using differ_def by auto
qed

definition demo_modal :: page where
  "demo_modal = \<lparr>doc =
     [new_elem\<lparr>el_key := 1, el_id := user_modal\<rparr>,
      new_elem\<lparr>el_key := 2, el_anc := [1]\<rparr>,
      (demo_input 3 ''sch_login'')\<lparr>el_val := JStr ''ann'', el_anc := [1]\<rparr>,
      (demo_input 4 ''sch_password'')\<lparr>el_val := JStr ''secret'', el_anc := [1]\<rparr>,
      (demo_input 5 ''sch_password_retype'')\<lparr>el_anc := [2, 1]\<rparr>,
      new_elem\<lparr>el_key := 6, el_anc := [1], el_classes := [''modal-confirm'']\<rparr>], out = [], href = []\<rparr>"

theorem credentials_checked_witness:
  "\<exists>q. check_sch_user_data demo_modal = (True, q)
    \<and> map (\<lambda>e. (el_key e, has_class ''disabled'' e)) (select (inside user_modal (by_class ''modal-confirm'') q) q) = [(6, True)]
    \<and> (\<forall>e \<in> set (select (parent_of ''sch_password_retype'' q) q). \<not> has_class ''error'' e)"
proof -
  obtain err q where q: "check_sch_user_data demo_modal = (err, q)" by force
  have t: "input_text ''sch_password_retype'' demo_modal = []" "input_text ''sch_password'' demo_modal = ''secret''"
    by (simp_all add: input_text_def val_of_def demo_modal_def elem_by_id_def by_id_def demo_input_def new_elem_def elem_val_def)
  note c = credentials_checked[OF q]
  have "map (\<lambda>e. (el_key e, has_class ''disabled'' e))
      (select (inside user_modal (by_class ''modal-confirm'') (snd (check_sch_user_data demo_modal))) (snd (check_sch_user_data demo_modal))) = [(6, True)]"
    by code_simp
  then show ?thesis using q c t by (intro exI[of _ q]) auto
qed

end
