(* ===== verification/Job_Lists.thy ===== *)
theory Job_Lists
  imports View_Settings
begin

text \<open>
  Pages with lists of objects and buttons that act on the selected ones: the tree of jobs
  (\<open>jobs/static/jobs/js/jobtree.js\<close>), the page of a job (\<open>jobPage.js\<close>) and the list of marks
  (\<open>marks/static/marks/js/marks.js\<close>). Deleting sends one request per object; when no request is left
  the page is reloaded, unless one of them failed.
\<close>

section \<open>Selected objects and buttons\<close>

definition checked_boxes :: "string \<Rightarrow> 'a page_scheme \<Rightarrow> elem list" where
  "checked_boxes c p = filter el_checked (select (by_class c) p)"

definition set_disabled :: "string \<Rightarrow> bool \<Rightarrow> 'a page_scheme \<Rightarrow> 'a page_scheme" where
  "set_disabled i b = update_id i (update_action_button b)"

definition is_disabled :: "string \<Rightarrow> 'a page_scheme \<Rightarrow> bool" where
  "is_disabled i p = (case elem_by_id i p of None \<Rightarrow> False | Some e \<Rightarrow> has_class ''disabled'' e)"

section \<open>Deleting in bulk\<close>

text \<open>
  The requests of one confirmation share a flag; a confirmation registers one more handler for the
  moment when no request is active. \<open>bk_left\<close>: the requests still to be answered, by their handler.
\<close>

record bulk_page = page +
  bk_flags :: "bool list"
  bk_left :: "nat list"

definition start_bulk :: "string list \<Rightarrow> 'a bulk_page_scheme \<Rightarrow> 'a bulk_page_scheme" where
  "start_bulk urls p =
     (let h = length (bk_flags p);
          p1 = foldl (\<lambda>q u. send ''DELETE'' u JUndef ''bulk'' q) (dimmer_on p) urls in
      p1\<lparr>bk_flags := bk_flags p @ [False], bk_left := bk_left p @ replicate (length urls) h\<rparr>)"

text \<open>The handlers of \<open>ajaxStop\<close>, in the order of their registration.\<close>

definition ajax_stop :: "'a bulk_page_scheme \<Rightarrow> 'a bulk_page_scheme" where
  "ajax_stop p = foldl (\<lambda>q failed. let r = dimmer_off q in if failed then r else reload r) p (bk_flags p)"

text \<open>The answer to the request number \<open>k\<close>; a failure also reaches the handler of all pages. The page sends
  no other requests while it removes, so that the requests of the removal are all that \<open>ajaxStop\<close> waits for.\<close>

definition bulk_answer :: "nat \<Rightarrow> jsval option \<Rightarrow> 'a bulk_page_scheme \<Rightarrow> 'a bulk_page_scheme" where
  "bulk_answer k failure p =
     (if k < length (bk_left p) then
        (let h = bk_left p ! k;
             p1 = (case failure of None \<Rightarrow> p | Some json \<Rightarrow> ajaxError json (p\<lparr>bk_flags := (bk_flags p)[h := True]\<rparr>));
             p2 = p1\<lparr>bk_left := take k (bk_left p) @ drop (Suc k) (bk_left p)\<rparr> in
         if bk_left p2 = [] then ajax_stop p2 else p2)
      else p)"

section \<open>The tree of jobs\<close>

definition get_selected_objs :: "string \<Rightarrow> 'a page_scheme \<Rightarrow> jsval list" where
  "get_selected_objs obj_type p = map (\<lambda>e. parseInt_val (elem_val e)) (checked_boxes (obj_type @ ''-checkbox'') p)"

definition upd_remove :: "'a page_scheme \<Rightarrow> 'a page_scheme" where
  "upd_remove p = set_disabled ''show_remove_selected_modal''
     (get_selected_objs ''job'' p = [] \<and> get_selected_objs ''decision'' p = [] \<and> get_selected_objs ''presetdir'' p = []) p"

definition upd_download :: "'a page_scheme \<Rightarrow> 'a page_scheme" where
  "upd_download p = set_disabled ''download_selected_jobs''
     (get_selected_objs ''job'' p = [] \<and> get_selected_objs ''decision'' p = []) p"

definition upd_compare :: "'a page_scheme \<Rightarrow> 'a page_scheme" where
  "upd_compare p =
     (let b = length (get_selected_objs ''decision'' p) \<noteq> 2 in
      set_disabled ''compare_reports_btn'' b (set_disabled ''compare_files_btn'' b p))"

definition job_checkbox_change :: "'a page_scheme \<Rightarrow> 'a page_scheme" where
  "job_checkbox_change p = upd_remove (upd_download p)"

definition decision_checkbox_change :: "'a page_scheme \<Rightarrow> 'a page_scheme" where
  "decision_checkbox_change p = upd_remove (upd_download (upd_compare p))"

definition presetdir_checkbox_change :: "'a page_scheme \<Rightarrow> 'a page_scheme" where
  "presetdir_checkbox_change p = upd_remove p"

record tree_page = bulk_page +
  jl_jobs :: "jsval list"
  jl_decisions :: "jsval list"
  jl_dirs :: "jsval list"
  jl_urls :: "string \<Rightarrow> string"

definition show_remove_selected_click :: "tree_page \<Rightarrow> tree_page" where
  "show_remove_selected_click p =
     (let p1 = popup_hide ''#jobs_actions_menu'' p;
          p2 = p1\<lparr>jl_jobs := get_selected_objs ''job'' p1, jl_decisions := get_selected_objs ''decision'' p1,
                  jl_dirs := get_selected_objs ''presetdir'' p1\<rparr> in
      if jl_jobs p2 = [] \<and> jl_decisions p2 = [] \<and> jl_dirs p2 = []
      then err_notify (text_of ''error__no_objs_to_delete'' p2) None p2
      else modal ''remove_selected_modal'' ''show'' p2)"

definition decision_remove_url :: "jsval \<Rightarrow> string" where
  "decision_remove_url i = ''/jobs/api/decision/'' @ to_str i @ ''/remove/''"

definition job_remove_url :: "jsval \<Rightarrow> string" where
  "job_remove_url i = ''/jobs/api/'' @ to_str i @ ''/remove/''"

definition dir_remove_url :: "jsval \<Rightarrow> string" where
  "dir_remove_url i = ''/jobs/api/api-preset-job-dir/'' @ to_str i @ ''/''"

definition remove_selected_confirm :: "tree_page \<Rightarrow> tree_page" where
  "remove_selected_confirm p =
     start_bulk (map decision_remove_url (jl_decisions p) @ map job_remove_url (jl_jobs p) @ map dir_remove_url (jl_dirs p))
       (modal ''remove_selected_modal'' ''hide'' p)"

definition ids_json :: "jsval list \<Rightarrow> string" where
  "ids_json is = stringify (JArr is)"

definition download_selected_click :: "tree_page \<Rightarrow> tree_page" where
  "download_selected_click p =
     (let p1 = popup_hide ''#jobs_actions_menu'' p; js = get_selected_objs ''job'' p1; ds = get_selected_objs ''decision'' p1 in
      if js = [] \<and> ds = [] then err_notify (text_of ''error__no_jobs_to_download'' p1) None p1
      else send ''POST'' (jl_urls p1 ''can_download'') (JObj [(''jobs'', JStr (ids_json js)), (''decisions'', JStr (ids_json ds))])
             ''can_download'' p1)"

text \<open>The answer uses the lists the click has captured.\<close>

definition can_download :: "jsval list \<Rightarrow> jsval list \<Rightarrow> tree_page \<Rightarrow> tree_page" where
  "can_download js ds p =
     navigate (jl_urls p ''download_jobs'' @ ''?jobs='' @ encodeURIComponent (ids_json js)
       @ ''&decisions='' @ encodeURIComponent (ids_json ds)) p"

definition two_of :: "jsval list \<Rightarrow> string" where
  "two_of is = to_str (is ! 0) @ ''/'' @ to_str (is ! 1) @ ''/''"

definition compare_reports_click :: "tree_page \<Rightarrow> tree_page" where
  "compare_reports_click p =
     (let ds = get_selected_objs ''decision'' p in
      if length ds \<noteq> 2 then err_notify (text_of ''error__no_decisions_to_compare'' p) None p
      else send ''POST'' (''/reports/api/fill-comparison/'' @ two_of ds) (JObj []) ''fill_comparison'' (dimmer_on p))"

definition comparison_filled :: "jsval \<Rightarrow> 'a page_scheme \<Rightarrow> 'a page_scheme" where
  "comparison_filled resp p = navigate (to_str (get_prop resp ''url'')) (dimmer_off p)"

definition compare_files_click :: "tree_page \<Rightarrow> tree_page" where
  "compare_files_click p =
     (let ds = get_selected_objs ''decision'' p in
      if length ds \<noteq> 2 then err_notify (text_of ''error__no_decisions_to_compare'' p) None p
      else navigate (''/jobs/comparison/'' @ two_of ds) p)"

text \<open>The dialogs of the directories: the confirm button carries what its request needs.\<close>

definition confirm_data :: "string \<Rightarrow> string \<Rightarrow> jsval \<Rightarrow> 'a page_scheme \<Rightarrow> 'a page_scheme" where
  "confirm_data m k v p = update (inside m (by_class ''modal-confirm'') p) (set_data k v) p"

definition confirm_get :: "string \<Rightarrow> string \<Rightarrow> 'a page_scheme \<Rightarrow> jsval" where
  "confirm_get m k p = (case select (inside m (by_class ''modal-confirm'') p) p of [] \<Rightarrow> JUndef | e # _ \<Rightarrow> el_data e k)"

abbreviation preset_modal :: string where "preset_modal \<equiv> ''new_preset_dir_modal''"

definition add_preset_dir_click :: "elem \<Rightarrow> tree_page \<Rightarrow> tree_page" where
  "add_preset_dir_click e p =
     (let p1 = confirm_data preset_modal ''url'' (JStr (jl_urls p ''create_preset_dir'')) p;
          p2 = confirm_data preset_modal ''method'' (JStr ''POST'') p1;
          p3 = confirm_data preset_modal ''parent'' (el_data e ''parent'') p2 in
      modal preset_modal ''show'' (update_id ''new_preset_dir_name'' (set_val (JStr [])) p3))"

definition change_preset_dir_click :: "elem \<Rightarrow> tree_page \<Rightarrow> tree_page" where
  "change_preset_dir_click e p =
     (let p1 = confirm_data preset_modal ''url'' (el_data e ''url'') p;
          p2 = confirm_data preset_modal ''method'' (JStr ''PATCH'') p1;
          p3 = confirm_data preset_modal ''parent'' JNull p2 in
      send ''GET'' (to_str (el_data e ''url'') @ ''?fields=name'') (JObj []) ''preset_dir_name'' p3)"

definition preset_dir_loaded :: "jsval \<Rightarrow> tree_page \<Rightarrow> tree_page" where
  "preset_dir_loaded resp p =
     modal preset_modal ''show'' (update_id ''new_preset_dir_name'' (set_val (get_prop resp ''name'')) p)"

definition preset_dir_confirm :: "tree_page \<Rightarrow> tree_page" where
  "preset_dir_confirm p =
     send (to_str (confirm_get preset_modal ''method'' p)) (to_str (confirm_get preset_modal ''url'' p))
       (JObj [(''parent'', confirm_get preset_modal ''parent'' p), (''name'', val_of ''new_preset_dir_name'' p)]) ''reload'' p"

definition remove_preset_dir_click :: "elem \<Rightarrow> tree_page \<Rightarrow> tree_page" where
  "remove_preset_dir_click e p =
     modal ''remove_presetdir_modal'' ''show'' (confirm_data ''remove_presetdir_modal'' ''url'' (el_data e ''url'') p)"

definition remove_preset_dir_confirm :: "tree_page \<Rightarrow> tree_page" where
  "remove_preset_dir_confirm p =
     send ''DELETE'' (to_str (confirm_get ''remove_presetdir_modal'' ''url'' p)) JUndef ''reload'' p"

section \<open>The page of a job\<close>

record job_page = bulk_page +
  jp_decisions :: "jsval list"
  jp_errors :: "string \<Rightarrow> string"

definition get_selected_decisions :: "'a page_scheme \<Rightarrow> jsval list" where
  "get_selected_decisions p = map (\<lambda>e. parseInt_val (elem_val e)) (checked_boxes ''decision-checkbox-input'' p)"

definition job_decision_change :: "'a page_scheme \<Rightarrow> 'a page_scheme" where
  "job_decision_change p =
     (let ds = get_selected_decisions p in
      set_disabled ''compare_decisions_btn'' (length ds \<noteq> 2) (set_disabled ''compare_files_btn'' (length ds \<noteq> 2)
        (set_disabled ''remove_decisions_btn'' (ds = []) (set_disabled ''download_decisions_btn'' (ds = []) p))))"

definition job_compare_files_click :: "job_page \<Rightarrow> job_page" where
  "job_compare_files_click p =
     (let ds = get_selected_decisions p in
      if length ds \<noteq> 2 then err_notify (jp_errors p ''compare_decisions_error'') None p
      else navigate (''/jobs/comparison/'' @ two_of ds) p)"

definition job_compare_click :: "job_page \<Rightarrow> job_page" where
  "job_compare_click p =
     (let ds = get_selected_decisions p in
      if length ds \<noteq> 2 then err_notify (jp_errors p ''compare_decisions_error'') None p
      else send ''POST'' (''/reports/api/fill-comparison/'' @ two_of ds) (JObj []) ''fill_comparison'' (dimmer_on p))"

definition job_download_click :: "job_page \<Rightarrow> job_page" where
  "job_download_click p =
     (let ds = get_selected_decisions p in
      if ds = [] then err_notify (jp_errors p ''download_decisions_error'') None p
      else navigate (to_str (data_of ''download_decisions_btn'' ''url'' p)
             @ join ''&'' (map (\<lambda>d. ''decision='' @ to_str d) ds)) p)"

definition job_remove_decisions_click :: "job_page \<Rightarrow> job_page" where
  "job_remove_decisions_click p =
     (let p1 = popup_hide ''#jobs_actions_menu'' p; p2 = p1\<lparr>jp_decisions := get_selected_decisions p1\<rparr> in
      if jp_decisions p2 = [] then err_notify (jp_errors p2 ''remove_decisions_error'') None p2
      else modal ''remove_decisions_warn_modal'' ''show'' p2)"

definition job_remove_decisions_confirm :: "job_page \<Rightarrow> job_page" where
  "job_remove_decisions_confirm p =
     start_bulk (map decision_remove_url (jp_decisions p)) (modal ''remove_decisions_warn_modal'' ''hide'' p)"

definition remove_job_click :: "job_page \<Rightarrow> job_page" where
  "remove_job_click p = modal ''remove_job_warn_modal'' ''show'' (popup_hide ''.browse'' p)"

definition remove_job_confirm :: "job_page \<Rightarrow> job_page" where
  "remove_job_confirm p =
     send ''DELETE'' (to_str (confirm_get ''remove_job_warn_modal'' ''url'' p)) (JObj []) ''job_removed'' (dimmer_on p)"

definition job_removed :: "job_page \<Rightarrow> job_page" where
  "job_removed = navigate ''/''"

definition fast_decide_click :: "job_page \<Rightarrow> job_page" where
  "fast_decide_click p = send ''POST'' (to_str (data_of ''fast_decide_job_btn'' ''url'' p)) (JObj []) ''decided'' (dimmer_on p)"

section \<open>The list of marks\<close>

definition get_selected_marks :: "'a page_scheme \<Rightarrow> jsval list" where
  "get_selected_marks p = map elem_val (checked_boxes ''mark-checkbox'' p)"

definition mark_checkbox_change :: "'a page_scheme \<Rightarrow> 'a page_scheme" where
  "mark_checkbox_change p =
     (let ms = get_selected_marks p in
      set_disabled ''remove_marks_modal_show'' (ms = []) (set_disabled ''download_selected_marks_btn'' (ms = []) p))"

definition remove_marks_confirm :: "'a page_scheme \<Rightarrow> 'a page_scheme" where
  "remove_marks_confirm p =
     (let ms = get_selected_marks p in
      if ms = [] then err_notify (text_of ''no_marks_selected'' p) None (modal ''remove_marks_modal'' ''hide'' p)
      else send ''DELETE'' (''/marks/api/remove-'' @ to_str (val_of ''marks_type'' p) @ ''-marks/'')
             (JObj [(''ids'', JStr (ids_json ms))]) ''marks_removed'' (dimmer_on p))"

definition marks_removed :: "'a page_scheme \<Rightarrow> 'a page_scheme" where
  "marks_removed = reload"

definition marks_not_removed :: "jsval \<Rightarrow> 'a page_scheme \<Rightarrow> 'a page_scheme" where
  "marks_not_removed json p = ajaxError json (dimmer_off p)"

definition remove_marks_click :: "'a page_scheme \<Rightarrow> 'a page_scheme" where
  "remove_marks_click p =
     (if get_selected_marks p \<noteq> [] then modal ''remove_marks_modal'' ''show'' p
      else err_notify (text_of ''no_marks_selected'' p) None p)"

definition download_marks_click :: "'a page_scheme \<Rightarrow> 'a page_scheme" where
  "download_marks_click p =
     (let ms = get_selected_marks p in
      if ms = [] then err_notify (text_of ''no_marks_selected'' p) None p
      else navigate (text_of ''download_marks_url'' p @ ''?marks=''
             @ encodeURIComponent (stringify (JObj [(to_str (val_of ''marks_type'' p), JArr ms)]))) p)"

section \<open>Check boxes\<close>

text \<open>The user turns the check box with a key; the handler of its list runs.\<close>

definition turn_box :: "nat \<Rightarrow> 'a page_scheme \<Rightarrow> 'a page_scheme" where
  "turn_box k = update (\<lambda>e. el_key e = k) (\<lambda>e. set_checked (\<not> el_checked e) e)"

definition tree_box_click :: "'a page_scheme \<Rightarrow> nat \<Rightarrow> 'a page_scheme" where
  "tree_box_click p k =
     (case find (\<lambda>e. el_key e = k) (doc p) of
        None \<Rightarrow> p
      | Some e \<Rightarrow>
          (let q = turn_box k p in
           if has_class ''job-checkbox'' e then job_checkbox_change q
           else if has_class ''decision-checkbox'' e then decision_checkbox_change q
           else if has_class ''presetdir-checkbox'' e then presetdir_checkbox_change q
           else q))"

section \<open>What the handlers keep\<close>

lemma map_filter_upd_first:
  assumes "\<And>x. P (f x) = P x" "\<And>x. g (f x) = g x"
  shows "map g (filter P (upd_first Q f xs)) = map g (filter P xs)"
  by (induction xs) (simp_all add: assms)

lemma action_button_keeps [simp]:
  "el_checked (update_action_button b e) = el_checked e" "elem_val (update_action_button b e) = elem_val e"
  "el_key (update_action_button b e) = el_key e"
  by (simp_all add: update_action_button_def elem_val_def add_class_def remove_class_def)

lemma selected_set_disabled [simp]: "get_selected_objs t (set_disabled i b p) = get_selected_objs t p"
proof -
  have "by_class (t @ ''-checkbox'') (update_action_button b e) = by_class (t @ ''-checkbox'') e" for e
  proof -
    have "t @ ''-checkbox'' \<noteq> ''disabled''"
    proof
      assume "t @ ''-checkbox'' = ''disabled''"
      then have "last (t @ ''-checkbox'') = last ''disabled''" by (rule arg_cong)
      then show False by simp
    qed
    then show ?thesis by (simp add: by_class_def action_button_class)
  qed
  then show ?thesis unfolding get_selected_objs_def checked_boxes_def select_def set_disabled_def update_id_def
    by (simp add: map_filter_upd_first)
qed

lemma is_disabled_set:
  "exists_id i p \<Longrightarrow> is_disabled j (set_disabled i b p) = (if j = i then b else is_disabled j p)"
  by (auto simp: is_disabled_def set_disabled_def exists_id_def)

lemma exists_set_disabled [simp]: "exists_id j (set_disabled i b p) = exists_id j p"
  by (simp add: exists_id_def set_disabled_def)

lemma keeps_turn: "keeps_id (\<lambda>e. set_checked (\<not> el_checked e) e)"
  by (simp add: keeps_id_def set_checked_def)

lemma turn_box_frame [simp]: "exists_id i (turn_box k p) = exists_id i p" "is_disabled i (turn_box k p) = is_disabled i p"
  by (auto simp: exists_id_def is_disabled_def turn_box_def keeps_turn split: option.split)

text \<open>The lists hold different boxes.\<close>

definition list_classes :: "string list" where
  "list_classes = [''job-checkbox'', ''decision-checkbox'', ''presetdir-checkbox'']"

definition boxes_apart :: "'a page_scheme \<Rightarrow> bool" where
  "boxes_apart p = (distinct (map el_key (doc p))
     \<and> (\<forall>e \<in> set (doc p). \<forall>c \<in> set list_classes. \<forall>c' \<in> set list_classes. has_class c e \<and> has_class c' e \<longrightarrow> c = c'))"

definition box_key :: "elem \<Rightarrow> nat \<times> bool list" where
  "box_key e = (el_key e, map (\<lambda>c. has_class c e) list_classes)"

definition box_keys_apart :: "(nat \<times> bool list) list \<Rightarrow> bool" where
  "box_keys_apart ks = (distinct (map fst ks) \<and> (\<forall>x \<in> set ks. \<forall>i < length list_classes. \<forall>j < length list_classes.
     snd x ! i \<and> snd x ! j \<longrightarrow> list_classes ! i = list_classes ! j))"

lemma boxes_apart_keys: "boxes_apart p = box_keys_apart (map box_key (doc p))"
  by (simp add: boxes_apart_def box_keys_apart_def box_key_def comp_def all_set_conv_all_nth[of list_classes])

lemma boxes_apart_cong: "map box_key (doc p) = map box_key (doc q) \<Longrightarrow> boxes_apart p = boxes_apart q"
  by (simp only: boxes_apart_keys)

lemma boxes_apart_disabled [simp]: "boxes_apart (set_disabled i b p) = boxes_apart p"
proof (rule boxes_apart_cong)
  have "box_key (update_action_button b e) = box_key e" for e
    by (simp add: box_key_def list_classes_def action_button_class)
  then show "map box_key (doc (set_disabled i b p)) = map box_key (doc p)"
    unfolding set_disabled_def update_id_def by (simp add: map_upd_first[where g=box_key and f="update_action_button b"])
qed

lemma boxes_apart_turn [simp]: "boxes_apart (turn_box k p) = boxes_apart p"
  by (rule boxes_apart_cong) (simp add: turn_box_def update_def box_key_def set_checked_def has_class_def)

lemma selected_turn_other:
  assumes "boxes_apart p" "find (\<lambda>e. el_key e = k) (doc p) = Some e" "\<not> has_class (t @ ''-checkbox'') e"
  shows "get_selected_objs t (turn_box k p) = get_selected_objs t p"
proof -
  have e: "e \<in> set (doc p)" "el_key e = k" using find_SomeD[OF assms(2)] by simp_all
  have only: "x = e" if "x \<in> set (doc p)" "el_key x = k" for x
    using that e assms(1) by (auto simp: boxes_apart_def distinct_map inj_on_def)
  have "filter (\<lambda>x. by_class (t @ ''-checkbox'') x \<and> el_checked x) (map (\<lambda>x. if el_key x = k then set_checked (\<not> el_checked x) x else x) xs)
      = filter (\<lambda>x. by_class (t @ ''-checkbox'') x \<and> el_checked x) xs" if "set xs \<subseteq> set (doc p)" for xs
    using that by (induction xs) (auto simp: by_class_def dest: only intro: assms(3)[THEN notE])
  then show ?thesis by (simp add: get_selected_objs_def checked_boxes_def select_def turn_box_def update_def conj_commute)
qed

section \<open>Buttons follow the selection\<close>

definition tree_buttons :: "string list" where
  "tree_buttons = [''show_remove_selected_modal'', ''download_selected_jobs'', ''compare_reports_btn'', ''compare_files_btn'']"

definition buttons_match :: "'a page_scheme \<Rightarrow> bool" where
  "buttons_match p =
     ((is_disabled ''show_remove_selected_modal'' p \<longleftrightarrow>
         get_selected_objs ''job'' p = [] \<and> get_selected_objs ''decision'' p = [] \<and> get_selected_objs ''presetdir'' p = [])
      \<and> (is_disabled ''download_selected_jobs'' p \<longleftrightarrow> get_selected_objs ''job'' p = [] \<and> get_selected_objs ''decision'' p = [])
      \<and> (is_disabled ''compare_reports_btn'' p \<longleftrightarrow> length (get_selected_objs ''decision'' p) \<noteq> 2)
      \<and> (is_disabled ''compare_files_btn'' p \<longleftrightarrow> length (get_selected_objs ''decision'' p) \<noteq> 2))"

definition tree_inv :: "'a page_scheme \<Rightarrow> bool" where
  "tree_inv p = (boxes_apart p \<and> (\<forall>i \<in> set tree_buttons. exists_id i p) \<and> buttons_match p)"

definition tree_loaded :: "'a page_scheme \<Rightarrow> bool" where
  "tree_loaded p = (boxes_apart p \<and> (\<forall>i \<in> set tree_buttons. exists_id i p \<and> is_disabled i p) \<and> (\<forall>e \<in> set (doc p). \<not> el_checked e))"

lemmas change_defs = job_checkbox_change_def decision_checkbox_change_def presetdir_checkbox_change_def
  upd_remove_def upd_download_def upd_compare_def Let_def

lemma tree_box_click_inv:
  assumes inv: "tree_inv p"
  shows "tree_inv (tree_box_click p k)"
proof (cases "find (\<lambda>e. el_key e = k) (doc p)")
  case None
  then show ?thesis using inv by (simp add: tree_box_click_def)
next
  case (Some e)
  have ap: "boxes_apart p" and ex: "\<forall>i \<in> set tree_buttons. exists_id i p" and m: "buttons_match p"
    using inv by (simp_all add: tree_inv_def)
  define q where "q = turn_box k p"
  have q: "boxes_apart q" "\<forall>i \<in> set tree_buttons. exists_id i q" "\<And>i. is_disabled i q = is_disabled i p"
    using ap ex by (simp_all add: q_def)
  have same: "\<not> has_class (t @ ''-checkbox'') e \<Longrightarrow> get_selected_objs t q = get_selected_objs t p" for t
    unfolding q_def by (rule selected_turn_other[OF ap Some])
  have e: "e \<in> set (doc p)" using find_SomeD[OF Some] by simp
  have cl: "c = c'" if "has_class c e" "has_class c' e" "c \<in> set list_classes" "c' \<in> set list_classes" for c c'
    using that ap e by (auto simp: boxes_apart_def)
  consider "has_class ''job-checkbox'' e" "\<not> has_class ''decision-checkbox'' e" "\<not> has_class ''presetdir-checkbox'' e"
    | "\<not> has_class ''job-checkbox'' e" "has_class ''decision-checkbox'' e" "\<not> has_class ''presetdir-checkbox'' e"
    | "\<not> has_class ''job-checkbox'' e" "\<not> has_class ''decision-checkbox'' e" "has_class ''presetdir-checkbox'' e"
    | "\<not> has_class ''job-checkbox'' e" "\<not> has_class ''decision-checkbox'' e" "\<not> has_class ''presetdir-checkbox'' e"
    using cl[of "''job-checkbox''" "''decision-checkbox''"] cl[of "''job-checkbox''" "''presetdir-checkbox''"]
      cl[of "''decision-checkbox''" "''presetdir-checkbox''"] by (auto simp: list_classes_def)
  then show ?thesis
    using q m same[of "''job''"] same[of "''decision''"] same[of "''presetdir''"]
    by cases (simp_all add: tree_box_click_def Some q_def[symmetric] tree_inv_def buttons_match_def tree_buttons_def
        change_defs is_disabled_set)
qed

interpretation jobs_list: event_machine tree_loaded tree_box_click tree_inv
proof unfold_locales
  fix p :: "'a page_scheme" assume l: "tree_loaded p"
  then have "get_selected_objs t p = []" for t
    by (auto simp: tree_loaded_def get_selected_objs_def checked_boxes_def select_def filter_empty_conv)
  then show "tree_inv p" using l by (simp add: tree_loaded_def tree_inv_def buttons_match_def tree_buttons_def)
qed (rule tree_box_click_inv)

section \<open>Deleting ends\<close>

text \<open>Answers that arrive in any order: each one belongs to a request that is still open.\<close>

fun answers_all :: "nat \<Rightarrow> (nat \<times> jsval option) list \<Rightarrow> bool" where
  "answers_all n [] = (n = 0)"
| "answers_all n ((k, _) # as) = (k < n \<and> answers_all (n - 1) as)"

definition dimmed :: "'a page_scheme \<Rightarrow> bool" where
  "dimmed p = (case elem_by_id ''dimmer_of_page'' p of None \<Rightarrow> False | Some e \<Rightarrow> has_class ''active'' e)"

lemma bulk_frame [simp]:
  "bk_flags (emit x p) = bk_flags p" "bk_left (emit x p) = bk_left p"
  "bk_flags (send m u d t p) = bk_flags p" "bk_left (send m u d t p) = bk_left p"
  "bk_flags (update_id i g p) = bk_flags p" "bk_left (update_id i g p) = bk_left p"
  "bk_flags (err_notify v n p) = bk_flags p" "bk_left (err_notify v n p) = bk_left p"
  by (simp_all add: emit_def send_def update_id_def err_notify_def)

lemma notify_all_frame [simp]:
  "bk_flags (foldl (\<lambda>q v. err_notify v None q) p vs) = bk_flags p" "bk_left (foldl (\<lambda>q v. err_notify v None q) p vs) = bk_left p"
  "navigations (out (foldl (\<lambda>q v. err_notify v None q) p vs)) = navigations (out p)"
  by (induction vs arbitrary: p) simp_all

lemma ajaxError_frame [simp]:
  "bk_flags (ajaxError json p) = bk_flags p" "bk_left (ajaxError json p) = bk_left p"
  "navigations (out (ajaxError json p)) = navigations (out p)"
  by (simp_all add: ajaxError_def Let_def dimmer_off_def)

lemma sent_frame [simp]:
  "bk_flags (foldl (\<lambda>q u. send m u d t q) p us) = bk_flags p" "bk_left (foldl (\<lambda>q u. send m u d t q) p us) = bk_left p"
  "navigations (out (foldl (\<lambda>q u. send m u d t q) p us)) = navigations (out p)"
  "requests (out (foldl (\<lambda>q u. send m u d t q) p us)) =
     requests (out p) @ map (\<lambda>u. \<lparr>rq_method = m, rq_url = u, rq_data = d, rq_tag = t\<rparr>) us"
  by (induction us arbitrary: p) (simp_all add: ajax_def)

lemma dimmed_off [simp]: "\<not> dimmed (dimmer_off p)"
  by (simp add: dimmed_def dimmer_off_def split: option.split)

lemma dimmed_reload [simp]: "dimmed (reload p) = dimmed p"
  by (simp add: dimmed_def)

definition bulk_state :: "nat \<Rightarrow> bool \<Rightarrow> 'a bulk_page_scheme \<Rightarrow> bool" where
  "bulk_state n failed p = (bk_flags p = [failed] \<and> bk_left p = replicate n 0)"

lemma start_bulk_state: "bk_flags p = [] \<Longrightarrow> bk_left p = [] \<Longrightarrow> bulk_state (length urls) False (start_bulk urls p)"
  by (simp add: bulk_state_def start_bulk_def Let_def dimmer_on_def)

lemma start_bulk_out:
  "navigations (out (start_bulk urls p)) = navigations (out p)"
  "requests (out (start_bulk urls p)) =
     requests (out p) @ map (\<lambda>u. \<lparr>rq_method = ''DELETE'', rq_url = u, rq_data = JUndef, rq_tag = ''bulk''\<rparr>) urls"
  by (simp_all add: start_bulk_def Let_def)

lemma replicate_one_less: "k < n \<Longrightarrow> replicate k x @ replicate (n - Suc k) x = replicate (n - Suc 0) x"
  by (simp add: replicate_add[symmetric])

lemma bulk_answer_state:
  assumes "bulk_state n failed p" "k < n" "1 < n"
  shows "bulk_state (n - 1) (failed \<or> f \<noteq> None) (bulk_answer k f p)"
    "navigations (out (bulk_answer k f p)) = navigations (out p)"
proof -
  have "min k n = k" "\<not> (k = 0 \<and> n \<le> Suc k)" using assms by auto
  then show "bulk_state (n - 1) (failed \<or> f \<noteq> None) (bulk_answer k f p)"
    "navigations (out (bulk_answer k f p)) = navigations (out p)"
    using assms by (cases f; auto simp: bulk_state_def bulk_answer_def Let_def replicate_one_less)+
qed

lemma bulk_answer_last:
  assumes "bulk_state 1 failed p"
  shows "navigations (out (bulk_answer 0 f p)) = navigations (out p) @ (if failed \<or> f \<noteq> None then [] else [[]])"
    "\<not> dimmed (bulk_answer 0 f p)"
  using assms by (auto simp: bulk_state_def bulk_answer_def ajax_stop_def Let_def split: option.split)

lemma bulk_ends:
  assumes "bulk_state n failed p" "0 < n" "answers_all n as"
  shows "navigations (out (foldl (\<lambda>q (k, f). bulk_answer k f q) p as)) =
           navigations (out p) @ (if failed \<or> (\<exists>a \<in> set as. snd a \<noteq> None) then [] else [[]])
         \<and> \<not> dimmed (foldl (\<lambda>q (k, f). bulk_answer k f q) p as)"
  using assms
proof (induction as arbitrary: n failed p)
  case (Cons a as)
  obtain k f where a: "a = (k, f)" by force
  have k: "k < n" "answers_all (n - 1) as" using Cons.prems by (simp_all add: a)
  show ?case
  proof (cases "n = 1")
    case True
    then have "as = []" "k = 0" using k by (cases as; auto)+
    then show ?thesis using bulk_answer_last[of failed p f] Cons.prems True by (simp add: a)
  next
    case False
    then have n: "1 < n" using k by simp
    have "0 < n - 1" using n by simp
    from Cons.IH[OF bulk_answer_state(1)[OF Cons.prems(1) k(1) n, of f] this k(2)]
    show ?thesis using bulk_answer_state(2)[OF Cons.prems(1) k(1) n, of f] by (auto simp: a)
  qed
qed simp

definition removal_urls :: "tree_page \<Rightarrow> string list" where
  "removal_urls p = map decision_remove_url (jl_decisions p) @ map job_remove_url (jl_jobs p) @ map dir_remove_url (jl_dirs p)"

section \<open>Properties\<close>

text \<open>
  C15. On the page with the tree of jobs, after any sequence of clicks on the boxes of jobs, decisions and
  directories, the button that deletes is enabled exactly if something is selected, the one that downloads
  exactly if a job or a decision is selected, and the two that compare exactly if two decisions are selected.
\<close>

theorem tree_buttons_follow_selection:
  assumes "tree_loaded p"
  shows "buttons_match (foldl tree_box_click p ks)"
  using jobs_list.run_from_init[OF assms] by (simp add: tree_inv_def)

text \<open>
  C13. Confirming the removal of selected objects sends one request for each of them, decisions first, then jobs,
  then directories; however the answers arrive, after the last one the page is not dimmed, and it is reloaded
  once if every request succeeded and not at all if one failed.
\<close>

theorem bulk_removal_ends:
  assumes "bk_flags p = []" "bk_left p = []" "removal_urls p \<noteq> []" "answers_all (length (removal_urls p)) as"
  defines "sent \<equiv> remove_selected_confirm p"
  defines "ended \<equiv> foldl (\<lambda>q (k, f). bulk_answer k f q) sent as"
  shows "map rq_url (requests (out sent)) = map rq_url (requests (out p)) @ removal_urls p
    \<and> navigations (out ended) = navigations (out p) @ (if \<exists>a \<in> set as. snd a \<noteq> None then [] else [[]])
    \<and> \<not> dimmed ended"
proof -
  have c: "sent = start_bulk (removal_urls p) (modal ''remove_selected_modal'' ''hide'' p)"
    by (simp add: sent_def remove_selected_confirm_def removal_urls_def)
  have "bulk_state (length (removal_urls p)) False sent"
    unfolding c by (rule start_bulk_state) (simp_all add: assms modal_def)
  from bulk_ends[OF this _ assms(4)] show ?thesis using assms(3) by (simp add: ended_def c start_bulk_out comp_def)
qed

text \<open>A page with two decisions and a job.\<close>

definition demo_tree :: tree_page where
  "demo_tree = \<lparr>doc = [new_elem\<lparr>el_key := 1, el_id := ''show_remove_selected_modal'', el_classes := [''disabled'']\<rparr>,
       new_elem\<lparr>el_key := 2, el_id := ''download_selected_jobs'', el_classes := [''disabled'']\<rparr>,
       new_elem\<lparr>el_key := 3, el_id := ''compare_reports_btn'', el_classes := [''disabled'']\<rparr>,
       new_elem\<lparr>el_key := 4, el_id := ''compare_files_btn'', el_classes := [''disabled'']\<rparr>,
       new_elem\<lparr>el_key := 5, el_classes := [''job-checkbox''], el_val := JStr ''11''\<rparr>,
       new_elem\<lparr>el_key := 6, el_classes := [''decision-checkbox''], el_val := JStr ''21''\<rparr>,
       new_elem\<lparr>el_key := 7, el_classes := [''decision-checkbox''], el_val := JStr ''22''\<rparr>,
       new_elem\<lparr>el_key := 8, el_id := ''dimmer_of_page''\<rparr>],
     out = [], href = [], bk_flags = [], bk_left = [], jl_jobs = [], jl_decisions = [], jl_dirs = [], jl_urls = (\<lambda>_. [])\<rparr>"

theorem tree_buttons_follow_selection_witness:
  "tree_loaded demo_tree \<and> buttons_match (foldl tree_box_click demo_tree [6, 5, 7, 5])
    \<and> map (\<lambda>i. is_disabled i (foldl tree_box_click demo_tree [6, 5, 7, 5])) tree_buttons = [False, False, False, False]"
proof -
  have l: "tree_loaded demo_tree" by code_simp
  have "map (\<lambda>i. is_disabled i (foldl tree_box_click demo_tree [6, 5, 7, 5])) tree_buttons = [False, False, False, False]"
    by code_simp
  then show ?thesis using l tree_buttons_follow_selection[OF l, of "[6, 5, 7, 5]"] by blast
qed

theorem bulk_removal_ends_witness:
  "\<exists>p as. bk_flags p = [] \<and> bk_left p = [] \<and> removal_urls p = [''/jobs/api/decision/21/remove/'', ''/jobs/api/11/remove/'']
     \<and> answers_all 2 as \<and> \<not> dimmed (foldl (\<lambda>q (k, f). bulk_answer k f q) (remove_selected_confirm p) as)
     \<and> navigations (out (foldl (\<lambda>q (k, f). bulk_answer k f q) (remove_selected_confirm p) as)) = [[]]"
proof -
  define p where "p = demo_tree\<lparr>jl_jobs := [JNum 11], jl_decisions := [JNum 21]\<rparr>"
  have p: "bk_flags p = []" "bk_left p = []" "out p = []" by (simp_all add: p_def demo_tree_def)
  have "removal_urls (demo_tree\<lparr>jl_jobs := [JNum 11], jl_decisions := [JNum 21]\<rparr>) = [''/jobs/api/decision/21/remove/'', ''/jobs/api/11/remove/'']"
    by code_simp
  then have u: "removal_urls p = [''/jobs/api/decision/21/remove/'', ''/jobs/api/11/remove/'']" by (simp add: p_def)
  have a: "answers_all 2 [(1, None), (0, None)]" by simp
  show ?thesis using bulk_removal_ends[OF p(1,2), of "[(1, None), (0, None)]"] u p a
    by (intro exI[of _ p] exI[of _ "[(1, None), (0, None)]"]) simp
qed

end
