(* ===== verification/Mark_Forms.thy ===== *)
theory Mark_Forms
  imports View_Settings
begin

text \<open>
  Pages of marks: the form (\<open>marks/static/marks/js/markForm.js\<close>), the form inside a report
  (\<open>inlineMarkForm.js\<close>), the page of a mark (\<open>mark.js\<close>) and the selected tags (\<open>tags.js\<close>). The
  description of a mark is HTML text: the form parses it, removes scripts and event handlers and sends
  the printed result. Parsing and printing belong to the browser and are arguments. Descriptions with
  \<open>template\<close> elements are left out: a browser keeps their contents in a document of its own, which \<open>find\<close> does
  not search and which is printed with the rest.
\<close>

section \<open>Descriptions\<close>

datatype html = Txt string | El string "(string \<times> string) list" "html list"

text \<open>\<open>tmp_div.find('script').remove()\<close>\<close>

fun is_script :: "html \<Rightarrow> bool" where
  "is_script (Txt _) = False"
| "is_script (El t _ _) = (t = ''script'')"

fun remove_scripts :: "html \<Rightarrow> html" where
  "remove_scripts (Txt s) = Txt s"
| "remove_scripts (El t as hs) = El t as (map remove_scripts (filter (\<lambda>h. \<not> is_script h) hs))"

abbreviation drop_scripts :: "html list \<Rightarrow> html list" where
  "drop_scripts hs \<equiv> map remove_scripts (filter (\<lambda>h. \<not> is_script h) hs)"

definition is_handler :: "string \<times> string \<Rightarrow> bool" where
  "is_handler a = starts_with (fst a) ''on''"

fun remove_attr :: "string \<Rightarrow> (string \<times> string) list \<Rightarrow> (string \<times> string) list" where
  "remove_attr n [] = []"
| "remove_attr n (a # as) = (if fst a = n then as else a # remove_attr n as)"

text \<open>
  \<open>$.each\<close> over the attributes of an element reads their number \<open>n\<close> once; the collection itself is live,
  so that after a removal the following attributes move one place and the last places are undefined.
\<close>

function attr_loop :: "nat \<Rightarrow> nat \<Rightarrow> (string \<times> string) list \<Rightarrow> js_error + (string \<times> string) list" where
  "attr_loop n i as =
     (if i < n then
        (if i < length as then attr_loop n (Suc i) (if is_handler (as ! i) then remove_attr (fst (as ! i)) as else as)
         else Inl TypeError)
      else Inr as)"
  by pat_completeness auto
termination by (relation "measure (\<lambda>(n, i, _). n - i)") auto

declare attr_loop.simps [simp del]

fun clean_node :: "html \<Rightarrow> js_error + html" and clean_nodes :: "html list \<Rightarrow> js_error + html list" where
  "clean_node (Txt s) = Inr (Txt s)"
| "clean_node (El t as hs) =
     bindE (attr_loop (length as) 0 as) (\<lambda>as'. bindE (clean_nodes hs) (\<lambda>hs'. Inr (El t as' hs')))"
| "clean_nodes [] = Inr []"
| "clean_nodes (h # hs) = bindE (clean_node h) (\<lambda>h'. bindE (clean_nodes hs) (\<lambda>hs'. Inr (h' # hs')))"

text \<open>Without an element for the description \<open>.html(undefined)\<close> returns a string, which has no \<open>find\<close>.\<close>

definition get_description :: "(string \<Rightarrow> html list) \<Rightarrow> (html list \<Rightarrow> string) \<Rightarrow> 'a page_scheme \<Rightarrow> js_error + string" where
  "get_description parse print p =
     (case val_of ''mark_description'' p of
        JUndef \<Rightarrow> Inl TypeError
      | v \<Rightarrow> bindE (clean_nodes (drop_scripts (parse (to_str v)))) (\<lambda>hs. Inr (print hs)))"

section \<open>The form of a mark\<close>

definition collect_attrs_data :: "'a page_scheme \<Rightarrow> jsval" where
  "collect_attrs_data p =
     JArr (map (\<lambda>e. JObj [(''name'', el_data e ''name''), (''value'', el_data e ''value''), (''is_compare'', JBool (el_checked e))])
       (select (id_starts ''input'' ''attr_checkbox__'') p))"

definition is_modifiable :: "'a page_scheme \<Rightarrow> bool" where
  "is_modifiable p = (\<not> exists_id ''is_modifiable'' p \<or> checked ''is_modifiable'' p)"

definition child_of :: "string \<Rightarrow> 'a page_scheme \<Rightarrow> selector" where
  "child_of i p e = (case elem_by_id i p of None \<Rightarrow> False | Some c \<Rightarrow> take 1 (el_anc e) = [el_key c])"

definition get_tags_values :: "'a page_scheme \<Rightarrow> jsval" where
  "get_tags_values p = JArr (map (\<lambda>e. JStr (el_text e)) (select (\<lambda>e. el_tag e = ''span'' \<and> child_of ''selected_tags'' p e) p))"

text \<open>The elements with a class in the block of a comparison function of the list of functions.\<close>

definition in_function :: "string \<Rightarrow> string \<Rightarrow> 'a page_scheme \<Rightarrow> elem list" where
  "in_function name c p =
     (let blocks = select (inside ''unsafe_functions'' (\<lambda>e. by_class ''compare-func'' e \<and> el_attrs e ''data-name'' = Some name) p) p in
      select (\<lambda>e. by_class c e \<and> (\<exists>b \<in> set blocks. el_key b \<in> set (el_anc e))) p)"

definition first_val :: "elem list \<Rightarrow> jsval" where
  "first_val es = (case es of [] \<Rightarrow> JUndef | e # _ \<Rightarrow> elem_val e)"

definition is_regexp :: "string \<Rightarrow> 'a page_scheme \<Rightarrow> bool" where
  "is_regexp name p = truthy (parseInt_val (first_val (in_function name ''compare-regexp'' p)))"

definition unknown_fields :: "'a page_scheme \<Rightarrow> (string \<times> jsval) list" where
  "unknown_fields p = [(''problem_pattern'', val_of ''unknown_problem_pattern'' p), (''function'', val_of ''unknown_function'' p),
     (''is_regexp'', JBool (checked ''is_regexp'' p)), (''link'', val_of ''unknown_link'' p)]"

definition unsafe_fields :: "string \<Rightarrow> 'a page_scheme \<Rightarrow> (string \<times> jsval) list" where
  "unsafe_fields action p =
     [(''status'', radio_val ''selected_status'' p), (''threshold'', val_of ''threshold'' p)] @
     (if action = ''edit'' then
        (if exists_id ''mark_error_trace'' p then [(''error_trace'', val_of ''mark_error_trace'' p)]
         else [(''regexp'', val_of ''mark_regexp'' p)])
      else (''function'', val_of ''compare_name'' p) #
        (if is_regexp (to_str (val_of ''compare_name'' p)) p then [(''regexp'', val_of ''mark_regexp'' p)] else []))"

definition collect_markdata :: "(string \<Rightarrow> html list) \<Rightarrow> (html list \<Rightarrow> string) \<Rightarrow> string \<Rightarrow> string \<Rightarrow> 'a page_scheme \<Rightarrow> js_error + jsval" where
  "collect_markdata parse print action mark_type p =
     bindE (get_description parse print p) (\<lambda>description.
       Inr (JObj ([(''is_modifiable'', JBool (is_modifiable p)), (''description'', JStr description),
          (''attrs'', collect_attrs_data p), (''comment'', val_of ''mark_comment'' p)] @
         (if action = ''create'' then [(''report_id'', val_of ''report_id'' p)] else []) @
         (if mark_type = ''unknown'' then unknown_fields p
          else [(''verdict'', radio_val ''selected_verdict'' p), (''tags'', get_tags_values p)]) @
         (if mark_type = ''unsafe'' then unsafe_fields action p else []))))"

definition save_mark_click :: "(string \<Rightarrow> html list) \<Rightarrow> (html list \<Rightarrow> string) \<Rightarrow> 'a page_scheme \<Rightarrow> js_error option \<times> 'a page_scheme" where
  "save_mark_click parse print p =
     (let btn = (\<lambda>k. data_of ''save_mark_btn'' k p);
          p1 = dimmer_on (update_id ''save_mark_btn'' (add_class ''disabled'') p) in
      case collect_markdata parse print (to_str (btn ''action'')) (to_str (btn ''type'')) p1 of
        Inl err \<Rightarrow> (Some err, p1)
      | Inr d \<Rightarrow> (None, send (to_str (btn ''method'')) (to_str (btn ''url'')) (JStr (stringify d)) ''mark_saved'' p1))"

definition mark_saved :: "jsval \<Rightarrow> 'a page_scheme \<Rightarrow> 'a page_scheme" where
  "mark_saved resp = navigate (to_str (get_prop resp ''url''))"

definition mark_not_saved :: "jsval \<Rightarrow> 'a page_scheme \<Rightarrow> 'a page_scheme" where
  "mark_not_saved json p = ajaxError json (update_id ''save_mark_btn'' (remove_class ''disabled'') p)"

definition mark_version_change :: "'a page_scheme \<Rightarrow> 'a page_scheme" where
  "mark_version_change p =
     navigate (get_url_with_get_parameters (href p) [(''version'', to_str (val_of ''mark_version_selector'' p))]) p"

definition texts :: "elem list \<Rightarrow> string" where
  "texts es = concat (map el_text es)"

text \<open>\<open>.text(v)\<close>: an undefined value leaves the text as it is.\<close>

definition put_text :: "string \<Rightarrow> jsval \<Rightarrow> 'a page_scheme \<Rightarrow> 'a page_scheme" where
  "put_text i v p = (case v of JUndef \<Rightarrow> p | JNull \<Rightarrow> update_id i (set_text []) p | _ \<Rightarrow> update_id i (set_text (to_str v)) p)"

definition compare_name_change :: "'a page_scheme \<Rightarrow> 'a page_scheme" where
  "compare_name_change p =
     (let name = to_str (val_of ''compare_name'' p);
          p1 = update_id ''compare_desc'' (set_text (texts (in_function name ''compare-desc'' p))) p;
          p2 = update_id ''convert_desc'' (set_text (texts (in_function name ''convert-desc'' p))) p1;
          named = (case in_function name ''convert-desc'' p2 of [] \<Rightarrow> JUndef | e # _ \<Rightarrow> el_data e ''name'');
          p3 = put_text ''convert_name'' named p2 in
      update_id ''unsafe_regexp_segment'' (set_hidden (\<not> is_regexp name p3)) p3)"

text \<open>The status of an unsafe mark is asked for only if its verdict is a bug.\<close>

definition status_radio :: "'a page_scheme \<Rightarrow> selector" where
  "status_radio p = inside ''status_column'' (by_name ''input'' ''selected_status'') p"

definition verdict_change :: "elem \<Rightarrow> 'a page_scheme \<Rightarrow> 'a page_scheme" where
  "verdict_change e p =
     (if exists_id ''verdict_column'' p \<and> exists_id ''status_column'' p \<and> el_checked e then
        (if elem_val e = JStr ''1'' then
           (let p1 = update_id ''status_column'' shown_el p in
            case select (status_radio p1) p1 of
              [] \<Rightarrow> p1
            | r # _ \<Rightarrow> update (by_name ''input'' ''selected_status'') (\<lambda>x. set_checked (el_key x = el_key r) x) p1)
         else update_id ''status_column'' hidden_el (update (status_radio p) (set_checked False) p))
      else p)"

section \<open>Trying the function of an unknown mark\<close>

text \<open>The number \<open>v.length\<close> is compared with; reading it of an undefined value throws.\<close>

definition value_length :: "jsval \<Rightarrow> nat option" where
  "value_length v = (case v of JUndef \<Rightarrow> None | JNull \<Rightarrow> None | JStr s \<Rightarrow> Some (length s) | JArr vs \<Rightarrow> Some (length vs) | _ \<Rightarrow> Some 0)"

definition test_unknown_function :: "'a page_scheme \<Rightarrow> js_error option \<times> 'a page_scheme" where
  "test_unknown_function p =
     (let func = val_of ''unknown_function'' p in
      case value_length func of
        None \<Rightarrow> (Some TypeError, p)
      | Some 0 \<Rightarrow> (None, err_notify (text_of ''error__function_required'' p) None p)
      | Some _ \<Rightarrow> (None, send ''POST'' (to_str (data_of ''test_unknown_mark'' ''url'' p))
          (JObj [(''function'', func), (''pattern'', val_of ''unknown_problem_pattern'' p), (''is_regex'', JBool (checked ''is_regexp'' p))])
          ''function_tested'' p))"

abbreviation hide_id :: "string \<Rightarrow> 'a page_scheme \<Rightarrow> 'a page_scheme" where "hide_id i \<equiv> update_id i hidden_el"
abbreviation show_id :: "string \<Rightarrow> 'a page_scheme \<Rightarrow> 'a page_scheme" where "show_id i \<equiv> update_id i shown_el"

definition function_tested :: "jsval \<Rightarrow> 'a page_scheme \<Rightarrow> js_error option \<times> 'a page_scheme" where
  "function_tested resp p =
     (if truthy (get_prop resp ''error'') then
        (None, hide_id ''test_mark_result_div'' (hide_id ''test_mark_nomatch_div'' (err_notify (to_str (get_prop resp ''error'')) None p)))
      else if get_prop resp ''matched'' = JNum 1 then
        (None, show_id ''test_mark_result_div'' (put_text ''test_mark_result'' (get_prop resp ''result'')
          (put_text ''test_mark_problem'' (get_prop resp ''problem'') (hide_id ''test_mark_nomatch_div'' p))))
      else
        (let p1 = show_id ''test_mark_nomatch_div'' (hide_id ''test_mark_result_div'' p) in
         case value_length (get_prop resp ''result'') of
           None \<Rightarrow> (Some TypeError, p1)
         | Some 0 \<Rightarrow> (None, hide_id ''regexp_err_result'' (update_id ''regexp_err_result'' (set_text []) p1))
         | Some _ \<Rightarrow> (None, show_id ''regexp_err_result'' (put_text ''regexp_err_result'' (get_prop resp ''result'') p1))))"

section \<open>The form inside a report\<close>

definition inline_attrs_data :: "'a page_scheme \<Rightarrow> jsval" where
  "inline_attrs_data p =
     JArr (map (\<lambda>e. JObj [(''name'', el_data e ''name''), (''value'', el_data e ''value''), (''is_compare'', el_data e ''compare'')])
       (select (inside ''inline_mark_attrs'' (\<lambda>e. el_tag e = ''span'') p) p))"

definition inline_unsafe_fields :: "'a page_scheme \<Rightarrow> (string \<times> jsval) list" where
  "inline_unsafe_fields p = [(''status'', radio_val ''selected_status'' p), (''function'', val_of ''compare_function'' p), (''threshold'', val_of ''threshold'' p)]"

definition inline_markdata :: "(string \<Rightarrow> html list) \<Rightarrow> (html list \<Rightarrow> string) \<Rightarrow> string \<Rightarrow> string \<Rightarrow> 'a page_scheme \<Rightarrow> js_error + jsval" where
  "inline_markdata parse print action mark_type p =
     bindE (get_description parse print p) (\<lambda>description.
       Inr (JObj ([(''is_modifiable'', JBool True), (''description'', JStr description),
          (''attrs'', inline_attrs_data p), (''comment'', val_of ''inline_mark_comment'' p)] @
         (if action = ''create'' then [(''report_id'', val_of ''report_id'' p)] else []) @
         (if mark_type = ''unknown'' then unknown_fields p
          else [(''verdict'', radio_val ''selected_verdict'' p), (''tags'', get_tags_values p)] @
            (if mark_type = ''unsafe'' then inline_unsafe_fields p else [])))))"

definition save_inline_mark_click :: "(string \<Rightarrow> html list) \<Rightarrow> (html list \<Rightarrow> string) \<Rightarrow> 'a page_scheme \<Rightarrow> js_error option \<times> 'a page_scheme" where
  "save_inline_mark_click parse print p =
     (let btn = (\<lambda>k. data_of ''save_inline_mark_btn'' k p); p1 = dimmer_on p in
      case inline_markdata parse print (to_str (btn ''action'')) (to_str (btn ''type'')) p1 of
        Inl err \<Rightarrow> (Some err, p1)
      | Inr d \<Rightarrow> (None, send (to_str (btn ''method'')) (to_str (btn ''url'')) (JStr (stringify d)) ''mark_saved'' p1))"

definition get_inline_mark_form :: "string \<Rightarrow> 'a page_scheme \<Rightarrow> 'a page_scheme" where
  "get_inline_mark_form url = send ''GET'' url (JObj []) ''inline_form_loaded''"

definition inline_form_closed :: "string \<Rightarrow> 'a page_scheme \<Rightarrow> 'a page_scheme" where
  "inline_form_closed c p =
     (let q = hide_id c p in update_id c set_empty (remove (inside c (\<lambda>_. True) q) q))"

section \<open>The page of a mark\<close>

definition checked_versions :: "'a page_scheme \<Rightarrow> jsval list" where
  "checked_versions p = map elem_val (filter el_checked (select (id_starts ''input'' ''checkbox_version__'') p))"

definition versions_url :: "'a page_scheme \<Rightarrow> string" where
  "versions_url p = to_str (val_of ''mark_type'' p) @ ''/'' @ to_str (val_of ''mark_pk'' p)"

definition get_versions_comparison :: "jsval \<Rightarrow> jsval \<Rightarrow> 'a page_scheme \<Rightarrow> 'a page_scheme" where
  "get_versions_comparison v1 v2 p =
     send ''GET'' (''/marks/'' @ versions_url p @ ''/compare-versions/'' @ to_str v1 @ ''/'' @ to_str v2 @ ''/'') (JObj []) ''versions_compared'' p"

definition versions_compared :: "string \<Rightarrow> 'a page_scheme \<Rightarrow> 'a page_scheme" where
  "versions_compared resp p =
     modal ''version_comparison_modal'' ''show'' (update (inside ''version_comparison_modal'' (by_class ''content'') p) (set_html resp) p)"

definition comparison_closed :: "'a page_scheme \<Rightarrow> 'a page_scheme" where
  "comparison_closed p =
     modal ''version_comparison_modal'' ''hide'' (update (inside ''version_comparison_modal'' (by_class ''content'') p) set_empty p)"

definition compare_versions_click :: "'a page_scheme \<Rightarrow> 'a page_scheme" where
  "compare_versions_click p =
     (case checked_versions p of
        [v1, v2] \<Rightarrow> get_versions_comparison v1 v2 p
      | _ \<Rightarrow> err_notify (text_of ''error__select_two_vers'' p) None p)"

definition confirm_elem :: "string \<Rightarrow> string \<Rightarrow> 'a page_scheme \<Rightarrow> jsval" where
  "confirm_elem m k p = (case select (inside m (by_class ''modal-confirm'') p) p of [] \<Rightarrow> JUndef | e # _ \<Rightarrow> el_data e k)"

definition remove_mark_click :: "'a page_scheme \<Rightarrow> 'a page_scheme" where
  "remove_mark_click p =
     (case elem_by_id ''remove_mark_modal_show'' p of
        None \<Rightarrow> p
      | Some e \<Rightarrow> if has_class ''disabled'' e then p else modal ''remove_mark_modal'' ''show'' (popup_hide ''.browse'' p))"

definition remove_mark_confirm :: "'a page_scheme \<Rightarrow> 'a page_scheme" where
  "remove_mark_confirm p =
     send ''DELETE'' (to_str (confirm_elem ''remove_mark_modal'' ''url'' p)) JUndef ''mark_removed'' (modal ''remove_mark_modal'' ''hide'' p)"

definition mark_removed :: "jsval \<Rightarrow> 'a page_scheme \<Rightarrow> 'a page_scheme" where
  "mark_removed redirect_url = navigate (to_str redirect_url)"

definition remove_versions_click :: "'a page_scheme \<Rightarrow> 'a page_scheme" where
  "remove_versions_click p =
     (if checked_versions p = [] then err_notify (text_of ''error__no_vers_selected'' p) None p
      else modal ''remove_versions_modal'' ''show'' p)"

definition remove_versions_confirm :: "'a page_scheme \<Rightarrow> 'a page_scheme" where
  "remove_versions_confirm p =
     (let p1 = modal ''remove_versions_modal'' ''hide'' p in
      send ''DELETE'' (''/marks/api/'' @ versions_url p1 @ ''/remove-versions/'')
        (JObj [(''versions'', JStr (stringify (JArr (checked_versions p1))))]) ''versions_removed'' p1)"

text \<open>The line of a version is the closest ancestor of its box with the class of lines; it goes with all it holds.\<close>

definition closest_line :: "elem \<Rightarrow> 'a page_scheme \<Rightarrow> nat option" where
  "closest_line e p =
     find (\<lambda>k. \<exists>a \<in> set (doc p). el_key a = k \<and> has_class ''version-line'' a) (el_key e # el_anc e)"

definition remove_version_line :: "jsval \<Rightarrow> 'a page_scheme \<Rightarrow> 'a page_scheme" where
  "remove_version_line v p =
     (case elem_by_id (''checkbox_version__'' @ to_str v) p of
        None \<Rightarrow> p
      | Some e \<Rightarrow>
          (case closest_line e p of None \<Rightarrow> p | Some k \<Rightarrow> remove (\<lambda>x. el_key x = k \<or> k \<in> set (el_anc x)) p))"

definition versions_removed :: "jsval list \<Rightarrow> jsval \<Rightarrow> 'a page_scheme \<Rightarrow> 'a page_scheme" where
  "versions_removed versions resp p =
     foldl (\<lambda>q v. remove_version_line v q) (success_notify (to_str (get_prop resp ''message'')) None p) versions"

section \<open>Tags\<close>

definition link_style :: "string \<Rightarrow> string" where
  "link_style links =
     ''background: '' @ join '','' (map (\<lambda>c. ''url('' @ [CHR 39] @ ''/static/marks/css/images/L_'' @ [c] @ ''.png'' @ [CHR 39] @ '') center no-repeat'') links) @ '';''"

definition draw_connections :: "'a page_scheme \<Rightarrow> 'a page_scheme" where
  "draw_connections =
     update (by_class ''tag-tree-link'')
       (\<lambda>e. let links = to_str (el_data e ''links'') in if links = [] then e else set_attr ''style'' (link_style links) e)"

definition update_tags :: "jsval \<Rightarrow> jsval \<Rightarrow> 'a page_scheme \<Rightarrow> 'a page_scheme" where
  "update_tags deleted added p =
     send ''GET'' ''/marks/api/tags-data/'' (JObj [(''selected'', get_tags_values p), (''deleted'', deleted), (''added'', added)]) ''tags_updated'' p"

definition tag_list_change :: "'a page_scheme \<Rightarrow> 'a page_scheme" where
  "tag_list_change p =
     (let p1 = emit (Widget ''#tag_list'' ''dropdown'' [JStr ''hide'']) p in update_tags JNull (val_of ''tag_list'' p1) p1)"

definition remove_tag_click :: "elem \<Rightarrow> 'a page_scheme \<Rightarrow> 'a page_scheme" where
  "remove_tag_click e = update_tags (el_data e ''tag'') JUndef"

text \<open>\<open>.html(resp)\<close> of a container: the elements the browser builds from the answer replace its contents.\<close>

definition replace_content :: "(string \<Rightarrow> elem list) \<Rightarrow> string \<Rightarrow> string \<Rightarrow> 'a page_scheme \<Rightarrow> 'a page_scheme" where
  "replace_content build c resp p =
     (let q = update_id c (set_html resp) (remove (inside c (\<lambda>_. True) p) p) in q\<lparr>doc := doc q @ build resp\<rparr>)"

definition tags_updated :: "(string \<Rightarrow> elem list) \<Rightarrow> string \<Rightarrow> 'a page_scheme \<Rightarrow> 'a page_scheme" where
  "tags_updated build resp p = draw_connections (replace_content build ''mark_tags_container'' resp p)"

definition inline_form_loaded :: "(string \<Rightarrow> elem list) \<Rightarrow> string \<Rightarrow> string \<Rightarrow> 'a page_scheme \<Rightarrow> 'a page_scheme" where
  "inline_form_loaded build c resp p = show_id c (draw_connections (replace_content build c resp p))"

section \<open>What cleaning does\<close>

fun strip :: "html \<Rightarrow> html" where
  "strip (Txt s) = Txt s"
| "strip (El t as hs) = El t (filter (\<lambda>a. \<not> is_handler a) as) (map strip hs)"

text \<open>An element with an event handler that is not its last attribute.\<close>

fun blocked :: "html \<Rightarrow> bool" where
  "blocked (Txt _) = False"
| "blocked (El _ as hs) = (list_ex is_handler (butlast as) \<or> list_ex blocked hs)"

fun safe :: "html \<Rightarrow> bool" where
  "safe (Txt _) = True"
| "safe (El t as hs) = (t \<noteq> ''script'' \<and> \<not> list_ex is_handler as \<and> list_all safe hs)"

lemma remove_attr_length: "n \<in> fst ` set as \<Longrightarrow> length (remove_attr n as) < length as"
  by (induction as) auto

lemma remove_attr_le: "length (remove_attr n as) \<le> length as"
  by (induction as) auto

lemma remove_attr_split: "n \<notin> fst ` set xs \<Longrightarrow> remove_attr n (xs @ (n, v) # ys) = xs @ ys"
  by (induction xs) auto

lemma attr_loop_short: "length as < n \<Longrightarrow> i < n \<Longrightarrow> attr_loop n i as = Inl TypeError"
proof (induction n i as rule: attr_loop.induct)
  case (1 n i as)
  show ?case
  proof (cases "i < length as")
    case True
    let ?as = "if is_handler (as ! i) then remove_attr (fst (as ! i)) as else as"
    have "length ?as \<le> length as" by (simp add: remove_attr_le)
    then have "attr_loop n (Suc i) ?as = Inl TypeError" using 1 True by simp
    then show ?thesis using 1 True by (simp add: attr_loop.simps[of n i])
  qed (use 1 in \<open>simp add: attr_loop.simps[of n i]\<close>)
qed

lemma attr_loop_handler:
  assumes i: "i < length as" and h: "is_handler (as ! i)" and pre: "\<not> list_ex is_handler (take i as)"
  shows "attr_loop (length as) i as = (if Suc i < length as then Inl TypeError else Inr (take i as))"
proof -
  let ?as = "remove_attr (fst (as ! i)) as"
  have split: "as = take i as @ as ! i # drop (Suc i) as" using i by (rule id_take_nth_drop)
  have "fst (as ! i) \<notin> fst ` set (take i as)" using h pre by (auto simp: list_ex_iff is_handler_def)
  then have r: "?as = take i as @ drop (Suc i) as"
    using remove_attr_split[of "fst (as ! i)" "take i as" "snd (as ! i)"] by (metis split prod.collapse)
  have step: "attr_loop (length as) i as = attr_loop (length as) (Suc i) ?as" using i h by (simp add: attr_loop.simps[of "length as" i])
  show ?thesis
  proof (cases "Suc i < length as")
    case True
    moreover have "length ?as < length as" using i by (simp add: r)
    ultimately show ?thesis using attr_loop_short[of ?as "length as" "Suc i"] step by simp
  next
    case False
    then show ?thesis using i step by (simp add: r attr_loop.simps[of "length as" "Suc i"])
  qed
qed

lemma first_handler:
  assumes i: "i < length as" and h: "is_handler (as ! i)" and pre: "\<not> list_ex is_handler (take i as)"
  shows "list_ex is_handler (butlast as) \<longleftrightarrow> Suc i < length as"
    and "\<not> Suc i < length as \<Longrightarrow> filter (\<lambda>a. \<not> is_handler a) as = take i as"
proof -
  have last: "as = take i as @ [as ! i]" if "\<not> Suc i < length as" using that i id_take_nth_drop[OF i] by simp
  show "list_ex is_handler (butlast as) \<longleftrightarrow> Suc i < length as"
  proof (cases "Suc i < length as")
    case True
    then have "butlast as ! i = as ! i" "i < length (butlast as)" by (simp_all add: nth_butlast)
    then show ?thesis using h True by (metis list_ex_iff nth_mem)
  next
    case False
    then have "butlast as = take i as" by (metis last butlast_snoc)
    then show ?thesis using pre False by simp
  qed
  assume "\<not> Suc i < length as"
  moreover have "filter (\<lambda>a. \<not> is_handler a) (take i as) = take i as" using pre by (auto simp: filter_id_conv list_ex_iff)
  ultimately show "filter (\<lambda>a. \<not> is_handler a) as = take i as"
    using h by (metis last append.right_neutral filter.simps(1) filter.simps(2) filter_append)
qed

lemma attr_loop_all:
  assumes "i \<le> length as" "\<not> list_ex is_handler (take i as)"
  shows "attr_loop (length as) i as =
    (if list_ex is_handler (butlast as) then Inl TypeError else Inr (filter (\<lambda>a. \<not> is_handler a) as))"
  using assms
proof (induction "length as - i" arbitrary: i)
  case 0
  then have "\<not> list_ex is_handler as" by simp
  then have "filter (\<lambda>a. \<not> is_handler a) as = as" "\<not> list_ex is_handler (butlast as)"
    by (auto simp: filter_id_conv list_ex_iff dest: in_set_butlastD)
  then show ?case using 0 by (simp add: attr_loop.simps)
next
  case (Suc d)
  then have i: "i < length as" by simp
  show ?case
  proof (cases "is_handler (as ! i)")
    case False
    then have "\<not> list_ex is_handler (take (Suc i) as)" using Suc.prems i by (simp add: take_Suc_conv_app_nth)
    then have "attr_loop (length as) (Suc i) as =
        (if list_ex is_handler (butlast as) then Inl TypeError else Inr (filter (\<lambda>a. \<not> is_handler a) as))"
      using Suc.hyps(1)[of "Suc i"] Suc.hyps(2) i by simp
    then show ?thesis using False i by (simp add: attr_loop.simps[of "length as" i])
  next
    case True
    then show ?thesis using attr_loop_handler[OF i True Suc.prems(2)] first_handler[OF i True Suc.prems(2)] by simp
  qed
qed

lemma clean_exact:
  "clean_node h = (if blocked h then Inl TypeError else Inr (strip h))"
  "clean_nodes hs = (if list_ex blocked hs then Inl TypeError else Inr (map strip hs))"
proof (induction h and hs rule: clean_node_clean_nodes.induct)
  case (2 t as hs)
  then show ?case by (auto simp: attr_loop_all)
qed auto

lemma stripped_safe: "\<not> is_script h \<Longrightarrow> safe (strip (remove_scripts h))"
proof (induction h)
  case (El t as hs)
  then show ?case by (auto simp: list_ex_iff list_all_iff)
qed simp

lemma get_description_exact:
  assumes "val_of ''mark_description'' p = JStr s"
  shows "get_description parse print p =
    (if list_ex blocked (drop_scripts (parse s)) then Inl TypeError else Inr (print (map strip (drop_scripts (parse s)))))"
  using assms by (simp add: get_description_def clean_exact)

section \<open>Properties\<close>

text \<open>
  C3. Whatever the user writes as the description of a mark, \<open>template\<close> elements apart, the form sends it without script elements and
  without attributes of event handlers, and with everything else kept, or does not send it at all: it throws
  a type error exactly if an element has a handler before another attribute.
\<close>

theorem description_is_clean:
  assumes "val_of ''mark_description'' p = JStr s" and "hs = drop_scripts (parse s)"
  shows "get_description parse print p = (if list_ex blocked hs then Inl TypeError else Inr (print (map strip hs)))
    \<and> list_all safe (map strip hs)"
  using get_description_exact[OF assms(1)] by (auto simp: assms(2) list_all_iff intro: stripped_safe)

text \<open>
  C38. A description that has an event handler before another attribute of the same element cannot be saved,
  and it blocks the form: the handler of the button throws after it has dimmed the page and disabled the
  button, so no request is sent and nothing enables them again.
\<close>

theorem handler_blocks_the_form:
  assumes "val_of ''mark_description'' p = JStr s" "list_ex blocked (drop_scripts (parse s))"
    and "elem_by_id ''save_mark_btn'' p = Some b" "elem_by_id ''dimmer_of_page'' p = Some d"
  shows "\<exists>q. save_mark_click parse print p = (Some TypeError, q) \<and> out q = out p
    \<and> elem_by_id ''save_mark_btn'' q = Some (add_class ''disabled'' b)
    \<and> elem_by_id ''dimmer_of_page'' q = Some (add_class ''active'' d)"
proof -
  define q where "q = dimmer_on (update_id ''save_mark_btn'' (add_class ''disabled'') p)"
  have "val_of ''mark_description'' q = JStr s" using assms(1) by (simp add: q_def dimmer_on_def val_of_def)
  then have "get_description parse print q = Inl TypeError" using assms(2) by (simp add: get_description_exact)
  then have "save_mark_click parse print p = (Some TypeError, q)"
    by (simp add: save_mark_click_def collect_markdata_def q_def[symmetric])
  then show ?thesis using assms(3,4) by (simp add: q_def dimmer_on_def)
qed

text \<open>A form with a description; the parser is the one that knows the two texts used here.\<close>

definition demo_parse :: "string \<Rightarrow> html list" where
  "demo_parse s = (if s = ''bad'' then [El ''p'' [(''onclick'', ''x''), (''class'', ''c'')] [Txt ''t'']]
     else [El ''script'' [] [], El ''p'' [(''class'', ''c''), (''onclick'', ''x'')] [Txt ''t'']])"

definition demo_print :: "html list \<Rightarrow> string" where
  "demo_print hs = (if hs = [El ''p'' [(''class'', ''c'')] [Txt ''t'']] then ''clean'' else [])"

definition demo_mark_form :: "string \<Rightarrow> page" where
  "demo_mark_form s = \<lparr>doc = [new_elem\<lparr>el_key := 1, el_id := ''mark_description'', el_tag := ''textarea'', el_val := JStr s\<rparr>,
     new_elem\<lparr>el_key := 2, el_id := ''save_mark_btn''\<rparr>, new_elem\<lparr>el_key := 3, el_id := ''dimmer_of_page''\<rparr>], out = [], href = []\<rparr>"

lemma demo_mark_form_val: "val_of ''mark_description'' (demo_mark_form s) = JStr s"
  by (simp add: val_of_def elem_by_id_def by_id_def demo_mark_form_def new_elem_def elem_val_def)

theorem description_is_clean_witness:
  "get_description demo_parse demo_print (demo_mark_form ''text'') = Inr ''clean''"
proof -
  have "drop_scripts (demo_parse ''text'') = [El ''p'' [(''class'', ''c''), (''onclick'', ''x'')] [Txt ''t'']]"
    by (simp add: demo_parse_def)
  from description_is_clean[where parse=demo_parse and s="''text''" and print=demo_print, OF demo_mark_form_val this[symmetric]] show ?thesis
    by (simp add: demo_print_def is_handler_def starts_with_def)
qed

theorem handler_blocks_the_form_witness:
  "\<exists>q. save_mark_click demo_parse demo_print (demo_mark_form ''bad'') = (Some TypeError, q) \<and> out q = []"
proof -
  have b: "list_ex blocked (drop_scripts (demo_parse ''bad''))" by (simp add: demo_parse_def is_handler_def starts_with_def)
  show ?thesis
    using handler_blocks_the_form[where parse=demo_parse and s="''bad''", OF demo_mark_form_val b, of "new_elem\<lparr>el_key := 2, el_id := ''save_mark_btn''\<rparr>"
      "new_elem\<lparr>el_key := 3, el_id := ''dimmer_of_page''\<rparr>" demo_print]
    by (auto simp: demo_mark_form_def elem_by_id_def by_id_def new_elem_def)
qed

end
