(* ===== verification/Report_Graph.thy ===== *)
theory Report_Graph
  imports Bridge_Utils "HOL-Library.AList"
begin

text \<open>
  Graphs of component reports, \<open>reports/static/reports/js/report-graph.js\<close>, and their loading on the page
  of a component (\<open>reportComponent.js\<close>). The text of a graph is read row by row with three regular
  expressions; the drawing library gets the calls that build the cells. Its calls are kept in the order
  they are made; a new cell is known by its number.
\<close>

section \<open>The regular expressions\<close>

text \<open>
  A search tries every place of the row from the left. Where a repetition cannot be followed by a character
  of its own class, it takes the whole run; otherwise the shorter runs are tried in turn.
\<close>

fun search :: "(string \<Rightarrow> 'a option) \<Rightarrow> string \<Rightarrow> 'a option" where
  "search f [] = f []"
| "search f (c # cs) = (case f (c # cs) of Some x \<Rightarrow> Some x | None \<Rightarrow> search f cs)"

definition id_char :: "char \<Rightarrow> bool" where
  "id_char c = (c = CHR ''-'' \<or> is_digit c)"

fun break_last :: "string \<Rightarrow> string \<Rightarrow> (string \<times> string) option" where
  "break_last p [] = (if p = [] then Some ([], []) else None)"
| "break_last p (c # cs) =
     (case break_last p cs of
        Some (a, b) \<Rightarrow> Some (c # a, b)
      | None \<Rightarrow> map_option (\<lambda>b. ([], b)) (strip_prefix p (c # cs)))"

text \<open>\<open>(.*)p\<close>, the longest text before a closing text on the same line.\<close>

definition greedy_until :: "string \<Rightarrow> string \<Rightarrow> string option" where
  "greedy_until p s = map_option fst (break_last p (takeWhile (\<lambda>c. \<not> is_line_end c) s))"

abbreviation quote :: char where "quote \<equiv> CHR 34"

definition re1_at :: "string \<Rightarrow> string option" where
  "re1_at s =
     Option.bind (strip_prefix ''digraph'' s) (\<lambda>r.
       Option.bind (strip_prefix [quote] (dropWhile is_ws r)) (greedy_until [quote]))"

definition re2_at :: "string \<Rightarrow> (string \<times> string) option" where
  "re2_at s =
     (let i = takeWhile id_char s in
      if i = [] then None
      else Option.bind (strip_prefix (''[label='' @ [quote]) (dropWhile is_ws (dropWhile id_char s)))
        (\<lambda>r. map_option (\<lambda>l. (i, l)) (greedy_until [quote, CHR '']''] r)))"

text \<open>After \<open>k\<close> characters of the first number; the minus of the arrow may be one of the run.\<close>

definition re3_after :: "nat \<Rightarrow> string \<Rightarrow> (string \<times> string) option" where
  "re3_after k s =
     Option.bind (strip_prefix ''->'' (dropWhile is_ws (drop k s)))
       (\<lambda>r. let j = takeWhile id_char (dropWhile is_ws r) in if j = [] then None else Some (take k s, j))"

fun re3_try :: "nat \<Rightarrow> string \<Rightarrow> (string \<times> string) option" where
  "re3_try 0 s = None"
| "re3_try (Suc k) s = (case re3_after (Suc k) s of Some x \<Rightarrow> Some x | None \<Rightarrow> re3_try k s)"

definition re3_at :: "string \<Rightarrow> (string \<times> string) option" where
  "re3_at s = re3_try (length (takeWhile id_char s)) s"

section \<open>Reading a graph\<close>

record dot_data =
  dt_name :: "string option"
  dt_nodes :: "(string \<times> string) list"
  dt_links :: "(string \<times> string) list"

definition read_row :: "dot_data \<Rightarrow> string \<Rightarrow> dot_data" where
  "read_row d row =
     (case search re1_at row of
        Some n \<Rightarrow> d\<lparr>dt_name := Some n\<rparr>
      | None \<Rightarrow>
          (case search re2_at row of
             Some (i, l) \<Rightarrow> d\<lparr>dt_nodes := AList.update i (replace_str [CHR 92, CHR ''l''] [] l) (dt_nodes d)\<rparr>
           | None \<Rightarrow>
               (case search re3_at row of Some (i, j) \<Rightarrow> d\<lparr>dt_links := dt_links d @ [(i, j)]\<rparr> | None \<Rightarrow> d)))"

definition read_dot :: "string \<Rightarrow> dot_data" where
  "read_dot content =
     foldl read_row \<lparr>dt_name = None, dt_nodes = [], dt_links = []\<rparr> (map trim (split_on [CHR 10] content))"

section \<open>Drawing a graph\<close>

datatype graph_call =
    Insert_vertex nat string
  | Update_size nat
  | Insert_edge nat nat
  | Remove_cells "nat list"
  | Execute_layout
  | Set_geometry int int int int

record graph =
  gr_next :: nat
  gr_map :: "(string \<times> nat) list option"
  gr_calls :: "graph_call list"

definition call :: "graph_call list \<Rightarrow> graph \<Rightarrow> graph" where
  "call cs g = g\<lparr>gr_calls := gr_calls g @ cs\<rparr>"

definition clearGraph :: "graph \<Rightarrow> graph" where
  "clearGraph g =
     (case gr_map g of None \<Rightarrow> g | Some m \<Rightarrow> (call [Remove_cells (map snd m)] g)\<lparr>gr_map := None\<rparr>)"

definition insert_node :: "graph \<Rightarrow> string \<times> string \<Rightarrow> graph" where
  "insert_node g kv =
     (let c = gr_next g in
      (call [Insert_vertex c (snd kv), Update_size c] g)
        \<lparr>gr_next := Suc c, gr_map := map_option (AList.update (fst kv) c) (gr_map g)\<rparr>)"

definition insert_link :: "graph \<Rightarrow> string \<times> string \<Rightarrow> graph" where
  "insert_link g kv =
     (case gr_map g of
        None \<Rightarrow> g
      | Some m \<Rightarrow>
          (case (map_of m (fst kv), map_of m (snd kv)) of
             (Some v1, Some v2) \<Rightarrow> call [Insert_edge v1 v2] g
           | _ \<Rightarrow> g))"

text \<open>The place of the drawing keeps a margin of 20 on every side.\<close>

definition new_geometry :: "int \<times> int \<times> int \<times> int \<Rightarrow> graph_call" where
  "new_geometry = (\<lambda>(x, y, w, h).
     Set_geometry (if x < 20 then 20 else x) (if y < 20 then 20 else y)
       (if x < 20 then w + 20 + 20 else w + 20) (if y < 20 then h + 20 + 20 else h + 20))"

text \<open>\<open>bounds\<close>: the bounds of the graph the library reports after its layout.\<close>

definition updateGraph :: "(graph_call list \<Rightarrow> int \<times> int \<times> int \<times> int) \<Rightarrow> dot_data \<Rightarrow> graph \<Rightarrow> graph" where
  "updateGraph bounds d g =
     (let g1 = (clearGraph g)\<lparr>gr_map := Some []\<rparr>;
          g2 = foldl insert_node g1 (dt_nodes d);
          g3 = call [Execute_layout] (foldl insert_link g2 (dt_links d)) in
      call [new_geometry (bounds (gr_calls g3))] g3)"

definition fromDotData :: "(graph_call list \<Rightarrow> int \<times> int \<times> int \<times> int) \<Rightarrow> string \<Rightarrow> graph \<Rightarrow> graph" where
  "fromDotData bounds content g = updateGraph bounds (read_dot content) g"

section \<open>Loading a graph\<close>

record graph_page = page +
  gp_graph :: graph

definition load_graph_click :: "elem \<Rightarrow> graph_page \<Rightarrow> graph_page" where
  "load_graph_click e p =
     send ''GET'' (to_str (el_data e ''url'')) JUndef ''graph_loaded'' (update_id ''graph_content_div'' hidden_el p)"

definition graph_loaded :: "(graph_call list \<Rightarrow> int \<times> int \<times> int \<times> int) \<Rightarrow> string \<Rightarrow> string \<Rightarrow> graph_page \<Rightarrow> graph_page" where
  "graph_loaded bounds title content p =
     (let p1 = update_id ''graph_title'' (set_text title) p;
          p2 = p1\<lparr>gp_graph := fromDotData bounds content (gp_graph p1)\<rparr> in
      update_id ''graph_content_div'' shown_el p2)"

section \<open>Reading what is printed\<close>

text \<open>A graph as the graph printer of the core writes it: the name, one row for a node, one row for a link.\<close>

definition node_row :: "string \<times> string \<Rightarrow> string" where
  "node_row n = CHR 9 # fst n @ '' [label='' @ [quote] @ snd n @ [quote, CHR '']'']"

definition link_row :: "string \<times> string \<Rightarrow> string" where
  "link_row l = CHR 9 # fst l @ '' -> '' @ snd l"

definition name_row :: "string \<Rightarrow> string" where
  "name_row n = ''digraph '' @ [quote] @ n @ [quote] @ '' {''"

text \<open>
  A text as the reader expects it, with all nodes before all links. It stands for the form of the texts, not for the
  program that prints them, whose order and quoting may differ.
\<close>

definition dot_text :: "string \<Rightarrow> (string \<times> string) list \<Rightarrow> (string \<times> string) list \<Rightarrow> string" where
  "dot_text name nodes links = join [CHR 10] (name_row name # map node_row nodes @ map link_row links @ [''}''])"

definition good_id :: "string \<Rightarrow> bool" where
  "good_id i = (i \<noteq> [] \<and> list_all id_char i)"

definition good_label :: "string \<Rightarrow> bool" where
  "good_label l = (list_all (\<lambda>c. \<not> is_line_end c) l \<and> \<not> contains l ''digraph'')"

definition good_dot :: "string \<Rightarrow> (string \<times> string) list \<Rightarrow> (string \<times> string) list \<Rightarrow> bool" where
  "good_dot name nodes links = (list_all (\<lambda>c. \<not> is_line_end c) name
     \<and> distinct (map fst nodes) \<and> list_all (\<lambda>(i, l). good_id i \<and> good_label l) nodes
     \<and> list_all (\<lambda>(i, j). good_id i \<and> good_id j) links)"

text \<open>What a search finds.\<close>

lemma search_Some: "search f s = Some x \<Longrightarrow> \<exists>t. suffix t s \<and> f t = Some x"
  by (induction s) (auto split: option.splits intro: suffix_ConsI)

lemma search_here: "f s = Some x \<Longrightarrow> search f s = Some x"
  by (cases s) auto

lemma search_None: "(\<And>t x. suffix t s \<Longrightarrow> f t \<noteq> Some x) \<Longrightarrow> search f s = None"
  by (cases "search f s") (auto dest: search_Some)

lemma break_last_char: "c \<notin> set b \<Longrightarrow> break_last [c] b = None"
  by (induction b) auto

lemma break_last_quote: "c \<notin> set b \<Longrightarrow> break_last [c] (a @ c # b) = Some (a, b)"
  by (induction a) (auto simp: break_last_char)

lemma break_last_end: "break_last [c, d] (a @ [c, d]) = Some (a, [])"
  by (induction a) auto

lemma re1_needs: "re1_at t = Some n \<Longrightarrow> prefix ''digraph'' t"
  by (auto simp: re1_at_def bind_eq_Some_conv strip_prefix_Some)

lemma sublist_inside: "suffix t s \<Longrightarrow> prefix p t \<Longrightarrow> sublist p s"
  by (auto simp: sublist_def suffix_def prefix_def)

lemma no_re1: "\<not> sublist ''digraph'' s \<Longrightarrow> search re1_at s = None"
  by (rule search_None) (blast dest: re1_needs sublist_inside)

lemma no_re2: "CHR ''['' \<notin> set s \<Longrightarrow> search re2_at s = None"
proof (rule search_None, rule notI)
  fix t x assume s: "CHR ''['' \<notin> set s" "suffix t s" and "re2_at t = Some x"
  then obtain r where "dropWhile is_ws (dropWhile id_char t) = ''[label='' @ quote # r"
    by (auto simp: re2_at_def Let_def bind_eq_Some_conv strip_prefix_Some split: if_splits)
  then have "CHR ''['' \<in> set (dropWhile is_ws (dropWhile id_char t))" by simp
  then have "CHR ''['' \<in> set t" by (blast dest: set_dropWhileD)
  then show False using s set_mono_suffix by blast
qed

lemma sublist_apart: "c \<notin> set xs \<Longrightarrow> sublist xs (a @ c # b) \<Longrightarrow> sublist xs a \<or> sublist xs b"
  by (auto simp: sublist_append sublist_Cons_right prefix_Cons suffix_append)

lemma id_char_facts: "\<not> id_char CHR '' ''" "\<not> id_char CHR ''d''" "\<not> id_char CHR ''[''" "id_char c \<Longrightarrow> \<not> is_ws c" "id_char c \<Longrightarrow> \<not> is_line_end c"
  by (auto simp: id_char_def is_digit_def digit_of_def is_ws_def is_line_end_def Let_def split: if_splits)

lemma trim_tab: "s \<noteq> [] \<Longrightarrow> \<not> is_ws (hd s) \<Longrightarrow> \<not> is_ws (last s) \<Longrightarrow> trim (CHR 9 # s) = s \<and> trim s = s"
proof -
  assume a: "s \<noteq> []" "\<not> is_ws (hd s)" "\<not> is_ws (last s)"
  have "dropWhile is_ws s = s" using a by (cases s) auto
  moreover have "dropWhile is_ws (rev s) = rev s" using a by (cases s rule: rev_cases) auto
  moreover have "is_ws (CHR 9)" by (simp add: is_ws_def)
  ultimately show "trim (CHR 9 # s) = s \<and> trim s = s" by (simp add: trim_def)
qed

lemma takeWhile_all_then: "list_all P xs \<Longrightarrow> \<not> P y \<Longrightarrow> takeWhile P (xs @ y # ys) = xs \<and> dropWhile P (xs @ y # ys) = y # ys"
  by (induction xs) auto

lemma read_name:
  assumes "list_all (\<lambda>c. \<not> is_line_end c) n"
  shows "read_row d (trim (name_row n)) = d\<lparr>dt_name := Some n\<rparr>"
proof -
  have t: "trim (name_row n) = name_row n" using trim_tab[of "name_row n"] by (simp add: name_row_def is_ws_def)
  have l: "\<not> is_line_end quote" "\<not> is_line_end CHR '' ''" "\<not> is_line_end CHR ''{''" by (simp_all add: is_line_end_def)
  have w: "takeWhile (\<lambda>c. \<not> is_line_end c) (n @ quote # '' {'') = n @ quote # '' {''"
    using assms l by (simp add: list_all_iff takeWhile_eq_all_conv)
  have "re1_at (name_row n) = Some n"
    unfolding re1_at_def name_row_def using break_last_quote[of quote "'' {''" n] w
    by (simp add: is_ws_def greedy_until_def)
  then show ?thesis by (simp add: t read_row_def search_here)
qed

lemma no_re1_label:
  assumes "CHR ''d'' \<notin> set a" "good_label l"
  shows "search re1_at (a @ quote # l @ quote # '']'') = None"
proof (rule no_re1)
  have "\<not> sublist ''digraph'' a" "\<not> sublist ''digraph'' '']''" using assms(1) by (auto dest: set_mono_sublist)
  moreover have "\<not> sublist ''digraph'' l" using assms(2) by (simp add: good_label_def contains_sublist)
  ultimately show "\<not> sublist ''digraph'' (a @ quote # l @ quote # '']'')"
    using sublist_apart[of quote "''digraph''" a "l @ quote # '']''"] sublist_apart[of quote "''digraph''" l "'']''"] by auto
qed

lemma re2_label:
  assumes "good_id i" "good_label l"
  shows "re2_at (i @ '' [label='' @ quote # l @ quote # '']'') = Some (i, l)"
proof -
  have i: "i \<noteq> []" "list_all id_char i" using assms by (simp_all add: good_id_def)
  have l: "\<not> is_line_end quote" "\<not> is_line_end CHR '']''" by (simp_all add: is_line_end_def)
  have w: "takeWhile (\<lambda>c. \<not> is_line_end c) (l @ [quote, CHR '']'']) = l @ [quote, CHR '']'']"
    using assms(2) l by (simp add: good_label_def list_all_iff takeWhile_eq_all_conv)
  show ?thesis unfolding re2_at_def
    using takeWhile_all_then[OF i(2) id_char_facts(1)] i(1) w break_last_end[of quote "CHR '']''" l]
    by (simp add: is_ws_def greedy_until_def)
qed

lemma read_node:
  assumes "good_id i" "good_label l"
  shows "read_row d (trim (node_row (i, l))) = d\<lparr>dt_nodes := AList.update i (replace_str [CHR 92, CHR ''l''] [] l) (dt_nodes d)\<rparr>"
proof -
  define r where "r = i @ '' [label='' @ quote # l @ quote # '']''"
  have i: "i \<noteq> []" "list_all id_char i" using assms by (simp_all add: good_id_def)
  have "\<not> is_ws (hd r)" using i by (cases i) (simp_all add: r_def id_char_facts)
  then have t: "trim (node_row (i, l)) = r" using trim_tab[of r] by (simp add: node_row_def r_def is_ws_def)
  have "CHR ''d'' \<notin> set (i @ '' [label='')" using i(2) id_char_facts by (auto simp: list_all_iff)
  then have r1: "search re1_at r = None" using no_re1_label[of "i @ '' [label=''" l] assms(2) by (simp add: r_def)
  then show ?thesis using re2_label[OF assms] by (simp add: t read_row_def r_def search_here)
qed

lemma read_link:
  assumes "good_id i" "good_id j"
  shows "read_row d (trim (link_row (i, j))) = d\<lparr>dt_links := dt_links d @ [(i, j)]\<rparr>"
proof -
  define r where "r = i @ CHR '' '' # ''-> '' @ j"
  have i: "i \<noteq> []" "list_all id_char i" "j \<noteq> []" "list_all id_char j" using assms by (simp_all add: good_id_def)
  have ws: "\<not> is_ws (hd r)" "\<not> is_ws (last r)" "\<not> is_ws (hd j)"
    using i by (auto simp: r_def hd_append list_all_iff intro!: id_char_facts)
  then have t: "trim (link_row (i, j)) = r" using trim_tab[of r] by (simp add: link_row_def r_def)
  have nd: "CHR ''d'' \<notin> set r" "CHR ''['' \<notin> set r" using i id_char_facts by (auto simp: r_def list_all_iff)
  have "\<not> sublist ''digraph'' r" using nd(1) by (auto dest: set_mono_sublist)
  then have r1: "search re1_at r = None" by (rule no_re1)
  have r2: "search re2_at r = None" by (rule no_re2) (rule nd)
  have j: "dropWhile is_ws j = j" "takeWhile id_char j = j" using ws i by (cases j; simp add: list_all_iff takeWhile_eq_all_conv)+
  have "re3_after (length i) r = Some (i, j)" unfolding re3_after_def r_def by (simp add: is_ws_def Let_def j i(3))
  moreover have "takeWhile id_char r = i" using takeWhile_all_then[OF i(2) id_char_facts(1)] by (simp add: r_def)
  ultimately have "re3_at r = Some (i, j)" using i(1) by (cases i) (simp_all add: re3_at_def)
  then show ?thesis by (simp add: t read_row_def r1 r2 search_here)
qed

abbreviation shown_label :: "string \<Rightarrow> string" where
  "shown_label \<equiv> replace_str [CHR 92, CHR ''l''] []"

lemma update_new: "k \<notin> fst ` set m \<Longrightarrow> AList.update k v m = m @ [(k, v)]"
  by (induction m) auto

lemma read_nodes:
  "list_all (\<lambda>(i, l). good_id i \<and> good_label l) ns \<Longrightarrow> distinct (map fst (dt_nodes d) @ map fst ns) \<Longrightarrow>
   foldl read_row d (map trim (map node_row ns)) = d\<lparr>dt_nodes := dt_nodes d @ map (\<lambda>(i, l). (i, shown_label l)) ns\<rparr>"
proof (induction ns arbitrary: d)
  case (Cons n ns)
  obtain i l where n: "n = (i, l)" by force
  have "i \<notin> fst ` set (dt_nodes d)" using Cons.prems(2) by (auto simp: n)
  then have r: "read_row d (trim (node_row n)) = d\<lparr>dt_nodes := dt_nodes d @ [(i, shown_label l)]\<rparr>"
    using Cons.prems(1) by (simp add: n read_node update_new)
  show ?case using Cons.IH[of "d\<lparr>dt_nodes := dt_nodes d @ [(i, shown_label l)]\<rparr>"] Cons.prems r by (auto simp: n)
qed simp

lemma read_links:
  "list_all (\<lambda>(i, j). good_id i \<and> good_id j) ls \<Longrightarrow>
   foldl read_row d (map trim (map link_row ls)) = d\<lparr>dt_links := dt_links d @ ls\<rparr>"
proof (induction ls arbitrary: d)
  case (Cons l ls)
  then show ?case by (cases l) (simp add: read_link)
qed simp

lemma read_end: "read_row d (trim ''}'') = d"
proof -
  have "trim ''}'' = ''}''" "search re1_at ''}'' = None" "search re2_at ''}'' = None" "search re3_at ''}'' = None" by code_simp+
  then show ?thesis by (simp add: read_row_def)
qed

lemma rows_have_no_line_end:
  assumes "good_dot name nodes links"
  shows "\<forall>r \<in> set (name_row name # map node_row nodes @ map link_row links @ [''}'']). CHR 10 \<notin> set r"
proof -
  have e: "is_line_end (CHR 10)" by (simp add: is_line_end_def)
  have i: "CHR 10 \<notin> set i" if "good_id i" for i using that id_char_facts(5) e by (auto simp: good_id_def list_all_iff)
  have "CHR 10 \<notin> set (name_row name)" using assms e by (auto simp: good_dot_def name_row_def list_all_iff)
  moreover have "CHR 10 \<notin> set (node_row n)" if "n \<in> set nodes" for n
    using that assms e i by (auto simp: good_dot_def node_row_def good_label_def list_all_iff)
  moreover have "CHR 10 \<notin> set (link_row l)" if "l \<in> set links" for l
    using that assms i by (auto simp: good_dot_def link_row_def list_all_iff)
  ultimately show ?thesis by auto
qed

lemma read_dot_text:
  assumes "good_dot name nodes links"
  shows "read_dot (dot_text name nodes links) =
    \<lparr>dt_name = Some name, dt_nodes = map (\<lambda>(i, l). (i, shown_label l)) nodes, dt_links = links\<rparr>"
proof -
  note g = assms[unfolded good_dot_def]
  have "split_on [CHR 10] (dot_text name nodes links) = name_row name # map node_row nodes @ map link_row links @ [''}'']"
    unfolding dot_text_def by (rule split_on_join[OF _ rows_have_no_line_end[OF assms]]) simp
  then show ?thesis using g read_name[of name] read_nodes[of nodes] read_links[of links]
    by (simp add: read_dot_def read_end del: map_map)
qed

section \<open>Cells\<close>

definition node_calls :: "nat \<Rightarrow> (string \<times> string) list \<Rightarrow> graph_call list" where
  "node_calls n nodes = concat (map (\<lambda>(c, kv). [Insert_vertex c (snd kv), Update_size c]) (enumerate n nodes))"

definition cells :: "nat \<Rightarrow> (string \<times> string) list \<Rightarrow> (string \<times> nat) list" where
  "cells n nodes = zip (map fst nodes) [n..<n + length nodes]"

definition link_calls :: "(string \<times> nat) list \<Rightarrow> (string \<times> string) list \<Rightarrow> graph_call list" where
  "link_calls m links = concat (map (\<lambda>(i, j). case (map_of m i, map_of m j) of (Some v, Some w) \<Rightarrow> [Insert_edge v w] | _ \<Rightarrow> []) links)"

lemma insert_nodes:
  "gr_map g = Some m \<Longrightarrow> distinct (map fst m @ map fst ns) \<Longrightarrow>
   foldl insert_node g ns = g\<lparr>gr_next := gr_next g + length ns, gr_map := Some (m @ cells (gr_next g) ns),
     gr_calls := gr_calls g @ node_calls (gr_next g) ns\<rparr>"
proof (induction ns arbitrary: g m)
  case (Cons n ns)
  have nm: "AList.update (fst n) (gr_next g) m = m @ [(fst n, gr_next g)]" using Cons.prems(2) by (auto intro: update_new)
  define g' where "g' = insert_node g n"
  have g': "g' = g\<lparr>gr_next := Suc (gr_next g), gr_map := Some (m @ [(fst n, gr_next g)]),
      gr_calls := gr_calls g @ [Insert_vertex (gr_next g) (snd n), Update_size (gr_next g)]\<rparr>"
    using Cons.prems(1) nm by (simp add: g'_def insert_node_def call_def Let_def)
  have "foldl insert_node g' ns = g'\<lparr>gr_next := gr_next g' + length ns, gr_map := Some ((m @ [(fst n, gr_next g)]) @ cells (gr_next g') ns),
     gr_calls := gr_calls g' @ node_calls (gr_next g') ns\<rparr>"
    by (rule Cons.IH) (use Cons.prems(2) in \<open>auto simp: g'\<close>)
  moreover have "cells k (n # ns) = (fst n, k) # cells (Suc k) ns" for k by (simp add: cells_def upt_conv_Cons del: upt_Suc)
  ultimately show ?case by (simp add: g'_def[symmetric]) (simp add: g' node_calls_def)
qed (simp add: node_calls_def cells_def)

lemma insert_links:
  "gr_map g = Some m \<Longrightarrow> foldl insert_link g ls = g\<lparr>gr_calls := gr_calls g @ link_calls m ls\<rparr>"
  by (induction ls arbitrary: g) (auto simp: insert_link_def link_calls_def call_def split: option.split)

lemma updateGraph_calls:
  assumes "distinct (map fst (dt_nodes d))"
  shows "\<exists>x y w h. gr_calls (updateGraph bounds d g) = gr_calls (clearGraph g) @ node_calls (gr_next g) (dt_nodes d)
    @ link_calls (cells (gr_next g) (dt_nodes d)) (dt_links d) @ [Execute_layout, Set_geometry x y w h] \<and> 20 \<le> x \<and> 20 \<le> y"
proof -
  define g1 where "g1 = (clearGraph g)\<lparr>gr_map := Some []\<rparr>"
  have n: "gr_next g1 = gr_next g" "gr_calls g1 = gr_calls (clearGraph g)"
    by (simp_all add: g1_def clearGraph_def call_def split: option.split)
  have g2: "foldl insert_node g1 (dt_nodes d) = g1\<lparr>gr_next := gr_next g + length (dt_nodes d),
      gr_map := Some (cells (gr_next g) (dt_nodes d)), gr_calls := gr_calls g1 @ node_calls (gr_next g) (dt_nodes d)\<rparr>"
    using insert_nodes[of g1 "[]" "dt_nodes d"] assms n by (simp add: g1_def)
  have "\<exists>x y w h. new_geometry b = Set_geometry x y w h \<and> 20 \<le> x \<and> 20 \<le> y" for b
    by (cases b) (auto simp: new_geometry_def)
  then obtain x y w h where b: "20 \<le> x" "20 \<le> y" "new_geometry (bounds (gr_calls g1 @ node_calls (gr_next g) (dt_nodes d)
      @ link_calls (cells (gr_next g) (dt_nodes d)) (dt_links d) @ [Execute_layout])) = Set_geometry x y w h" by blast
  show ?thesis
    by (rule exI[of _ x], rule exI[of _ y], rule exI[of _ w], rule exI[of _ h])
       (simp add: updateGraph_def g1_def[symmetric] g2 insert_links call_def b n(2)[symmetric] Let_def)
qed

section \<open>Property\<close>

text \<open>
  C11. A graph printed as text is drawn as it is: a vertex for every node in order, with the first line-break mark of
  its label left out, and then an edge for every link in order whose two ends are nodes; before that the cells
  of the last graph are removed, and after that the layout is run and the drawing placed with a margin.
\<close>

theorem printed_graph_is_drawn:
  assumes "good_dot name nodes links"
  defines "ns \<equiv> map (\<lambda>(i, l). (i, shown_label l)) nodes"
  shows "\<exists>x y w h. gr_calls (fromDotData bounds (dot_text name nodes links) g) = gr_calls (clearGraph g)
    @ node_calls (gr_next g) ns @ link_calls (cells (gr_next g) ns) links @ [Execute_layout, Set_geometry x y w h]
    \<and> 20 \<le> x \<and> 20 \<le> y"
proof -
  have "map fst ns = map fst nodes" by (simp add: ns_def comp_def case_prod_beta)
  then have "distinct (map fst ns)" using assms(1) by (simp add: good_dot_def)
  then show ?thesis
    using updateGraph_calls[of "read_dot (dot_text name nodes links)" bounds g]
    by (simp add: fromDotData_def read_dot_text[OF assms(1)] ns_def)
qed

theorem printed_graph_is_drawn_witness:
  "\<exists>x y w h. gr_calls (fromDotData (\<lambda>_. (0, 0, 50, 50))
      (dot_text ''p'' [(''-7'', ''a''), (''8'', ''b'' @ [CHR 92, CHR ''l''])] [(''-7'', ''8''), (''8'', ''9'')])
      \<lparr>gr_next = 0, gr_map = None, gr_calls = []\<rparr>)
    = [Insert_vertex 0 ''a'', Update_size 0, Insert_vertex 1 ''b'', Update_size 1, Insert_edge 0 1, Execute_layout, Set_geometry x y w h]"
proof -
  let ?nodes = "[(''-7'', ''a''), (''8'', ''b'' @ [CHR 92, CHR ''l''])]"
  have g: "good_dot ''p'' ?nodes [(''-7'', ''8''), (''8'', ''9'')]" by code_simp
  have n: "map (\<lambda>(i, l). (i, shown_label l)) ?nodes = [(''-7'', ''a''), (''8'', ''b'')]" by code_simp
  show ?thesis
    using printed_graph_is_drawn[OF g, of "\<lambda>_. (0, 0, 50, 50)" "\<lparr>gr_next = 0, gr_map = None, gr_calls = []\<rparr>"]
    unfolding n by (auto simp: clearGraph_def node_calls_def link_calls_def cells_def numeral_2_eq_2)
qed

section \<open>Labels of links\<close>

text \<open>The core labels the links of repeated actions.\<close>

definition labelled_row :: "string \<times> string \<Rightarrow> string \<Rightarrow> string" where
  "labelled_row l t = link_row l @ '' [label='' @ [quote] @ t @ [quote, CHR '']'']"

lemma search_skip: "(\<And>u. suffix u a \<Longrightarrow> u \<noteq> [] \<Longrightarrow> f (u @ b) = None) \<Longrightarrow> search f (a @ b) = search f b"
proof (induction a)
  case (Cons c a)
  have "f (c # a @ b) = None" using Cons.prems[of "c # a"] by simp
  moreover have "search f (a @ b) = search f b" using Cons by (meson suffix_ConsI)
  ultimately show ?case by simp
qed simp

lemma re2_skips_number:
  assumes "list_all id_char i"
  shows "search re2_at (i @ '' -> '' @ b) = search re2_at b"
proof -
  have "re2_at (u @ '' -> '' @ b) = None" if "suffix u i" "u \<noteq> []" for u
  proof -
    have "list_all id_char u" using assms that set_mono_suffix by (fastforce simp: list_all_iff)
    from takeWhile_all_then[OF this id_char_facts(1)] show ?thesis using that by (simp add: re2_at_def is_ws_def)
  qed
  then have "search re2_at (i @ '' -> '' @ b) = search re2_at ('' -> '' @ b)" by (rule search_skip)
  moreover have "search re2_at ('' -> '' @ b) = search re2_at b"
    by (simp add: re2_at_def id_char_def is_digit_def digit_of_def is_ws_def)
  ultimately show ?thesis by simp
qed

text \<open>
  C39. A link with a label is not read as a link: the row is taken for the node at its end, whose label
  becomes the label of the link.
\<close>

theorem labelled_link_is_read_as_node:
  assumes "good_id i" "good_id j" "good_label t"
  shows "read_row d (trim (labelled_row (i, j) t)) = d\<lparr>dt_nodes := AList.update j (shown_label t) (dt_nodes d)\<rparr>"
proof -
  define r where "r = i @ '' -> '' @ j @ '' [label='' @ quote # t @ quote # '']''"
  have i: "i \<noteq> []" "list_all id_char i" "list_all id_char j" using assms by (simp_all add: good_id_def)
  have "\<not> is_ws (hd r)" using i by (cases i) (simp_all add: r_def id_char_facts)
  then have tr: "trim (labelled_row (i, j) t) = r" using trim_tab[of r] by (simp add: labelled_row_def link_row_def r_def is_ws_def)
  have "CHR ''d'' \<notin> set (i @ '' -> '' @ j @ '' [label='')" using i id_char_facts by (auto simp: list_all_iff)
  then have r1: "search re1_at r = None"
    using no_re1_label[of "i @ '' -> '' @ j @ '' [label=''" t] assms(3) by (simp add: r_def)
  have "search re2_at r = search re2_at (j @ '' [label='' @ quote # t @ quote # '']'')"
    unfolding r_def by (rule re2_skips_number[OF i(2)])
  then have "search re2_at r = Some (j, t)" using re2_label[OF assms(2,3)] by (simp add: search_here)
  then show ?thesis by (simp add: tr read_row_def r1)
qed

theorem labelled_link_is_read_as_node_witness:
  "read_dot (join [CHR 10] [name_row ''p'', node_row (''1'', ''a''), node_row (''2'', ''b''), labelled_row (''1'', ''2'') ''Repeat 3 times'', ''}''])
    = \<lparr>dt_name = Some ''p'', dt_nodes = [(''1'', ''a''), (''2'', ''Repeat 3 times'')], dt_links = []\<rparr>"
proof -
  let ?rows = "[name_row ''p'', node_row (''1'', ''a''), node_row (''2'', ''b''), labelled_row (''1'', ''2'') ''Repeat 3 times'', ''}'']"
  have g: "good_id ''1''" "good_id ''2''" "good_label ''Repeat 3 times''" "good_label ''a''" "good_label ''b''" by code_simp+
  have "\<forall>r \<in> set ?rows. CHR 10 \<notin> set r" by (simp add: name_row_def node_row_def labelled_row_def link_row_def)
  then have "split_on [CHR 10] (join [CHR 10] ?rows) = ?rows" by (intro split_on_join) simp_all
  moreover have "shown_label ''Repeat 3 times'' = ''Repeat 3 times''" "shown_label ''a'' = ''a''" "shown_label ''b'' = ''b''" by code_simp+
  ultimately show ?thesis
    using g by (simp add: read_dot_def read_name read_node labelled_link_is_read_as_node read_end is_line_end_def)
qed

end
