(* ===== verification/Decision_Page.thy ===== *)
theory Decision_Page
  imports View_Settings
begin

text \<open>
  The page of a decision, \<open>jobs/static/jobs/js/decisionPage.js\<close>: its dialogs and the timer that refreshes
  results, progress and status every three seconds. \<open>dp_active\<close> is \<open>$.active\<close>, the number of open requests;
  \<open>dp_alive\<close> says whether the timer runs.
\<close>

record decision_page = page +
  num_of_updates :: nat
  is_filters_open :: bool
  is_rename_modal_open :: bool
  dp_alive :: bool
  dp_active :: nat
  dp_urls :: "string \<Rightarrow> string"

definition request :: "string \<Rightarrow> string \<Rightarrow> jsval \<Rightarrow> string \<Rightarrow> decision_page \<Rightarrow> decision_page" where
  "request m u d t p = (send m u d t p)\<lparr>dp_active := Suc (dp_active p)\<rparr>"

section \<open>The refresh\<close>

definition update_decision_results :: "decision_page \<Rightarrow> js_error + decision_page" where
  "update_decision_results p =
     map_sum id (\<lambda>(v, t). request ''GET'' (dp_urls p ''decision_results'' @ ''?'' @ encodeQueryData [(''view'', v), (''view_type'', t)])
         (JObj []) ''decision_results'' p) (collect_view_data ''2'' p)"

definition update_progress :: "decision_page \<Rightarrow> decision_page" where
  "update_progress p = request ''GET'' (dp_urls p ''get_progress'') (JObj []) ''progress'' p"

definition check_status :: "decision_page \<Rightarrow> decision_page" where
  "check_status p = request ''GET'' (dp_urls p ''get_status'') (JObj []) ''status'' p"

definition autoupdate_status :: "'a page_scheme \<Rightarrow> jsval" where
  "autoupdate_status p = data_of ''decision_autoupdate_btn'' ''status'' p"

definition set_autoupdate :: "string \<Rightarrow> string \<Rightarrow> 'a page_scheme \<Rightarrow> 'a page_scheme" where
  "set_autoupdate t s p = update_id ''decision_autoupdate_btn'' (set_data ''status'' (JStr s) \<circ> set_text (text_of t p)) p"

definition stop_autoupdate :: "decision_page \<Rightarrow> decision_page" where
  "stop_autoupdate p =
     (if autoupdate_status p = JStr ''off'' then p
      else set_autoupdate ''start_autorefresh'' ''off'' (err_notify (text_of ''error__autoupdate_off'' p) None p))"

definition start_autoupdate :: "decision_page \<Rightarrow> decision_page" where
  "start_autoupdate p =
     (if autoupdate_status p = JStr ''on'' then p
      else set_autoupdate ''stop_autorefresh'' ''on'' (p\<lparr>num_of_updates := 0\<rparr>))"

definition autoupdate_click :: "decision_page \<Rightarrow> decision_page" where
  "autoupdate_click p = (if autoupdate_status p = JStr ''on'' then stop_autoupdate p else start_autoupdate p)"

text \<open>One tick of the timer; an error in collecting the view's data ends it.\<close>

definition refresh_results :: "decision_page \<Rightarrow> js_error + decision_page" where
  "refresh_results p =
     map_sum id (\<lambda>q. let r = (update_progress q)\<lparr>num_of_updates := Suc (num_of_updates q)\<rparr> in
       if num_of_updates r > 100 then stop_autoupdate r else r) (update_decision_results p)"

definition tick :: "decision_page \<Rightarrow> decision_page" where
  "tick p =
     (if \<not> dp_alive p \<or> dp_active p > 0 \<or> is_filters_open p \<or> is_rename_modal_open p then p
      else if autoupdate_status p = JStr ''on'' then
        (case refresh_results p of Inl _ \<Rightarrow> p | Inr q \<Rightarrow> check_status q)
      else check_status p)"

section \<open>Answers\<close>

definition answered :: "decision_page \<Rightarrow> decision_page" where
  "answered p = p\<lparr>dp_active := dp_active p - 1\<rparr>"

definition results_loaded :: "string \<Rightarrow> decision_page \<Rightarrow> decision_page" where
  "results_loaded resp p = answered (update_id ''decision_results_div'' (set_html resp) p)"

definition progress_loaded :: "string \<Rightarrow> decision_page \<Rightarrow> decision_page" where
  "progress_loaded resp p = answered (update_id ''decision_progress_container'' (set_html resp) p)"

definition refresh_failed :: "jsval \<Rightarrow> decision_page \<Rightarrow> decision_page" where
  "refresh_failed json p = answered (ajaxError json (p\<lparr>dp_alive := False\<rparr>))"

definition status_loaded :: "jsval \<Rightarrow> decision_page \<Rightarrow> decision_page" where
  "status_loaded resp p =
     answered (if get_prop resp ''status'' \<noteq> val_of ''current_decision_status'' p then reload p else p)"

definition status_failed :: "jsval \<Rightarrow> decision_page \<Rightarrow> decision_page" where
  "status_failed json p =
     answered (ajaxError json ((foldl (\<lambda>q err. err_notify err None q) p (flatten_api_errors json []))\<lparr>dp_alive := False\<rparr>))"

section \<open>Dialogs\<close>

definition rename_click :: "decision_page \<Rightarrow> decision_page" where
  "rename_click p = (modal ''rename_decision_modal'' ''show'' p)\<lparr>is_rename_modal_open := True\<rparr>"

definition rename_cancel :: "decision_page \<Rightarrow> decision_page" where
  "rename_cancel p = (modal ''rename_decision_modal'' ''hide'' p)\<lparr>is_rename_modal_open := False\<rparr>"

definition modal_confirm_url :: "string \<Rightarrow> 'a page_scheme \<Rightarrow> string" where
  "modal_confirm_url m p =
     to_str (case select (inside m (by_class ''modal-confirm'') p) p of [] \<Rightarrow> JUndef | e # _ \<Rightarrow> el_data e ''url'')"

definition rename_confirm :: "decision_page \<Rightarrow> decision_page" where
  "rename_confirm p =
     request ''PATCH'' (modal_confirm_url ''rename_decision_modal'' p) (JObj [(''title'', val_of ''rename_decision_input'' p)]) ''renamed'' p"

definition decision_renamed :: "decision_page \<Rightarrow> decision_page" where
  "decision_renamed p = answered (reload p)"

definition verifier_filters :: "'a page_scheme \<Rightarrow> jsval" where
  "verifier_filters p = JObj [
     (''safes'', JBool (checked ''download_verifier_files_safes'' p)), (''unsafes'', JBool (checked ''download_verifier_files_unsafes'' p)),
     (''unknowns'', JBool (checked ''download_verifier_files_unknowns'' p)),
     (''problems'', JArr (map (\<lambda>e. JObj [(''problem'', el_data e ''problem''), (''component'', el_data e ''component'')])
        (filter el_checked (select (by_class ''download_verifier_files-problem'') p))))]"

definition verifier_files_confirm :: "decision_page \<Rightarrow> decision_page" where
  "verifier_files_confirm p =
     (let q = modal ''download_verifier_files_modal'' ''hide'' p in
      navigate (modal_confirm_url ''download_verifier_files_modal'' q @ ''?filters='' @ encodeURIComponent (stringify (verifier_filters p))) q)"

text \<open>The selector of the list of problems names elements by a tag that no page has.\<close>

definition verifier_problems :: selector where
  "verifier_problems e = (el_tag e = ''download_verifier_filesc_problems'')"

definition unknowns_change :: "bool \<Rightarrow> decision_page \<Rightarrow> decision_page" where
  "unknowns_change b = update verifier_problems (set_hidden (\<not> b))"

definition configuration_click :: "decision_page \<Rightarrow> decision_page" where
  "configuration_click p = request ''GET'' (dp_urls p ''configuration_html'') (JObj []) ''configuration'' p"

definition configuration_loaded :: "string \<Rightarrow> decision_page \<Rightarrow> decision_page" where
  "configuration_loaded resp p =
     answered (modal ''decision_conf_modal'' ''show'' (update (inside ''decision_conf_modal'' (by_class ''content'') p) (set_html resp) p))"

section \<open>Events\<close>

datatype decision_event =
    Tick | Autoupdate | Filters bool | Rename_open | Rename_cancel | Rename_confirm | Configuration
  | Results_resp string | Progress_resp string | Refresh_fail jsval | Status_resp jsval | Status_fail jsval | Configuration_resp string | Renamed | Verifier_files

fun decision_step :: "decision_page \<Rightarrow> decision_event \<Rightarrow> decision_page" where
  "decision_step p Tick = tick p"
| "decision_step p Autoupdate = autoupdate_click p"
| "decision_step p (Filters b) = p\<lparr>is_filters_open := b\<rparr>"
| "decision_step p Rename_open = rename_click p"
| "decision_step p Rename_cancel = rename_cancel p"
| "decision_step p Rename_confirm = rename_confirm p"
| "decision_step p Configuration = configuration_click p"
| "decision_step p (Results_resp s) = results_loaded s p"
| "decision_step p (Progress_resp s) = progress_loaded s p"
| "decision_step p (Refresh_fail json) = refresh_failed json p"
| "decision_step p (Status_resp json) = status_loaded json p"
| "decision_step p (Status_fail json) = status_failed json p"
| "decision_step p (Configuration_resp s) = configuration_loaded s p"
| "decision_step p Renamed = decision_renamed p"
| "decision_step p Verifier_files = verifier_files_confirm p"

section \<open>Bound of refreshes\<close>

definition refreshes :: "'a page_scheme \<Rightarrow> nat" where
  "refreshes p = length (filter (\<lambda>r. rq_tag r = ''decision_results'') (requests (out p)))"

definition switched_on :: "decision_page \<Rightarrow> bool" where
  "switched_on p = (autoupdate_status p = JStr ''on'')"

definition bounded :: "nat \<Rightarrow> decision_page \<Rightarrow> bool" where
  "bounded n p = (refreshes p \<le> n + num_of_updates p \<and> num_of_updates p \<le> 101 \<and> (switched_on p \<longrightarrow> num_of_updates p \<le> 100))"

lemma bounded_cong:
  "refreshes q = refreshes p \<Longrightarrow> num_of_updates q = num_of_updates p \<Longrightarrow> switched_on q = switched_on p \<Longrightarrow> bounded n q = bounded n p"
  by (simp add: bounded_def)

lemma dp_frame [simp]:
  "num_of_updates (emit x p) = num_of_updates p" "num_of_updates (update_id i f p) = num_of_updates p"
  "num_of_updates (update P f p) = num_of_updates p" "num_of_updates (err_notify m d p) = num_of_updates p"
  "num_of_updates (foldl (\<lambda>q err. err_notify err None q) p es) = num_of_updates p"
proof -
  show e: "num_of_updates (err_notify m d p) = num_of_updates p" for m d p by (simp add: err_notify_def emit_def)
  show "num_of_updates (foldl (\<lambda>q err. err_notify err None q) p es) = num_of_updates p"
    by (induction es arbitrary: p) (simp_all add: e)
qed (simp_all add: emit_def update_id_def update_def)

lemma refreshes_frame [simp]:
  "refreshes (update_id i f p) = refreshes p" "refreshes (update P f p) = refreshes p" "refreshes (err_notify m d p) = refreshes p"
  "refreshes (modal i c p) = refreshes p" "refreshes (reload p) = refreshes p" "refreshes (navigate u p) = refreshes p"
  "refreshes (foldl (\<lambda>q err. err_notify err None q) p es) = refreshes p"
proof -
  show e: "refreshes (err_notify m d p) = refreshes p" for m d p by (simp add: refreshes_def)
  show "refreshes (foldl (\<lambda>q err. err_notify err None q) p es) = refreshes p"
    by (induction es arbitrary: p) (simp_all add: e)
qed (simp_all add: refreshes_def)

lemma status_frame [simp]:
  "i \<noteq> ''decision_autoupdate_btn'' \<Longrightarrow> keeps_id f \<Longrightarrow> autoupdate_status (update_id i f p) = autoupdate_status p"
  "autoupdate_status (err_notify m d p) = autoupdate_status p" "autoupdate_status (modal j c p) = autoupdate_status p"
  "autoupdate_status (reload p) = autoupdate_status p" "autoupdate_status (navigate u p) = autoupdate_status p"
  "autoupdate_status (foldl (\<lambda>q err. err_notify err None q) p es) = autoupdate_status p"
proof -
  show e: "autoupdate_status (err_notify m d p) = autoupdate_status p" for m d p by (simp add: autoupdate_status_def data_of_def)
  show "autoupdate_status (foldl (\<lambda>q err. err_notify err None q) p es) = autoupdate_status p"
    by (induction es arbitrary: p) (simp_all add: e)
qed (simp_all add: autoupdate_status_def data_of_def)

lemma fields_frame [simp]:
  "refreshes (p\<lparr>dp_alive := b\<rparr>) = refreshes p" "refreshes (p\<lparr>dp_active := n\<rparr>) = refreshes p"
  "refreshes (p\<lparr>num_of_updates := n\<rparr>) = refreshes p" "refreshes (p\<lparr>is_filters_open := b\<rparr>) = refreshes p"
  "refreshes (p\<lparr>is_rename_modal_open := b\<rparr>) = refreshes p"
  "autoupdate_status (p\<lparr>dp_alive := b\<rparr>) = autoupdate_status p" "autoupdate_status (p\<lparr>dp_active := n\<rparr>) = autoupdate_status p"
  "autoupdate_status (p\<lparr>num_of_updates := n\<rparr>) = autoupdate_status p" "autoupdate_status (p\<lparr>is_filters_open := b\<rparr>) = autoupdate_status p"
  "autoupdate_status (p\<lparr>is_rename_modal_open := b\<rparr>) = autoupdate_status p"
  by (simp_all add: refreshes_def autoupdate_status_def data_of_def elem_by_id_def)

lemma request_frame [simp]:
  "refreshes (request m u d t p) = refreshes p + (if t = ''decision_results'' then 1 else 0)"
  "num_of_updates (request m u d t p) = num_of_updates p" "autoupdate_status (request m u d t p) = autoupdate_status p"
  by (simp_all add: request_def send_def) (simp_all add: refreshes_def autoupdate_status_def data_of_def ajax_def)

lemma ajaxError_dp [simp]:
  "refreshes (ajaxError json p) = refreshes p" "num_of_updates (ajaxError json p) = num_of_updates p"
  "autoupdate_status (ajaxError json p) = autoupdate_status p"
  by (simp_all add: ajaxError_def dimmer_off_def Let_def)

lemma set_autoupdate_frame [simp]:
  "refreshes (set_autoupdate t s p) = refreshes p" "num_of_updates (set_autoupdate t s p) = num_of_updates p"
  by (simp_all add: set_autoupdate_def)

lemma set_autoupdate_status: "autoupdate_status (set_autoupdate t s p) \<in> {JStr s, JUndef}"
proof -
  have "keeps_id (set_data ''status'' (JStr s) \<circ> set_text (text_of t p))" by (intro keeps_id_comp keeps_id_ops)
  then show ?thesis by (auto simp: autoupdate_status_def set_autoupdate_def data_of_def split: option.split)
qed

lemma stop_frame [simp]:
  "refreshes (stop_autoupdate p) = refreshes p" "num_of_updates (stop_autoupdate p) = num_of_updates p" "\<not> switched_on (stop_autoupdate p)"
  using set_autoupdate_status[of "''start_autorefresh''" "''off''" "err_notify (text_of ''error__autoupdate_off'' p) None p"]
  by (auto simp: stop_autoupdate_def switched_on_def)

lemma results_request:
  assumes "update_decision_results p = Inr q"
  shows "refreshes q = refreshes p + 1" "num_of_updates q = num_of_updates p" "autoupdate_status q = autoupdate_status p"
  using assms by (cases "collect_view_data ''2'' p"; auto simp: update_decision_results_def)+

lemma bounded_tick:
  assumes "bounded n p"
  shows "bounded n (tick p)"
proof -
  have c: "bounded n (check_status q) = bounded n q" for q by (rule bounded_cong) (simp_all add: check_status_def switched_on_def)
  have "bounded n r" if on: "autoupdate_status p = JStr ''on''" and r: "refresh_results p = Inr r" for r
  proof -
    obtain q where q: "update_decision_results p = Inr q"
      and r': "r = (let r = (update_progress q)\<lparr>num_of_updates := Suc (num_of_updates q)\<rparr> in if num_of_updates r > 100 then stop_autoupdate r else r)"
      using r by (cases "update_decision_results p") (auto simp: refresh_results_def)
    show ?thesis using assms on results_request[OF q]
      by (auto simp: r' bounded_def switched_on_def[of p] update_progress_def Let_def)
  qed
  then show ?thesis using assms by (auto simp: tick_def c split: sum.split)
qed

lemma bounded_click: "bounded n p \<Longrightarrow> bounded (n + 101) (autoupdate_click p)"
  by (auto simp: autoupdate_click_def start_autoupdate_def bounded_def)

lemma html_frame [simp]: "autoupdate_status (update P (set_html h) p) = autoupdate_status p"
  by (auto simp: autoupdate_status_def data_of_def split: option.split)

lemma dialog_frame [simp]: "num_of_updates (modal i c p) = num_of_updates p" "num_of_updates (reload p) = num_of_updates p"
  "num_of_updates (navigate u p) = num_of_updates p"
  by (simp_all add: modal_def reload_def navigate_def)

lemmas quiet_defs = rename_click_def rename_cancel_def rename_confirm_def configuration_click_def results_loaded_def
  progress_loaded_def refresh_failed_def status_loaded_def status_failed_def configuration_loaded_def answered_def decision_renamed_def verifier_files_confirm_def Let_def

lemma quiet_step:
  assumes "e \<notin> {Tick, Autoupdate}"
  shows "refreshes (decision_step p e) = refreshes p" "num_of_updates (decision_step p e) = num_of_updates p"
    "switched_on (decision_step p e) = switched_on p"
  using assms by (cases e; simp add: quiet_defs switched_on_def)+

lemma bounded_step: "bounded n p \<Longrightarrow> bounded (n + (if e = Autoupdate then 101 else 0)) (decision_step p e)"
  using bounded_cong[OF quiet_step, of e n p] by (cases "e \<in> {Tick, Autoupdate}") (auto simp: bounded_tick bounded_click)

lemma bounded_run: "bounded n p \<Longrightarrow> bounded (n + 101 * count_list es Autoupdate) (foldl decision_step p es)"
proof (induction es arbitrary: n p)
  case (Cons e es)
  from Cons.IH[OF bounded_step[OF Cons.prems, of e]] show ?case by (auto simp: algebra_simps)
qed simp

text \<open>
  C14. Whatever happens on the page of a decision, and however long it stays open, its results are requested at
  most 101 times for the start of the page and each click on the button of the automatic refresh.
\<close>

theorem refreshes_are_bounded:
  assumes "refreshes p = 0" "num_of_updates p = 0"
  shows "refreshes (foldl decision_step p es) \<le> 101 * (1 + count_list es Autoupdate)"
proof -
  have "bounded 0 p" using assms by (simp add: bounded_def)
  from bounded_run[OF this, of es] show ?thesis by (simp add: bounded_def)
qed

definition demo_decision :: decision_page where
  "demo_decision = \<lparr>doc = [new_elem\<lparr>el_key := 1, el_id := ''decision_autoupdate_btn'', el_data := (\<lambda>_. JUndef)(''status'' := JStr ''on'')\<rparr>],
     out = [], href = [], num_of_updates = 0, is_filters_open = False, is_rename_modal_open = False,
     dp_alive = True, dp_active = 0, dp_urls = (\<lambda>k. k)\<rparr>"

theorem refreshes_are_bounded_witness:
  "refreshes (foldl decision_step demo_decision [Tick, Tick]) = 1
    \<and> refreshes (foldl decision_step demo_decision [Tick, Tick]) \<le> 101 * (1 + count_list [Tick, Tick] Autoupdate)"
proof -
  have z: "refreshes demo_decision = 0" "num_of_updates demo_decision = 0" by (simp_all add: refreshes_def demo_decision_def)
  have "refreshes (foldl decision_step demo_decision [Tick, Tick]) = 1" by code_simp
  then show ?thesis using refreshes_are_bounded[OF z, of "[Tick, Tick]"] by blast
qed

end
