(* ===== verification/Report_Comparison.thy ===== *)
theory Report_Comparison
  imports Bridge_Utils
begin

text \<open>
  The comparison of two decisions, \<open>reports/static/reports/js/comparison.js\<close>: the cells of the table, the
  search by attributes, the pages of compared reports and the highlighting of equal blocks. Lines between
  blocks are drawn on a canvas and are not modelled.
\<close>

section \<open>Requests\<close>

definition or_undefined :: "jsval \<Rightarrow> jsval" where
  "or_undefined v = (if truthy v then v else JUndef)"

definition get_comparison :: "jsval \<Rightarrow> 'a page_scheme \<Rightarrow> 'a page_scheme" where
  "get_comparison page p =
     send ''GET'' (to_str (val_of ''compare_data_url'' p))
       (JObj [(''page'', page), (''verdict'', or_undefined (val_of ''search_verdict'' p)), (''attrs'', or_undefined (val_of ''search_attrs'' p)),
          (''hide_components'', JNum (if checked ''show_all_components'' p then 0 else 1)),
          (''hide_attrs'', JNum (if checked ''show_all_attrs'' p then 0 else 1))]) ''comparison'' p"

definition fast_backward_click :: "'a page_scheme \<Rightarrow> 'a page_scheme" where
  "fast_backward_click = get_comparison (JNum 1)"

definition fast_forward_click :: "'a page_scheme \<Rightarrow> 'a page_scheme" where
  "fast_forward_click p = get_comparison (JStr (text_of ''total_pages'' p)) p"

text \<open>A page number that cannot be read compares with nothing and is sent as it is.\<close>

definition backward_click :: "'a page_scheme \<Rightarrow> 'a page_scheme" where
  "backward_click p =
     get_comparison (case parseInt (text_of ''current_page'' p) of
       None \<Rightarrow> JNaN | Some n \<Rightarrow> JNum (if n > 1 then n - 1 else n)) p"

definition forward_click :: "'a page_scheme \<Rightarrow> 'a page_scheme" where
  "forward_click p =
     get_comparison (case parseInt (text_of ''current_page'' p) of
       None \<Rightarrow> JNaN
     | Some n \<Rightarrow> (case parseInt (text_of ''total_pages'' p) of
         None \<Rightarrow> JNum n | Some m \<Rightarrow> JNum (if n < m then n + 1 else n))) p"

definition reload_comparison :: "'a page_scheme \<Rightarrow> 'a page_scheme" where
  "reload_comparison p =
     (let curr_page = text_of ''current_page'' p in if curr_page = [] then p else get_comparison (JStr curr_page) p)"

definition compare_cell_click :: "elem \<Rightarrow> 'a page_scheme \<Rightarrow> 'a page_scheme" where
  "compare_cell_click e p =
     get_comparison (JNum 1) (update_id ''search_attrs'' (set_val (JStr []))
       (update_id ''search_verdict'' (set_val (JStr (to_str (el_data e ''verdict'')))) p))"

definition search_by_attrs_click :: "'a page_scheme \<Rightarrow> 'a page_scheme" where
  "search_by_attrs_click p =
     (let attrs = map elem_val (select (id_starts ''select'' ''attr_value__'') p) in
      if attrs = [] then p
      else get_comparison (JNum 1) (update_id ''search_attrs'' (set_val (JStr (stringify (JArr attrs))))
        (update_id ''search_verdict'' (set_val (JStr [])) p)))"

section \<open>Equal blocks\<close>

text \<open>\<open>closest(c)\<close>: the element itself or its nearest ancestor with the class.\<close>

definition closest :: "string \<Rightarrow> 'a page_scheme \<Rightarrow> elem \<Rightarrow> nat option" where
  "closest c p e = find (\<lambda>k. \<exists>a \<in> set (doc p). el_key a = k \<and> has_class c a) (el_key e # el_anc e)"

definition block_marks :: "string \<Rightarrow> 'a page_scheme \<Rightarrow> elem list" where
  "block_marks v p = select (\<lambda>e. has_class ''block_class'' e \<and> el_attrs e ''value'' = Some v) p"

definition block_class :: "elem \<Rightarrow> 'a page_scheme \<Rightarrow> string" where
  "block_class b p =
     to_str (case select (\<lambda>e. has_class ''block_class'' e \<and> el_key b \<in> set (el_anc e)) p of [] \<Rightarrow> JUndef | e # _ \<Rightarrow> elem_val e)"

definition block_hover_on :: "elem \<Rightarrow> 'a page_scheme \<Rightarrow> 'a page_scheme" where
  "block_hover_on b p =
     (let marks = block_marks (block_class b p) p;
          others = filter (\<lambda>c. Some (el_key c) \<noteq> closest ''reports-column'' p b) (select (by_class ''reports-column'') p);
          found = (others \<noteq> [] \<and> (\<exists>m \<in> set marks. el_key (last others) \<in> set (el_anc m)));
          blocks = map (closest ''comparison-block'' p) marks in
      update (\<lambda>e. Some (el_key e) \<in> set blocks) (add_class (if found then ''block-hover-normal'' else ''block-hover-single'')) p)"

definition block_hover_off :: "'a page_scheme \<Rightarrow> 'a page_scheme" where
  "block_hover_off = update (by_class ''comparison-block'') (remove_class ''block-hover-normal'' \<circ> remove_class ''block-hover-single'')"

section \<open>Pages\<close>

definition page_asked :: "'a page_scheme \<Rightarrow> jsval" where
  "page_asked p = get_prop (rq_data (last (requests (out p)))) ''page''"

lemma page_asked_get [simp]: "page_asked (get_comparison v p) = v"
  by (simp add: page_asked_def get_comparison_def ajax_def)

text \<open>The buttons of pages ask for a page between the first and the last one, if the current one is.\<close>

lemma paging_stays_in_range:
  assumes "parseInt (text_of ''current_page'' p) = Some n" "parseInt (text_of ''total_pages'' p) = Some m" "1 \<le> n" "n \<le> m"
  shows "page_asked (backward_click p) = JNum (max 1 (n - 1))" "page_asked (forward_click p) = JNum (min m (n + 1))"
  using assms by (auto simp: backward_click_def forward_click_def)

text \<open>Leaving a block undoes the highlighting of every block.\<close>

lemma hover_off_clears:
  assumes "e \<in> set (doc (block_hover_off p))" "has_class ''comparison-block'' e"
  shows "\<not> has_class ''block-hover-normal'' e \<and> \<not> has_class ''block-hover-single'' e"
  using assms by (auto simp: block_hover_off_def update_def by_class_def split: if_splits)

text \<open>A block is highlighted as common exactly if the other column has a block of its class.\<close>

lemma hover_on_marks:
  assumes "e \<in> set (doc (block_hover_on b p))" "\<forall>x \<in> set (doc p). \<not> has_class ''block-hover-normal'' x"
    "has_class ''block-hover-normal'' e"
  shows "\<exists>c m. c \<in> set (doc p) \<and> has_class ''reports-column'' c \<and> Some (el_key c) \<noteq> closest ''reports-column'' p b
    \<and> m \<in> set (block_marks (block_class b p) p) \<and> el_key c \<in> set (el_anc m)"
proof -
  let ?others = "filter (\<lambda>c. Some (el_key c) \<noteq> closest ''reports-column'' p b) (select (by_class ''reports-column'') p)"
  have "?others \<noteq> [] \<and> (\<exists>m \<in> set (block_marks (block_class b p) p). el_key (last ?others) \<in> set (el_anc m))"
    using assms by (auto simp: block_hover_on_def update_def Let_def split: if_splits)
  then obtain m where m: "m \<in> set (block_marks (block_class b p) p)" "el_key (last ?others) \<in> set (el_anc m)" and "?others \<noteq> []" by blast
  then have "last ?others \<in> set ?others" by (intro last_in_set)
  then have "last ?others \<in> set (doc p) \<and> has_class ''reports-column'' (last ?others) \<and> Some (el_key (last ?others)) \<noteq> closest ''reports-column'' p b"
    by (simp add: select_def by_class_def)
  then show ?thesis using m by blast
qed

end
