(* ===== verification/Tags_Map.thy ===== *)
theory Tags_Map
  imports Job_Lists Mark_Forms Report_Comparison
begin

text \<open>
  The tree of tags, \<open>marks/static/marks/js/tagsmap.js\<close>: dialogs that delete, edit and create tags, set who may
  edit them and upload tags. The lines of the tree are drawn as on the pages of marks (\<open>draw_connections\<close>);
  pop-ups and hints on hover are library calls.
\<close>

text \<open>The data of the pop-up an icon is in.\<close>

definition popup_data :: "elem \<Rightarrow> string \<Rightarrow> 'a page_scheme \<Rightarrow> jsval" where
  "popup_data e k p =
     (case closest ''tag-popup'' p e of
        None \<Rightarrow> JUndef
      | Some a \<Rightarrow> (case find (\<lambda>x. el_key x = a) (doc p) of None \<Rightarrow> JUndef | Some x \<Rightarrow> el_data x k))"

abbreviation refresh_list :: "string \<Rightarrow> 'a page_scheme \<Rightarrow> 'a page_scheme" where
  "refresh_list i \<equiv> emit (Widget (''#'' @ i) ''dropdown'' [JStr ''refresh''])"

section \<open>Deleting and editing\<close>

definition remove_tag_icon_click :: "elem \<Rightarrow> 'a page_scheme \<Rightarrow> 'a page_scheme" where
  "remove_tag_icon_click e p =
     (let p1 = popup_hide ''.edit-tag-cell'' p in
      modal ''remove_tag_modal'' ''show'' (confirm_data ''remove_tag_modal'' ''url'' (popup_data e ''url'' p1) p1))"

definition remove_tag_confirm :: "'a page_scheme \<Rightarrow> 'a page_scheme" where
  "remove_tag_confirm p = send ''DELETE'' (to_str (confirm_get ''remove_tag_modal'' ''url'' p)) JUndef ''reload'' p"

definition edit_tag_icon_click :: "elem \<Rightarrow> 'a page_scheme \<Rightarrow> 'a page_scheme" where
  "edit_tag_icon_click e p =
     send ''GET'' (to_str (popup_data e ''url'' p) @ ''?fields=description&fields=parents&fields=shortname&fields=parent'') JUndef ''tag_loaded'' p"

text \<open>The options are added one by one; a list without a selected one selects its first.\<close>

definition parent_options :: "jsval \<Rightarrow> jsval list \<Rightarrow> opt list" where
  "parent_options parent vs =
     select_some (map (\<lambda>v. (new_opt (to_str (get_prop v ''id'')) (to_str (get_prop v ''name'')))
       \<lparr>o_selected := (get_prop v ''id'' = parent)\<rparr>) vs)"

definition tag_loaded :: "jsval \<Rightarrow> jsval \<Rightarrow> 'a page_scheme \<Rightarrow> 'a page_scheme" where
  "tag_loaded tag_url resp p =
     (let p1 = update_id ''edit_tag_name'' (set_val (get_prop resp ''shortname'')) p;
          p2 = update_id ''edit_tag_description'' (set_val (get_prop resp ''description'')) p1;
          p3 = update_id ''edit_tag_parent'' (set_opts (parent_options (get_prop resp ''parent'') (case get_prop resp ''parents'' of JArr vs \<Rightarrow> vs | _ \<Rightarrow> []))) p2;
          p4 = confirm_data ''edit_tag_modal'' ''url'' tag_url p3 in
      refresh_list ''edit_tag_parent'' (modal ''edit_tag_modal'' ''show'' p4))"

definition edit_tag_confirm :: "'a page_scheme \<Rightarrow> 'a page_scheme" where
  "edit_tag_confirm p =
     (let parent = val_of ''edit_tag_parent'' p in
      api_send_json (to_str (confirm_get ''edit_tag_modal'' ''url'' p)) ''PUT''
        (JObj [(''shortname'', val_of ''edit_tag_name'' p), (''parent'', if parent = JStr ''0'' then JNull else parent),
           (''description'', val_of ''edit_tag_description'' p)]) ''reload'' p)"

section \<open>Creating\<close>

definition create_tag_icon_click :: "elem \<Rightarrow> 'a page_scheme \<Rightarrow> 'a page_scheme" where
  "create_tag_icon_click e p = send ''GET'' (to_str (popup_data e ''url'' p) @ ''?fields=name'') JUndef ''parent_loaded'' p"

definition new_tag_dialog :: "string \<Rightarrow> jsval \<Rightarrow> 'a page_scheme \<Rightarrow> 'a page_scheme" where
  "new_tag_dialog title parent p =
     (let p1 = update_id ''create_tag_description'' (set_val (JStr [])) (update_id ''create_tag_name'' (set_val (JStr [])) p);
          p2 = update_id ''create_tag_parent'' (set_text title) p1 in
      modal ''create_tag_modal'' ''show'' (confirm_data ''create_tag_modal'' ''parent'' parent p2))"

definition parent_loaded :: "jsval \<Rightarrow> jsval \<Rightarrow> 'a page_scheme \<Rightarrow> 'a page_scheme" where
  "parent_loaded parent_id resp = new_tag_dialog (to_str (get_prop resp ''name'')) parent_id"

definition create_root_tag_click :: "'a page_scheme \<Rightarrow> 'a page_scheme" where
  "create_root_tag_click = new_tag_dialog ''-'' JNull"

definition create_tag_confirm :: "string \<Rightarrow> 'a page_scheme \<Rightarrow> 'a page_scheme" where
  "create_tag_confirm list_url p =
     api_send_json list_url ''POST'' (JObj [(''shortname'', val_of ''create_tag_name'' p),
       (''parent'', confirm_get ''create_tag_modal'' ''parent'' p), (''description'', val_of ''create_tag_description'' p)]) ''reload'' p"

section \<open>Access\<close>

definition access_icon_click :: "elem \<Rightarrow> 'a page_scheme \<Rightarrow> 'a page_scheme" where
  "access_icon_click e p =
     (let p1 = popup_hide ''.edit-tag-cell'' p; url = popup_data e ''access'' p1 in
      send ''GET'' (to_str url) (JObj []) ''access_loaded'' (confirm_data ''change_access_tag_modal'' ''url'' url p1))"

definition user_options :: "string \<Rightarrow> jsval list \<Rightarrow> opt list" where
  "user_options k us =
     map (\<lambda>u. (new_opt (to_str (get_prop u ''id'')) (to_str (get_prop u ''name'')))\<lparr>o_selected := truthy (get_prop u k)\<rparr>) us"

definition access_loaded :: "jsval list \<Rightarrow> 'a page_scheme \<Rightarrow> 'a page_scheme" where
  "access_loaded us p =
     (let p1 = update_id ''change_access_create_select'' (set_opts (user_options ''can_create'' us))
          (update_id ''change_access_edit_select'' (set_opts (user_options ''can_edit'' us)) p) in
      modal ''change_access_tag_modal'' ''show'' (refresh_list ''change_access_create_select'' (refresh_list ''change_access_edit_select'' p1)))"

definition access_confirm :: "'a page_scheme \<Rightarrow> 'a page_scheme" where
  "access_confirm p =
     api_send_json (to_str (confirm_get ''change_access_tag_modal'' ''url'' p)) ''POST''
       (JObj [(''can_edit'', val_of ''change_access_edit_select'' p), (''can_create'', val_of ''change_access_create_select'' p)]) ''access_saved'' p"

section \<open>Uploading\<close>

definition upload_tags_confirm :: "string \<Rightarrow> 'a page_scheme \<Rightarrow> 'a page_scheme" where
  "upload_tags_confirm upload_url p =
     (case elem_by_id ''upload_tags_file_input'' p of
        None \<Rightarrow> p
      | Some e \<Rightarrow>
          (case el_files e of
             [] \<Rightarrow> err_notify (text_of ''error__no_file_chosen'' p) None p
           | f # _ \<Rightarrow> send ''POST'' upload_url (JObj [(''file'', JStr f)]) ''reload'' (dimmer_on (modal ''upload_tags_modal'' ''hide'' p))))"

section \<open>Dialogs send back what they were filled with\<close>

definition users_with :: "string \<Rightarrow> jsval list \<Rightarrow> jsval" where
  "users_with k us = JArr (map (\<lambda>u. JStr (to_str (get_prop u ''id''))) (filter (\<lambda>u. truthy (get_prop u k)) us))"

lemma user_options_val: "el_tag e = ''select'' \<Longrightarrow> el_attrs e ''multiple'' \<noteq> None \<Longrightarrow> elem_val (set_opts (user_options k us) e) = users_with k us"
  by (simp add: elem_val_def set_opts_def user_options_def users_with_def new_opt_def filter_map comp_def)

definition multiple_list :: "string \<Rightarrow> 'a page_scheme \<Rightarrow> bool" where
  "multiple_list i p = (case elem_by_id i p of None \<Rightarrow> False | Some e \<Rightarrow> el_tag e = ''select'' \<and> el_attrs e ''multiple'' \<noteq> None)"

lemma val_filled: "multiple_list i p \<Longrightarrow> val_of i (update_id i (set_opts (user_options k us)) p) = users_with k us"
  by (auto simp: val_of_def multiple_list_def user_options_val split: option.splits)

text \<open>The dialog of access that is confirmed without changes sends exactly the users the server has allowed.\<close>

lemma access_unchanged:
  assumes "multiple_list ''change_access_edit_select'' p" "multiple_list ''change_access_create_select'' p"
  shows "map rq_data (requests (out (access_confirm (access_loaded us p)))) = map rq_data (requests (out p))
    @ [JStr (stringify (JObj [(''can_edit'', users_with ''can_edit'' us), (''can_create'', users_with ''can_create'' us)]))]"
proof -
  define q where "q = update_id ''change_access_edit_select'' (set_opts (user_options ''can_edit'' us)) p"
  define r where "r = update_id ''change_access_create_select'' (set_opts (user_options ''can_create'' us)) q"
  have l: "access_loaded us p = modal ''change_access_tag_modal'' ''show'' (refresh_list ''change_access_create_select'' (refresh_list ''change_access_edit_select'' r))"
    by (simp add: access_loaded_def q_def r_def Let_def)
  have "val_of ''change_access_edit_select'' r = users_with ''can_edit'' us"
    using val_filled[OF assms(1)] by (simp add: r_def q_def val_of_def)
  moreover have "multiple_list ''change_access_create_select'' q" using assms(2) by (simp add: q_def multiple_list_def)
  then have "val_of ''change_access_create_select'' r = users_with ''can_create'' us" unfolding r_def by (rule val_filled)
  moreover have "val_of i (access_loaded us p) = val_of i r" for i by (simp add: l val_of_def)
  moreover have "requests (out (access_loaded us p)) = requests (out p)" by (simp add: l r_def q_def)
  ultimately show ?thesis by (simp add: access_confirm_def api_send_json_def ajax_def)
qed

text \<open>A tag without a parent stays without one: the list offers the value zero first.\<close>

lemma no_parent_first:
  assumes "\<forall>v \<in> set vs. get_prop v ''id'' \<noteq> JNull" "vs = v # ws" "get_prop v ''id'' = JNum 0"
  shows "filter o_selected (parent_options JNull vs) = [(new_opt ''0'' (to_str (get_prop v ''name'')))\<lparr>o_selected := True\<rparr>]"
proof -
  have z: "show_int 0 = ''0''" by code_simp
  have "filter o_selected (map (\<lambda>v. (new_opt (to_str (get_prop v ''id'')) (to_str (get_prop v ''name'')))\<lparr>o_selected := (get_prop v ''id'' = JNull)\<rparr>) us) = []"
    if "\<forall>v \<in> set us. get_prop v ''id'' \<noteq> JNull" for us
    using that by (induction us) (auto simp: new_opt_def)
  then show ?thesis using assms by (auto simp: parent_options_def select_some_def list_ex_iff new_opt_def z)
qed

end
