(* ===== verification/Log_Viewer.thy ===== *)
theory Log_Viewer
  imports Url_Params Bridge_Utils
begin

text \<open>
  The viewer of log files, \<open>tools/static/tools/js/file_logs.js\<close>: the chosen log is loaded and then followed by a
  timer that asks for what has been added since the known position. \<open>lg_timers\<close> are the running timers with
  the log each of them follows, \<open>lg_interval\<close> is the one the script knows, \<open>lg_next\<close> the number of the next timer;
  \<open>lg_pending\<close> are the open requests.
\<close>

section \<open>Loading and following\<close>

datatype log_request = Load string | Poll string | Clear


record log_page = page +
  position :: int
  lg_interval :: "nat option"
  lg_timers :: "(nat \<times> string) list"
  lg_next :: nat
  lg_pending :: "log_request list"
  lg_urls :: "string \<Rightarrow> string"

definition ask :: "string \<Rightarrow> (string \<times> string) list \<Rightarrow> log_request \<Rightarrow> log_page \<Rightarrow> log_page" where
  "ask m params r p =
     (let u = get_url_with_get_parameters (lg_urls p (if r = Clear then ''clear_log'' else ''get_log_content'')) params in
      (send m u (JObj []) ''log'' p)\<lparr>lg_pending := lg_pending p @ [r]\<rparr>)"









section \<open>Events\<close>





section \<open>Timers\<close>

lemma log_frame [simp]:
  "lg_pending (update_id i f p) = lg_pending p"
  "lg_timers (update_id i f p) = lg_timers p" "lg_interval (update_id i f p) = lg_interval p" "lg_next (update_id i f p) = lg_next p"
  "lg_timers (err_notify m d p) = lg_timers p" "lg_interval (err_notify m d p) = lg_interval p" "lg_next (err_notify m d p) = lg_next p"
  by (simp_all add: update_id_def err_notify_def emit_def)

lemma notify_all_log [simp]:
  "lg_timers (foldl (\<lambda>q v. err_notify v None q) p vs) = lg_timers p" "lg_interval (foldl (\<lambda>q v. err_notify v None q) p vs) = lg_interval p"
  "lg_next (foldl (\<lambda>q v. err_notify v None q) p vs) = lg_next p"
  by (induction vs arbitrary: p) simp_all

lemma ajaxError_log [simp]:
  "lg_timers (ajaxError json p) = lg_timers p" "lg_interval (ajaxError json p) = lg_interval p" "lg_next (ajaxError json p) = lg_next p"
  by (simp_all add: ajaxError_def dimmer_off_def Let_def)

lemma ask_frame [simp]:
  "lg_timers (ask m ps r p) = lg_timers p" "lg_interval (ask m ps r p) = lg_interval p" "lg_next (ask m ps r p) = lg_next p"
  by (simp_all add: ask_def Let_def send_def emit_def)














end
