(* ===== verification/Spec2Isabelle.thy ===== *)
theory Spec2Isabelle
  imports Tree_Table View_Settings Error_Trace Report_Log_Tree Coverage_View Files_Tree Job_Roles Start_Decision Job_Lists Mark_Forms Report_Graph Decision_Page Tags_Map Log_Viewer
begin

text \<open>
  Klever Bridge is the web interface of the Klever verification system. Its pages show jobs, decisions, reports
  and marks, and their behaviour is programmed in JavaScript files under \<open>src/bridge\<close>. This development models
  these page scripts and proves what they keep and what they compute. Paths below are relative to \<open>src/bridge\<close>;
  \<open><app>/static/<app>/js\<close> is left out of the paths of the applications \<open>bridge\<close>, \<open>jobs\<close>, \<open>marks\<close>, \<open>reports\<close>
  and \<open>tools\<close>.

  \<^bold>\<open>How a script is modelled.\<close> The page is a record (\<open>Page_Model\<close>): the list of its elements in document
  order, the log of what the script does outside the document (notifications, requests, navigation, calls of
  widgets) and the address. A script's own variables extend the record. A handler of the script is a function
  from pages to pages; the callback of a request is a function of its own, applied when the answer comes, so that
  answers may come in any order; the tag of a request names its callbacks. Code that throws returns a value of a
  sum type or an error beside the page reached before the error. JavaScript values, conversions and string
  methods are those of \<open>JS_Runtime\<close>. Strings are lists of characters of one byte; this is the reading of a page
  in Latin-1, and the percent-decoder reports a text beyond it as an error of its own.

  \<^bold>\<open>Theories.\<close>
  \<^item> \<open>Bridge_Prelude\<close>: generic lemmas and the interface \<open>event_machine\<close>, an invariant kept by every event of a page.
  \<^item> \<open>JS_Runtime\<close>, \<open>Page_Model\<close>: the language and the page, with the frame equations of the page's operations.
  \<^item> \<open>Bridge_Utils\<close> (\<open>bridge.js\<close>: cookies, request headers, failed requests, API errors, \<open>format\<close>, file names),
    \<open>Url_Params\<close> (\<open>bridge.js\<close>: \<open>encodeQueryData\<close>, \<open>getUrlParameter\<close>, \<open>get_url_with_get_parameters\<close>,
    \<open>clear_query_params\<close>), \<open>View_Settings\<close> (\<open>bridge.js\<close>: settings of views, pages of lists, confirmations, uploads).
    \<open>Url_Params\<close> reads an address as a list of pairs and shows that the scripts, which work on the text with
    regular expressions, implement setting and clearing of pairs, for keys that are literal in a regular expression; that queries are read back as written.
  \<^item> \<open>Forest_Rows\<close> and \<open>Tree_Table\<close> (\<open>treetable.js\<close>): tables that show a tree. The interface \<open>tree_view\<close> states when
    the hidden rows are exactly those below a collapsed row; the clicks of the script satisfy it.
  \<^item> \<open>Source_View\<close> (\<open>source.js\<close>), \<open>Error_Trace\<close> (\<open>ETV.js\<close>): source code window with its history, and the error trace
    beside it. After any clicks nothing inside a closed function, at any depth, and nothing of a closed block of declarations is
    visible, except declarations that the link of a note shows; closing a function changes nothing outside it; such a
    declaration stays visible when the function around it is closed. The address written to the history restores the window.
  \<^item> \<open>JS_Tree\<close> (the model of the tree widget), \<open>Report_Log\<close> and \<open>Report_Log_Tree\<close> (\<open>reports_logging.js\<close>): the tree stays
    consistent under creating, moving and deleting; the player of logs ends, keeps its buttons in step with its timer and shows
    the reports that the played lines have created.
  \<^item> \<open>Coverage_View\<close> (\<open>coverage.js\<close>, \<open>leaf-coverage.js\<close>): statistics tree, file tables and navigation between lines and
    files.
  \<^item> \<open>Files_Tree\<close> (\<open>decisionFilesEdit.js\<close>, \<open>jobFilesView.js\<close>, \<open>jobForm.js\<close>): the editor of files on top of \<open>JS_Tree\<close>; after any
    events of the editor, moving by drag and drop left out, siblings have different names and files have no children.
  \<^item> \<open>Drop_Downs\<close>, \<open>Job_Roles\<close> (\<open>jobRolesEdit.js\<close>), \<open>Start_Decision\<close> (\<open>startDecision.js\<close>): forms. No user is lost or
    doubled between the list and the roles; a configuration that is loaded is sent back unchanged.
  \<^item> \<open>Job_Lists\<close> (\<open>jobtree.js\<close>, \<open>jobPage.js\<close>, \<open>marks.js\<close>): selection, buttons, and removal in bulk with answers in any order.
  \<^item> \<open>Decision_Page\<close> (\<open>decisionPage.js\<close>): the timer of a decision and a bound of its requests.
  \<^item> \<open>Mark_Forms\<close> (\<open>markForm.js\<close>, \<open>inlineMarkForm.js\<close>, \<open>mark.js\<close>, \<open>tags.js\<close>), \<open>Tags_Map\<close> (\<open>tagsmap.js\<close>): forms of marks and tags;
    what is sent as a description without \<open>template\<close> elements has neither scripts nor event handlers.
  \<^item> \<open>Report_Graph\<close> (\<open>report-graph.js\<close>, \<open>reportComponent.js\<close>), \<open>Report_Comparison\<close> (\<open>comparison.js\<close>): graphs read from text and
    drawn, and the comparison of decisions.
  \<^item> \<open>Log_Viewer\<close> (\<open>file_logs.js\<close>): the timers that follow a log file, and one that nothing stops after two logs were
    chosen one right after the other and both were loaded.

  \<^bold>\<open>Interaction.\<close> Every page uses the helpers of \<open>bridge.js\<close>: failed requests end in \<open>ajaxError\<close>, buttons are
  enabled by \<open>update_action_button\<close>, addresses are changed by the functions of \<open>Url_Params\<close>. \<open>Source_View\<close> is the lower
  half of the pages of \<open>Error_Trace\<close> and \<open>Coverage_View\<close>, which handle its events along with their own. \<open>JS_Tree\<close> is used by
  the player of logs and by the editor of files, whose invariants extend its own. The last section of this
  theory follows a selection from the tree of jobs into the address of a download.

  \<^bold>\<open>Interfaces.\<close> \<open>event_machine\<close> is interpreted for the tree of jobs (\<open>jobs_tree\<close>, \<open>jobs_list\<close>), the statistics tree (\<open>stat_tree\<close>), the
  editor of files (\<open>files_editor\<close>), the roles (\<open>roles_form\<close>) and the timers of logs (\<open>log_timers\<close>); \<open>tree_view\<close> for the table of the script (\<open>tt\<close>).

  \<^bold>\<open>Recursion.\<close> Opening and closing scopes of a trace recurs over nested scopes; the model takes fuel
  (\<open>etv_fuel\<close>, one more than a bound on the scopes of the trace) and \<open>etv_clicks_keep_scopes\<close> proves that a result is always
  reached for a well-formed trace. Playing a log to its end takes one step more than there are lines left
  (\<open>auto_play_ends\<close>). All other loops are total functions.

  \<^bold>\<open>Arguments that stand for other code.\<close> The browser's parser and printer of HTML (\<open>Mark_Forms\<close>), the elements it builds from an
  answer, the bounds the drawing library reports (\<open>Report_Graph\<close>) and the answers of the server. Where a
  theorem needs a fact about them, it is a hypothesis; most theorems hold for any.

  \<^bold>\<open>Not modelled.\<close>
  \<^item> Look and libraries: jQuery, Semantic UI, CodeMirror, mxGraph, notify, calendar and JSON viewer are third-party files;
    their calls are outputs, and their documented effect is modelled where a script depends on it (selected
    options, checked boxes, the model of the tree widget). Pop-ups, hints on hover, transitions and the lines drawn
    on a canvas by \<open>comparison.js\<close> have no state that a script reads.
  \<^item> Scripts that only connect library calls: \<open>reportLeaf.js\<close>, \<open>reportsList.js\<close>, \<open>ETV-windows.js\<close>, \<open>etv-analizer.js\<close>;
    \<open>manager.js\<close> and \<open>logs.js\<close>, which send a form and show the answer, and \<open>service.js\<close>, which shows and hides rows. None of them
    keeps variables between events.
  \<^item> The parts of Klever in Python (the server of Bridge, the core, schedulers, deployment) and the presets in C
    and JSON: other programs, connected to these scripts by requests.
\<close>

section \<open>Properties across components\<close>

lemma ids_address:
  "''?jobs='' @ encodeURIComponent a @ ''&decisions='' @ encodeURIComponent b = ''?'' @ encodeQueryData [(''jobs'', a), (''decisions'', b)]"
  by (simp add: encodeQueryData_def encodeURIComponent_def encode_unit_def unreserved_def Let_def)

text \<open>
  C17. The download of selected jobs and decisions carries exactly the selection: the page asks whether the
  selected objects can be downloaded, and on a positive answer goes to an address whose parameters, read
  the way the pages read parameters, are the same two lists. Without a selection nothing is requested.
\<close>

theorem download_carries_selection:
  fixes p :: tree_page
  defines "js \<equiv> get_selected_objs ''job'' p" and "ds \<equiv> get_selected_objs ''decision'' p"
  shows "if js = [] \<and> ds = [] then requests (out (download_selected_click p)) = requests (out p)
    else map rq_data (requests (out (download_selected_click p))) = map rq_data (requests (out p))
        @ [JObj [(''jobs'', JStr (ids_json js)), (''decisions'', JStr (ids_json ds))]]
      \<and> (\<exists>s. navigations (out (can_download js ds (download_selected_click p))) = navigations (out p) @ [jl_urls p ''download_jobs'' @ s]
        \<and> getUrlParameter s ''jobs'' = Inr (JStr (ids_json js)) \<and> getUrlParameter s ''decisions'' = Inr (JStr (ids_json ds)))"
proof (cases "js = [] \<and> ds = []")
  case True
  then show ?thesis by (simp add: js_def ds_def download_selected_click_def get_selected_objs_def checked_boxes_def Let_def)
next
  case False
  let ?q = "download_selected_click p"
  let ?s = "''?'' @ encodeQueryData [(''jobs'', ids_json js), (''decisions'', ids_json ds)]"
  have q: "?q = send ''POST'' (jl_urls p ''can_download'') (JObj [(''jobs'', JStr (ids_json js)), (''decisions'', JStr (ids_json ds))])
      ''can_download'' (popup_hide ''#jobs_actions_menu'' p)"
    using False by (auto simp: js_def ds_def download_selected_click_def get_selected_objs_def checked_boxes_def popup_hide_def emit_def select_def Let_def)
  have "jl_urls ?q = jl_urls p" by (simp add: q send_def emit_def popup_hide_def)
  then have n: "navigations (out (can_download js ds ?q)) = navigations (out p) @ [jl_urls p ''download_jobs'' @ ?s]"
    using ids_address[of "ids_json js" "ids_json ds"] by (simp add: can_download_def q ajax_def)
  have k: "encodeURIComponent ''jobs'' = ''jobs''" "encodeURIComponent ''decisions'' = ''decisions''"
    by (simp_all add: encodeURIComponent_def encode_unit_def unreserved_def Let_def)
  have "getUrlParameter ?s ''jobs'' = Inr (JStr (ids_json js))" "getUrlParameter ?s ''decisions'' = Inr (JStr (ids_json ds))"
    using query_data_read_back[OF k(1)] query_data_read_back[OF k(2)] by simp_all
  moreover have "map rq_data (requests (out ?q)) = map rq_data (requests (out p))
        @ [JObj [(''jobs'', JStr (ids_json js)), (''decisions'', JStr (ids_json ds))]]" by (simp add: q ajax_def)
  ultimately show ?thesis using False n by (metis (no_types, lifting))
qed
end
